(* ===== verification/Prelude.thy ===== *)
theory Prelude
  imports Main "HOL-Library.Word" "HOL-Library.List_Lexorder"
begin

text \<open>
  Shared material of the development: the machine types of shared-headers/Units.hpp, the
  truncation that C++ performs when an \<open>int\<close> expression is stored into an unsigned field,
  byte memory with \<open>memcpy\<close>, and the generic list lemmas that the component theories use.
\<close>

section \<open>Machine types\<close>

text \<open>The fixed-width types of Units.hpp that are used bitwise.\<close>

type_synonym u8 = "8 word"
type_synonym u32 = "32 word"
type_synonym u64 = "64 word"
type_synonym bytes = "u8 list"

text \<open>The outcome of a call that may end with \<open>jumpmu::jump()\<close> (utils/JumpMU.hpp).\<close>

datatype 'a jmu = Jump | Ret 'a

text \<open>
  Sizes and offsets are natural numbers. Every store of an arithmetic expression into a field
  of width \<open>w\<close> goes through the truncation to \<open>w\<close> bits, which is where the code can wrap.
\<close>

definition u16 :: "int \<Rightarrow> nat" where
  "u16 x = nat (x mod 65536)"

definition u32_of :: "int \<Rightarrow> nat" where
  "u32_of x = nat (x mod 4294967296)"

text \<open>The collections: \<open>u16_simps\<close> removes truncations that are in range, \<open>mem_simps\<close> reads
  memory back after writes.\<close>

named_theorems u16_simps
named_theorems mem_simps

lemma u16_id [u16_simps]: "0 \<le> x \<Longrightarrow> x < 65536 \<Longrightarrow> u16 x = nat x"
  by (simp add: u16_def)

lemma u16_of_nat [u16_simps]: "n < 65536 \<Longrightarrow> u16 (int n) = n"
  by (simp add: u16_def)

lemma u16_diff [u16_simps]: "b \<le> a \<Longrightarrow> a - b < 65536 \<Longrightarrow> u16 (int a - int b) = a - b"
  using u16_of_nat [of "a - b"] by (simp add: of_nat_diff)

lemma u16_add [u16_simps]: "a + b < 65536 \<Longrightarrow> u16 (int a + int b) = a + b"
  using u16_of_nat [of "a + b"] by simp

lemma u16_less: "u16 x < 65536"
  by (simp add: u16_def nat_less_iff)

lemma u32_of_nat [u16_simps]: "n < 4294967296 \<Longrightarrow> u32_of (int n) = n"
  by (simp add: u32_of_def)

section \<open>Byte memory\<close>

text \<open>A page's bytes are a function from offsets; \<open>read_mem\<close> is the view of a pointer and a
  length, \<open>write_mem\<close> is \<open>memcpy\<close> into the page.\<close>

type_synonym mem = "nat \<Rightarrow> u8"

definition read_mem :: "mem \<Rightarrow> nat \<Rightarrow> nat \<Rightarrow> bytes" where
  "read_mem h off len = map h [off..<off + len]"

definition write_mem :: "mem \<Rightarrow> nat \<Rightarrow> bytes \<Rightarrow> mem" where
  "write_mem h off bs = (\<lambda>i. if off \<le> i \<and> i < off + length bs then bs ! (i - off) else h i)"

lemma length_read_mem [simp]: "length (read_mem h off len) = len"
  by (simp add: read_mem_def)

lemma read_mem_0 [simp]: "read_mem h off 0 = []"
  by (simp add: read_mem_def)

lemma read_mem_nth: "i < len \<Longrightarrow> read_mem h off len ! i = h (off + i)"
  by (simp add: read_mem_def)

lemma read_mem_cong:
  "(\<And>i. off \<le> i \<Longrightarrow> i < off + len \<Longrightarrow> h i = h' i) \<Longrightarrow> read_mem h off len = read_mem h' off len"
  by (simp add: read_mem_def)

lemma read_write_same [mem_simps]:
  "len = length bs \<Longrightarrow> read_mem (write_mem h off bs) off len = bs"
  by (rule nth_equalityI) (simp_all add: read_mem_nth write_mem_def)

lemma read_write_disjoint [mem_simps]:
  "off + len \<le> off' \<or> off' + length bs \<le> off \<Longrightarrow>
     read_mem (write_mem h off' bs) off len = read_mem h off len"
  by (rule read_mem_cong) (auto simp: write_mem_def)

lemma read_mem_append: "read_mem h off (a + b) = read_mem h off a @ read_mem h (off + a) b"
proof (rule nth_equalityI)
  fix i assume "i < length (read_mem h off (a + b))"
  then show "read_mem h off (a + b) ! i = (read_mem h off a @ read_mem h (off + a) b) ! i"
    by (cases "i < a") (simp_all add: read_mem_nth nth_append)
qed simp

lemma read_mem_take: "m \<le> len \<Longrightarrow> take m (read_mem h off len) = read_mem h off m"
  by (rule nth_equalityI) (simp_all add: read_mem_nth)

lemma write_mem_append:
  "write_mem h off (xs @ ys) = write_mem (write_mem h off xs) (off + length xs) ys"
  by (rule ext) (auto simp: write_mem_def nth_append)

section \<open>Lists\<close>

text \<open>The array operations \<open>memmove(slot + p + 1, slot + p, n - p)\<close> followed by a store at \<open>p\<close>, and
  \<open>memmove(slot + p, slot + p + 1, n - p - 1)\<close>, on the list of the first \<open>n\<close> elements.\<close>

definition insert_at :: "nat \<Rightarrow> 'a \<Rightarrow> 'a list \<Rightarrow> 'a list" where
  "insert_at p x xs = take p xs @ x # drop p xs"

definition remove_at :: "nat \<Rightarrow> 'a list \<Rightarrow> 'a list" where
  "remove_at p xs = take p xs @ drop (Suc p) xs"

lemma map_upt_insert:
  "p \<le> n \<Longrightarrow> map (\<lambda>i. if i < p then f i else if i = p then x else f (i - 1)) [0..<Suc n]
     = insert_at p x (map f [0..<n])"
  by (rule nth_equalityI) (auto simp: insert_at_def nth_append nth_Cons' simp del: upt_Suc)

lemma map_upt_remove:
  "p < n \<Longrightarrow> map (\<lambda>i. if i < p then f i else f (Suc i)) [0..<n - 1] = remove_at p (map f [0..<n])"
  by (rule nth_equalityI) (auto simp: remove_at_def nth_append)

lemma set_insert_at: "set (insert_at p x xs) = insert x (set xs)"
  unfolding insert_at_def using set_append [of "take p xs" "drop p xs"] by auto

lemma set_remove_at_subset: "set (remove_at p xs) \<subseteq> set xs"
  unfolding remove_at_def using set_take_subset [of p xs] set_drop_subset [of "Suc p" xs] by auto

lemma sum_list_insert_at: "sum_list (map f (insert_at p x xs)) = (f x :: nat) + sum_list (map f xs)"
proof -
  have "sum_list (map f xs) = sum_list (map f (take p xs)) + sum_list (map f (drop p xs))"
    using sum_list_append [of "map f (take p xs)" "map f (drop p xs)"]
    by (simp add: map_append [symmetric] del: map_append)
  then show ?thesis by (simp add: insert_at_def)
qed

lemma insert_remove_at:
  assumes "p < length xs"
  shows "insert_at p (xs ! p) (remove_at p xs) = xs"
proof -
  have "insert_at p (xs ! p) (remove_at p xs) = take p xs @ xs ! p # drop (Suc p) xs"
    using assms by (simp add: insert_at_def remove_at_def)
  then show ?thesis using id_take_nth_drop [OF assms] by argo
qed

lemma sum_list_remove_at:
  "p < length xs \<Longrightarrow> sum_list (map f xs) = (f (xs ! p) :: nat) + sum_list (map f (remove_at p xs))"
  using sum_list_insert_at [of f p "xs ! p" "remove_at p xs"] by (simp only: insert_remove_at)

lemma length_insert_at [simp]: "length (insert_at p x xs) = Suc (length xs)"
  by (simp add: insert_at_def)

lemma length_remove_at [simp]: "p < length xs \<Longrightarrow> length (remove_at p xs) = length xs - 1"
  by (simp add: remove_at_def)

lemma sorted_wrt_remove_at: "sorted_wrt P xs \<Longrightarrow> sorted_wrt P (remove_at p xs)"
proof -
  assume s: "sorted_wrt P xs"
  have "sorted_wrt P (take p xs @ drop p xs)" using s by simp
  then have "sorted_wrt P (take p xs)" "sorted_wrt P (drop p xs)"
    "\<And>x y. x \<in> set (take p xs) \<Longrightarrow> y \<in> set (drop p xs) \<Longrightarrow> P x y"
    unfolding sorted_wrt_append by blast+
  moreover have "drop (Suc p) xs = tl (drop p xs)" by (simp add: drop_Suc tl_drop)
  moreover have "set (tl (drop p xs)) \<subseteq> set (drop p xs)" by (cases "drop p xs") auto
  moreover have "sorted_wrt P (tl (drop p xs))"
    using calculation(2) by (cases "drop p xs") auto
  ultimately show ?thesis by (auto simp: remove_at_def sorted_wrt_append)
qed

text \<open>Where a key is inserted into a strictly sorted list at the number of smaller keys.\<close>

definition rank :: "'a::linorder list \<Rightarrow> 'a \<Rightarrow> nat" where
  "rank ks k = length (filter (\<lambda>x. x < k) ks)"

lemma filter_less_sorted:
  "sorted_wrt (<) (ks :: 'a::linorder list) \<Longrightarrow> filter (\<lambda>x. x < k) ks = takeWhile (\<lambda>x. x < k) ks"
proof (induction ks)
  case (Cons a ks)
  show ?case
  proof (cases "a < k")
    case False
    with Cons.prems have "filter (\<lambda>x. x < k) ks = []"
      by (auto simp: filter_empty_conv)
    with False show ?thesis by simp
  qed (use Cons in simp)
qed simp

lemma rank_le: "rank ks k \<le> length ks"
  by (simp add: rank_def)

lemma rankI:
  assumes s: "sorted_wrt (<) (ks :: 'a::linorder list)" and p: "p \<le> length ks"
    and lo: "\<And>i. i < p \<Longrightarrow> ks ! i < k" and hi: "\<And>i. p \<le> i \<Longrightarrow> i < length ks \<Longrightarrow> k \<le> ks ! i"
  shows "rank ks k = p"
proof -
  have "takeWhile (\<lambda>x. x < k) ks = take p ks"
  proof (rule takeWhile_eq_take_P_nth)
    show "\<And>i. i < p \<Longrightarrow> i < length ks \<Longrightarrow> ks ! i < k" using lo by simp
    show "p < length ks \<Longrightarrow> \<not> ks ! p < k" using hi [of p] by simp
  qed
  then show ?thesis using p s by (simp add: rank_def filter_less_sorted)
qed

lemma rank_nth:
  assumes s: "sorted_wrt (<) (ks :: 'a::linorder list)"
  shows "i < rank ks k \<Longrightarrow> ks ! i < k"
    and "rank ks k \<le> i \<Longrightarrow> i < length ks \<Longrightarrow> k \<le> ks ! i"
proof -
  have r: "rank ks k = length (takeWhile (\<lambda>x. x < k) ks)"
    using s by (simp add: rank_def filter_less_sorted)
  show "i < rank ks k \<Longrightarrow> ks ! i < k"
  proof -
    assume "i < rank ks k"
    then have i: "i < length (takeWhile (\<lambda>x. x < k) ks)" using r by simp
    then have "takeWhile (\<lambda>x. x < k) ks ! i \<in> set (takeWhile (\<lambda>x. x < k) ks)" by (rule nth_mem)
    then have "takeWhile (\<lambda>x. x < k) ks ! i < k" by (auto dest: set_takeWhileD)
    then show ?thesis using takeWhile_nth [OF i] by simp
  qed
  show "rank ks k \<le> i \<Longrightarrow> i < length ks \<Longrightarrow> k \<le> ks ! i"
  proof -
    assume i: "rank ks k \<le> i" "i < length ks"
    then have "\<not> ks ! rank ks k < k"
      using r nth_length_takeWhile [of "\<lambda>x. x < k" ks] by simp
    moreover have "ks ! rank ks k \<le> ks ! i"
      using s i by (cases "rank ks k = i") (auto simp: sorted_wrt_iff_nth_less intro: less_imp_le)
    ultimately show ?thesis by simp
  qed
qed

lemma rank_eq_nth:
  assumes s: "sorted_wrt (<) (ks :: 'a::linorder list)" and i: "i < length ks"
  shows "rank ks (ks ! i) = i"
  by (rule rankI [OF s]) (use s i in \<open>auto simp: sorted_wrt_iff_nth_less le_less\<close>)

lemma rank_mem:
  assumes s: "sorted_wrt (<) (ks :: 'a::linorder list)"
  shows "k \<in> set ks \<longleftrightarrow> rank ks k < length ks \<and> ks ! rank ks k = k"
proof
  assume "k \<in> set ks"
  then obtain i where i: "i < length ks" "ks ! i = k" by (auto simp: in_set_conv_nth)
  then show "rank ks k < length ks \<and> ks ! rank ks k = k" using rank_eq_nth [OF s i(1)] by simp
next
  assume "rank ks k < length ks \<and> ks ! rank ks k = k"
  then show "k \<in> set ks" using nth_mem [of "rank ks k" ks] by simp
qed

lemma sorted_insert_at_rank:
  assumes s: "sorted_wrt (<) (ks :: 'a::linorder list)" and k: "k \<notin> set ks"
  shows "sorted_wrt (<) (insert_at (rank ks k) k ks)"
proof -
  let ?p = "rank ks k"
  have lt: "x < k" if "x \<in> set (take ?p ks)" for x
    using that rank_nth(1) [OF s] by (auto simp: in_set_conv_nth)
  have gt: "k < y" if "y \<in> set (drop ?p ks)" for y
  proof -
    from that obtain j where "j < length ks - ?p" "y = ks ! (?p + j)"
      by (auto simp: in_set_conv_nth)
    then have "k \<le> y" "y \<in> set ks" using rank_nth(2) [OF s, of k "?p + j"] by auto
    then show ?thesis using k by (metis le_less)
  qed
  have "sorted_wrt (<) (take ?p ks)" "sorted_wrt (<) (drop ?p ks)"
    using s by (simp_all add: sorted_wrt_take sorted_wrt_drop)
  then show ?thesis
    using lt gt unfolding insert_at_def by (fastforce simp: sorted_wrt_append)
qed

lemma map_insert_at: "map f (insert_at p x xs) = insert_at p (f x) (map f xs)"
  by (simp add: insert_at_def take_map drop_map)

lemma map_remove_at: "map f (remove_at p xs) = remove_at p (map f xs)"
  by (simp add: remove_at_def take_map drop_map)

text \<open>Association lists with strictly sorted keys: what an insertion and a removal at a position do to
  the map the list denotes.\<close>

lemma map_of_insert_at:
  assumes "fst x \<notin> set (map fst xs)"
  shows "map_of (insert_at p x xs) = (map_of xs)(fst x \<mapsto> snd x)"
proof -
  have "map_of (take p xs @ drop p xs) = map_of xs" by simp
  then have "map_of xs = map_of (drop p xs) ++ map_of (take p xs)" by (metis map_of_append)
  moreover have "fst x \<notin> set (map fst (take p xs))"
    using assms by (auto dest: in_set_takeD)
  then have "map_of (take p xs) (fst x) = None" by (auto simp: map_of_eq_None_iff)
  ultimately show ?thesis
    by (cases x) (auto simp: insert_at_def fun_eq_iff map_add_def split: option.splits)
qed

lemma map_of_remove_at:
  assumes d: "distinct (map fst xs)" and p: "p < length xs"
  shows "map_of (remove_at p xs) = (map_of xs)(fst (xs ! p) := None)"
proof -
  define r where "r = remove_at p xs"
  define x where "x = xs ! p"
  have xs: "xs = insert_at p x r" using p unfolding r_def x_def by (rule insert_remove_at [symmetric])
  have "distinct (map fst (insert_at p x r))" using d unfolding xs .
  then have "fst x \<notin> set (take p (map fst r) @ drop p (map fst r))"
    unfolding map_insert_at insert_at_def by (auto simp: take_map drop_map simp del: append_take_drop_id)
  then have x: "fst x \<notin> set (map fst r)" by simp
  then have "map_of xs = (map_of r)(fst x \<mapsto> snd x)"
    unfolding xs by (rule map_of_insert_at)
  moreover have "map_of r (fst x) = None" using x by (simp add: map_of_eq_None_iff)
  ultimately have "(map_of xs)(fst x := None) = map_of r" by (simp add: fun_upd_idem)
  then show ?thesis by (simp only: r_def x_def)
qed

lemma sorted_wrt_less_distinct: "sorted_wrt (<) (xs :: 'a::linorder list) \<Longrightarrow> distinct xs"
  by (simp add: strict_sorted_iff)

end
