(* ===== verification/Atomics.thy ===== *)
theory Atomics
  imports Prelude
begin

text \<open>
  Atomic memory shared by several threads, and the programs that run on it. A program performs one atomic action at a
  time on the locations it shares with the other threads; everything between two actions is local to the thread. The
  actions are the members of \<open>std::atomic<u64>\<close> and \<open>std::shared_mutex\<close> that the code uses, with the sequentially
  consistent semantics of the language.
\<close>

section \<open>Memory and programs\<close>

record 'l memory =
  cell :: "'l \<Rightarrow> u64"
  xlocked :: "'l \<Rightarrow> bool"
  sharers :: "'l \<Rightarrow> nat"

text \<open>\<open>CAS\<close> is \<open>compare_exchange_strong\<close>: its continuation gets whether the exchange happened and the value that was
  found. \<open>Await\<close> is a loop that loads a location until the value satisfies a condition, and \<open>Update\<close> a loop that loads a
  location and tries to exchange its value for another one until the exchange succeeds: the turns of such a loop that do
  not succeed have no effect. \<open>Jmp\<close> is \<open>jumpmu::jump()\<close>.\<close>

datatype ('l, 'a) prog =
    Done 'a
  | Jmp
  | Load 'l "u64 \<Rightarrow> ('l, 'a) prog"
  | Await 'l "u64 \<Rightarrow> bool" "u64 \<Rightarrow> ('l, 'a) prog"
  | Store 'l u64 "('l, 'a) prog"
  | CAS 'l u64 u64 "bool \<Rightarrow> u64 \<Rightarrow> ('l, 'a) prog"
  | FetchAdd 'l u64 "u64 \<Rightarrow> ('l, 'a) prog"
  | Update 'l "u64 \<Rightarrow> u64" "u64 \<Rightarrow> ('l, 'a) prog"
  | Lock 'l "('l, 'a) prog"
  | Unlock 'l "('l, 'a) prog"
  | LockShared 'l "('l, 'a) prog"
  | TryLockShared 'l "bool \<Rightarrow> ('l, 'a) prog"
  | UnlockShared 'l "('l, 'a) prog"

text \<open>One action. A thread that is blocked, or has ended, does not step.\<close>

fun astep :: "'l memory \<Rightarrow> ('l, 'a) prog \<Rightarrow> ('l memory \<times> ('l, 'a) prog) option" where
  "astep m (Done x) = None"
| "astep m Jmp = None"
| "astep m (Load l k) = Some (m, k (cell m l))"
| "astep m (Await l P k) = (if P (cell m l) then Some (m, k (cell m l)) else None)"
| "astep m (Store l v p) = Some (m\<lparr>cell := (cell m)(l := v)\<rparr>, p)"
| "astep m (CAS l e v k) =
     (if cell m l = e then Some (m\<lparr>cell := (cell m)(l := v)\<rparr>, k True e) else Some (m, k False (cell m l)))"
| "astep m (FetchAdd l d k) = Some (m\<lparr>cell := (cell m)(l := cell m l + d)\<rparr>, k (cell m l))"
| "astep m (Update l f k) = Some (m\<lparr>cell := (cell m)(l := f (cell m l))\<rparr>, k (cell m l))"
| "astep m (Lock l p) = (if xlocked m l \<or> sharers m l \<noteq> 0 then None else Some (m\<lparr>xlocked := (xlocked m)(l := True)\<rparr>, p))"
| "astep m (Unlock l p) = Some (m\<lparr>xlocked := (xlocked m)(l := False)\<rparr>, p)"
| "astep m (LockShared l p) = (if xlocked m l then None else Some (m\<lparr>sharers := (sharers m)(l := sharers m l + 1)\<rparr>, p))"
| "astep m (TryLockShared l k) =
     (if xlocked m l then Some (m, k False) else Some (m\<lparr>sharers := (sharers m)(l := sharers m l + 1)\<rparr>, k True))"
| "astep m (UnlockShared l p) = Some (m\<lparr>sharers := (sharers m)(l := sharers m l - 1)\<rparr>, p)"

text \<open>A program run to its end without interference; \<open>None\<close> when it blocks.\<close>

primrec run :: "('l, 'a) prog \<Rightarrow> 'l memory \<Rightarrow> ('a jmu \<times> 'l memory) option" where
  "run (Done x) m = Some (Ret x, m)"
| "run Jmp m = Some (Jump, m)"
| "run (Load l k) m = run (k (cell m l)) m"
| "run (Await l P k) m = (if P (cell m l) then run (k (cell m l)) m else None)"
| "run (Store l v p) m = run p (m\<lparr>cell := (cell m)(l := v)\<rparr>)"
| "run (CAS l e v k) m =
     (if cell m l = e then run (k True e) (m\<lparr>cell := (cell m)(l := v)\<rparr>) else run (k False (cell m l)) m)"
| "run (FetchAdd l d k) m = run (k (cell m l)) (m\<lparr>cell := (cell m)(l := cell m l + d)\<rparr>)"
| "run (Update l f k) m = run (k (cell m l)) (m\<lparr>cell := (cell m)(l := f (cell m l))\<rparr>)"
| "run (Lock l p) m = (if xlocked m l \<or> sharers m l \<noteq> 0 then None else run p (m\<lparr>xlocked := (xlocked m)(l := True)\<rparr>))"
| "run (Unlock l p) m = run p (m\<lparr>xlocked := (xlocked m)(l := False)\<rparr>)"
| "run (LockShared l p) m = (if xlocked m l then None else run p (m\<lparr>sharers := (sharers m)(l := sharers m l + 1)\<rparr>))"
| "run (TryLockShared l k) m =
     (if xlocked m l then run (k False) m else run (k True) (m\<lparr>sharers := (sharers m)(l := sharers m l + 1)\<rparr>))"
| "run (UnlockShared l p) m = run p (m\<lparr>sharers := (sharers m)(l := sharers m l - 1)\<rparr>)"

text \<open>An uninterrupted run is a sequence of actions.\<close>

lemma run_astep: "astep m p = Some (m', p') \<Longrightarrow> run p m = run p' m'"
  by (cases p) (auto split: if_splits)

text \<open>Versions of 64 bits that have not wrapped around are ordered like the counters they stand for.\<close>

lemma of_nat_clock_le: "c \<le> d \<Longrightarrow> d < 2 ^ 64 \<Longrightarrow> (of_nat c :: u64) \<le> of_nat d"
  by (simp add: word_le_nat_alt unat_of_nat)

end
