(* ===== verification/Latch.thy ===== *)
theory Latch
  imports Atomics
begin

unbundle bit_operations_syntax

text \<open>
  Hybrid latches (sync-primitives/Latch.hpp) and the guards of sync-primitives/PlainGuard.hpp. A latch is a version
  counter, odd while a writer is active, with a shared mutex; both live at one location of the shared memory. Each
  method of \<open>Guard\<close> is the program of its atomic actions. Any number of threads runs them interleaved: the theory shows
  that an exclusive guard excludes all others and that an optimistic guard whose version is still the latch's version
  has only read data that no writer touched.
\<close>

section \<open>Guards\<close>

datatype GUARD_STATE = UNINITIALIZED | OPTIMISTIC | SHARED | EXCLUSIVE | MOVED

record 'l Guard =
  g_latch :: 'l
  g_state :: GUARD_STATE
  g_version :: u64
  faced_contention :: bool

definition LATCH_EXCLUSIVE_BIT :: u64 where
  "LATCH_EXCLUSIVE_BIT = 1"

definition isExclusivelyLatched :: "u64 \<Rightarrow> bool" where
  "isExclusivelyLatched version \<longleftrightarrow> version AND LATCH_EXCLUSIVE_BIT = LATCH_EXCLUSIVE_BIT"

definition new_guard :: "'l \<Rightarrow> 'l Guard" where
  "new_guard latch = \<lparr>g_latch = latch, g_state = UNINITIALIZED, g_version = 0, faced_contention = False\<rparr>"

definition recheck :: "'l Guard \<Rightarrow> ('l, 'l Guard) prog" where
  "recheck g =
     (if g_state g = OPTIMISTIC
      then Load (g_latch g) (\<lambda>v. if g_version g \<noteq> v then Jmp else Done g)
      else Done g)"

definition unlock :: "'l Guard \<Rightarrow> ('l, 'l Guard) prog" where
  "unlock g =
     (if g_state g = EXCLUSIVE then
        (let v = g_version g + LATCH_EXCLUSIVE_BIT in
         Store (g_latch g) v (Unlock (g_latch g) (Done (g\<lparr>g_version := v, g_state := OPTIMISTIC\<rparr>))))
      else if g_state g = SHARED then UnlockShared (g_latch g) (Done (g\<lparr>g_state := OPTIMISTIC\<rparr>))
      else Done g)"

definition toOptimisticSpin :: "'l Guard \<Rightarrow> ('l, 'l Guard) prog" where
  "toOptimisticSpin g =
     Load (g_latch g) (\<lambda>v.
       if isExclusivelyLatched v
       then Await (g_latch g) (\<lambda>v. \<not> isExclusivelyLatched v) (\<lambda>v.
              Done (g\<lparr>g_version := v, g_state := OPTIMISTIC, faced_contention := True\<rparr>))
       else Done (g\<lparr>g_version := v, g_state := OPTIMISTIC\<rparr>))"

definition toOptimisticOrJump :: "'l Guard \<Rightarrow> ('l, 'l Guard) prog" where
  "toOptimisticOrJump g =
     Load (g_latch g) (\<lambda>v.
       if isExclusivelyLatched v then Jmp else Done (g\<lparr>g_version := v, g_state := OPTIMISTIC\<rparr>))"

definition toOptimisticOrShared :: "'l Guard \<Rightarrow> ('l, 'l Guard) prog" where
  "toOptimisticOrShared g =
     Load (g_latch g) (\<lambda>v.
       if isExclusivelyLatched v
       then LockShared (g_latch g) (Load (g_latch g) (\<lambda>v.
              Done (g\<lparr>g_version := v, g_state := SHARED, faced_contention := True\<rparr>)))
       else Done (g\<lparr>g_version := v, g_state := OPTIMISTIC\<rparr>))"

definition toOptimisticOrExclusive :: "'l Guard \<Rightarrow> ('l, 'l Guard) prog" where
  "toOptimisticOrExclusive g =
     Load (g_latch g) (\<lambda>v.
       if isExclusivelyLatched v
       then Lock (g_latch g) (Load (g_latch g) (\<lambda>v.
              let v = v + LATCH_EXCLUSIVE_BIT in
              Store (g_latch g) v (Done (g\<lparr>g_version := v, g_state := EXCLUSIVE, faced_contention := True\<rparr>))))
       else Done (g\<lparr>g_version := v, g_state := OPTIMISTIC\<rparr>))"

definition toExclusive :: "'l Guard \<Rightarrow> ('l, 'l Guard) prog" where
  "toExclusive g =
     (if g_state g = EXCLUSIVE then Done g
      else if g_state g = OPTIMISTIC then
        (let new_version = g_version g + LATCH_EXCLUSIVE_BIT in
         Lock (g_latch g) (CAS (g_latch g) (g_version g) new_version (\<lambda>ok _.
           if \<not> ok then Unlock (g_latch g) Jmp
           else Done (g\<lparr>g_version := new_version, g_state := EXCLUSIVE\<rparr>))))
      else
        Lock (g_latch g) (Load (g_latch g) (\<lambda>v.
          let v = v + LATCH_EXCLUSIVE_BIT in
          Store (g_latch g) v (Done (g\<lparr>g_version := v, g_state := EXCLUSIVE\<rparr>)))))"

definition toShared :: "'l Guard \<Rightarrow> ('l, 'l Guard) prog" where
  "toShared g =
     (if g_state g = SHARED then Done g
      else if g_state g = OPTIMISTIC then
        TryLockShared (g_latch g) (\<lambda>ok.
          if \<not> ok then Jmp
          else Load (g_latch g) (\<lambda>v.
            if v \<noteq> g_version g then UnlockShared (g_latch g) Jmp else Done (g\<lparr>g_state := SHARED\<rparr>)))
      else
        LockShared (g_latch g) (Load (g_latch g) (\<lambda>v. Done (g\<lparr>g_version := v, g_state := SHARED\<rparr>))))"

text \<open>The scoped guards: what their constructors and destructors do to the guard they refer to.
  \<open>ExclusiveUpgradeIfNeeded\<close> remembers whether the guard was exclusive before.\<close>

definition ExclusiveUpgradeIfNeeded :: "'l Guard \<Rightarrow> bool \<times> ('l, 'l Guard) prog" where
  "ExclusiveUpgradeIfNeeded g = (g_state g = EXCLUSIVE, toExclusive g)"

definition destroy_ExclusiveUpgradeIfNeeded :: "bool \<Rightarrow> 'l Guard \<Rightarrow> ('l, 'l Guard) prog" where
  "destroy_ExclusiveUpgradeIfNeeded was_exclusive g = (if \<not> was_exclusive then unlock g else Done g)"

section \<open>Threads on one latch\<close>

text \<open>What a thread holds of the mutex. The data that the latch protects is an arbitrary value.\<close>

datatype hold = NoHold | HoldS | HoldX

record 'd lthread =
  grd :: "unit Guard"
  busy :: "(unit, unit Guard) prog option"
  hold :: hold
  reads :: "(nat \<times> 'd) list"

text \<open>\<open>clock\<close> counts the changes of the version, \<open>hist\<close> is the data at each even clock, and a thread's \<open>reads\<close> are the
  values it read under its current guard, with the clock of each: bookkeeping that no program sees.\<close>

record 'd lsys =
  mem :: "unit memory"
  data :: 'd
  threads :: "nat \<Rightarrow> 'd lthread"
  clock :: nat
  hist :: "nat \<Rightarrow> 'd"

fun hold_after :: "('l, 'a) prog \<Rightarrow> 'l memory \<Rightarrow> hold \<Rightarrow> hold" where
  "hold_after (Lock l p) m h = HoldX"
| "hold_after (Unlock l p) m h = NoHold"
| "hold_after (LockShared l p) m h = HoldS"
| "hold_after (TryLockShared l k) m h = (if xlocked m l then h else HoldS)"
| "hold_after (UnlockShared l p) m h = NoHold"
| "hold_after _ m h = h"

text \<open>The calls that the assertions of the methods allow in a state of the guard.\<close>

definition calls :: "unit Guard \<Rightarrow> (unit, unit Guard) prog list" where
  "calls g =
     [recheck g, unlock g] @
     (if g_state g = UNINITIALIZED
      then [toOptimisticSpin g, toOptimisticOrJump g, toOptimisticOrShared g, toOptimisticOrExclusive g, toExclusive g] else []) @
     (if g_state g = OPTIMISTIC then [toExclusive g, toShared g] else []) @
     (if g_state g = SHARED then [toShared g] else []) @
     (if g_state g = EXCLUSIVE then [toExclusive g] else [])"

abbreviation set_thread :: "'d lsys \<Rightarrow> nat \<Rightarrow> 'd lthread \<Rightarrow> 'd lsys" where
  "set_thread s t th \<equiv> s\<lparr>threads := (threads s)(t := th)\<rparr>"

inductive lstep :: "'d lsys \<Rightarrow> 'd lsys \<Rightarrow> bool" where
  call: "busy (threads s t) = None \<Longrightarrow> p \<in> set (calls (grd (threads s t))) \<Longrightarrow>
    lstep s (set_thread s t ((threads s t)\<lparr>busy := Some p\<rparr>))"
| act: "busy (threads s t) = Some p \<Longrightarrow> astep (mem s) p = Some (m', p') \<Longrightarrow>
    c' = (if cell m' () = cell (mem s) () then clock s else clock s + 1) \<Longrightarrow>
    lstep s (s\<lparr>mem := m', clock := c', hist := (hist s)(c' := data s),
      threads := (threads s)(t := (threads s t)\<lparr>busy := Some p', hold := hold_after p (mem s) (hold (threads s t))\<rparr>)\<rparr>)"
| return: "busy (threads s t) = Some (Done g) \<Longrightarrow>
    lstep s (set_thread s t ((threads s t)\<lparr>busy := None, grd := g,
      reads := (if g_version g = g_version (grd (threads s t)) then reads (threads s t) else [])\<rparr>))"
| jump: "busy (threads s t) = Some Jmp \<Longrightarrow>
    lstep s (set_thread s t ((threads s t)\<lparr>busy := None, grd := new_guard (), reads := []\<rparr>))"
| drop: "busy (threads s t) = None \<Longrightarrow> g_state (grd (threads s t)) \<notin> {SHARED, EXCLUSIVE} \<Longrightarrow>
    lstep s (set_thread s t ((threads s t)\<lparr>grd := new_guard (), reads := []\<rparr>))"
| read: "busy (threads s t) = None \<Longrightarrow> g_state (grd (threads s t)) \<in> {OPTIMISTIC, SHARED, EXCLUSIVE} \<Longrightarrow>
    lstep s (set_thread s t ((threads s t)\<lparr>reads := (clock s, data s) # reads (threads s t)\<rparr>))"
| modify: "busy (threads s t) = None \<Longrightarrow> g_state (grd (threads s t)) = EXCLUSIVE \<Longrightarrow> lstep s (s\<lparr>data := d\<rparr>)"

definition linit :: "'d \<Rightarrow> 'd lsys" where
  "linit d = \<lparr>mem = \<lparr>cell = \<lambda>_. 0, xlocked = \<lambda>_. False, sharers = \<lambda>_. 0\<rparr>, data = d,
     threads = \<lambda>_. \<lparr>grd = new_guard (), busy = None, hold = NoHold, reads = []\<rparr>, clock = 0, hist = \<lambda>_. d\<rparr>"

abbreviation lreach :: "'d \<Rightarrow> 'd lsys \<Rightarrow> bool" where
  "lreach d s \<equiv> lstep\<^sup>*\<^sup>* (linit d) s"

section \<open>What a program needs from the others\<close>

text \<open>A thread that holds the mutex knows the version; a thread that does not only knows a lower bound. \<open>wp p h v Q\<close> says that
  \<open>p\<close>, started with the hold \<open>h\<close> at the version \<open>v\<close>, only touches the latch in the way that the other threads rely on, and
  ends in \<open>Q\<close>: the version is only changed by the exclusive holder, by one, and is even whenever the mutex is free.\<close>

definition may :: "hold \<Rightarrow> u64 \<Rightarrow> u64 \<Rightarrow> bool" where
  "may h v v' \<longleftrightarrow> (if h = NoHold then v \<le> v' else v' = v)"

primrec wp :: "(unit, 'a) prog \<Rightarrow> hold \<Rightarrow> u64 \<Rightarrow> ('a jmu \<Rightarrow> hold \<Rightarrow> u64 \<Rightarrow> bool) \<Rightarrow> bool" where
  "wp (Done x) h v Q \<longleftrightarrow> Q (Ret x) h v"
| "wp Jmp h v Q \<longleftrightarrow> Q Jump h v"
| "wp (Load l k) h v Q \<longleftrightarrow> (\<forall>v'. may h v v' \<longrightarrow> wp (k v') h v' Q)"
| "wp (Await l P k) h v Q \<longleftrightarrow> (\<forall>v'. may h v v' \<longrightarrow> P v' \<longrightarrow> wp (k v') h v' Q)"
| "wp (Store l w p) h v Q \<longleftrightarrow> h = HoldX \<and> w = v + 1 \<and> wp p h w Q"
| "wp (CAS l e w k) h v Q \<longleftrightarrow> h = HoldX \<and> (if v = e then w = v + 1 \<and> wp (k True e) h w Q else wp (k False v) h v Q)"
| "wp (FetchAdd l d k) h v Q \<longleftrightarrow> h = HoldX \<and> d = 1 \<and> wp (k v) h (v + 1) Q"
| "wp (Update l f k) h v Q \<longleftrightarrow> h = HoldX \<and> f v = v + 1 \<and> wp (k v) h (v + 1) Q"
| "wp (Lock l p) h v Q \<longleftrightarrow> h = NoHold \<and> (\<forall>v'. v \<le> v' \<longrightarrow> even v' \<longrightarrow> wp p HoldX v' Q)"
| "wp (Unlock l p) h v Q \<longleftrightarrow> h = HoldX \<and> even v \<and> wp p NoHold v Q"
| "wp (LockShared l p) h v Q \<longleftrightarrow> h = NoHold \<and> (\<forall>v'. v \<le> v' \<longrightarrow> even v' \<longrightarrow> wp p HoldS v' Q)"
| "wp (TryLockShared l k) h v Q \<longleftrightarrow>
     h = NoHold \<and> (\<forall>v'. v \<le> v' \<longrightarrow> wp (k False) NoHold v' Q \<and> (even v' \<longrightarrow> wp (k True) HoldS v' Q))"
| "wp (UnlockShared l p) h v Q \<longleftrightarrow> h = HoldS \<and> wp p NoHold v Q"

fun guard_ok :: "unit Guard \<Rightarrow> hold \<Rightarrow> u64 \<Rightarrow> bool" where
  "guard_ok g h v \<longleftrightarrow>
     (case g_state g of
        EXCLUSIVE \<Rightarrow> h = HoldX \<and> g_version g = v \<and> odd v
      | SHARED \<Rightarrow> h = HoldS \<and> g_version g = v \<and> even v
      | OPTIMISTIC \<Rightarrow> h = NoHold \<and> g_version g \<le> v \<and> even (g_version g)
      | _ \<Rightarrow> h = NoHold)"

fun post :: "unit Guard jmu \<Rightarrow> hold \<Rightarrow> u64 \<Rightarrow> bool" where
  "post (Ret g) h v \<longleftrightarrow> guard_ok g h v"
| "post Jump h v \<longleftrightarrow> h = NoHold"

lemma exclusive_odd: "isExclusivelyLatched v \<longleftrightarrow> odd v"
  by (simp add: isExclusivelyLatched_def LATCH_EXCLUSIVE_BIT_def and_one_eq odd_iff_mod_2_eq_one)

text \<open>Every call that the assertions allow keeps to the protocol.\<close>

lemma calls_wp:
  assumes "guard_ok g h v" "p \<in> set (calls g)"
  shows "wp p h v post"
proof (cases "g_state g")
  case UNINITIALIZED
  then show ?thesis using assms
    by (auto simp: calls_def recheck_def unlock_def toOptimisticSpin_def toOptimisticOrJump_def toOptimisticOrShared_def
      toOptimisticOrExclusive_def toExclusive_def exclusive_odd LATCH_EXCLUSIVE_BIT_def may_def Let_def)
next
  case OPTIMISTIC
  then show ?thesis using assms
    by (auto simp: calls_def recheck_def unlock_def toExclusive_def toShared_def LATCH_EXCLUSIVE_BIT_def may_def Let_def)
next
  case SHARED
  then show ?thesis using assms by (auto simp: calls_def recheck_def unlock_def toShared_def)
next
  case EXCLUSIVE
  then show ?thesis using assms
    by (auto simp: calls_def recheck_def unlock_def toExclusive_def LATCH_EXCLUSIVE_BIT_def Let_def)
next
  case MOVED
  then show ?thesis using assms by (auto simp: calls_def recheck_def unlock_def)
qed

lemma wp_later:
  assumes "wp p NoHold v post" "v \<le> w"
  shows "wp p NoHold w post"
proof (cases p)
  case (Done g)
  then show ?thesis using assms by (cases "g_state g") auto
qed (use assms in \<open>auto simp: may_def\<close>)

text \<open>One action of a program that keeps to the protocol.\<close>

lemma astep_wp:
  assumes "wp p h v post" "cell m () = v" "astep m p = Some (m', p')" "\<not> xlocked m () \<Longrightarrow> even v"
  shows "wp p' (hold_after p m h) (cell m' ()) post" "cell m' () = v \<or> h = HoldX \<and> cell m' () = v + 1"
  using assms by (cases p; auto simp: may_def split: if_splits)+

section \<open>The invariant\<close>

definition holders :: "'d lsys \<Rightarrow> hold \<Rightarrow> nat set" where
  "holders s h = {t. hold (threads s t) = h}"

text \<open>The mutex counts its holders, and an exclusive holder is alone.\<close>

definition mutex_ok :: "'d lsys \<Rightarrow> bool" where
  "mutex_ok s \<longleftrightarrow>
     (xlocked (mem s) () \<longleftrightarrow> holders s HoldX \<noteq> {}) \<and>
     finite (holders s HoldS) \<and> sharers (mem s) () = card (holders s HoldS) \<and>
     (\<forall>t t'. hold (threads s t) = HoldX \<longrightarrow> hold (threads s t') \<noteq> NoHold \<longrightarrow> t' = t)"

definition thread_ok :: "'d lthread \<Rightarrow> u64 \<Rightarrow> bool" where
  "thread_ok th v \<longleftrightarrow> (case busy th of None \<Rightarrow> guard_ok (grd th) (hold th) v | Some p \<Rightarrow> wp p (hold th) v post)"

definition reads_ok :: "'d lsys \<Rightarrow> 'd lthread \<Rightarrow> bool" where
  "reads_ok s th \<longleftrightarrow> (\<forall>(r, x) \<in> set (reads th). unat (g_version (grd th)) \<le> r \<and> r \<le> clock s \<and> (even r \<longrightarrow> x = hist s r))"

definition latch_inv :: "'d lsys \<Rightarrow> bool" where
  "latch_inv s \<longleftrightarrow>
     cell (mem s) () = of_nat (clock s) \<and> mutex_ok s \<and>
     (\<not> xlocked (mem s) () \<longrightarrow> even (clock s)) \<and> (even (clock s) \<longrightarrow> data s = hist s (clock s)) \<and>
     (\<forall>t. thread_ok (threads s t) (of_nat (clock s)) \<and> reads_ok s (threads s t))"

lemma latch_inv_init: "latch_inv (linit d)"
  by (simp add: latch_inv_def mutex_ok_def holders_def linit_def thread_ok_def reads_ok_def new_guard_def)

lemma latch_invD:
  assumes "latch_inv s"
  shows "cell (mem s) () = of_nat (clock s)" "mutex_ok s" "\<not> xlocked (mem s) () \<Longrightarrow> even (clock s)"
    "even (clock s) \<Longrightarrow> data s = hist s (clock s)" "thread_ok (threads s t) (cell (mem s) ())" "reads_ok s (threads s t)"
  using assms unfolding latch_inv_def by simp_all

lemma clock_mono: "lstep s s' \<Longrightarrow> clock s \<le> clock s'"
  by (induction rule: lstep.induct) auto

text \<open>The mutex after an action: a thread's hold changes together with the mutex.\<close>

lemma holders_upd:
  "threads s' = (threads s)(t := th) \<Longrightarrow>
     holders s' h = (if hold th = h then insert t (holders s h) else holders s h - {t})"
  by (auto simp: holders_def split: if_splits)

lemma mutex_act:
  assumes m: "mutex_ok s" and w: "wp p (hold (threads s t)) v post" and a: "astep (mem s) p = Some (m', p')"
    and s': "mem s' = m'" "threads s' = (threads s)(t := th)" "hold th = hold_after p (mem s) (hold (threads s t))"
  shows "mutex_ok s'"
proof -
  note H = holders_upd [OF s'(2)]
  let ?S = "holders s HoldS" and ?X = "holders s HoldX"
  have fin: "finite ?S" "sharers (mem s) () = card ?S" "xlocked (mem s) () \<longleftrightarrow> ?X \<noteq> {}" using m by (auto simp: mutex_ok_def)
  have one: "\<And>t t'. hold (threads s t) = HoldX \<Longrightarrow> hold (threads s t') \<noteq> NoHold \<Longrightarrow> t' = t" using m by (auto simp: mutex_ok_def)
  have t: "t \<in> ?S \<longleftrightarrow> hold (threads s t) = HoldS" "t \<in> ?X \<longleftrightarrow> hold (threads s t) = HoldX" by (auto simp: holders_def)
  have noS: "?S = {}" if "sharers (mem s) () = 0" using that fin by simp
  show ?thesis
  proof (cases "hold th = hold (threads s t)")
    case True
    then have "holders s' = holders s" using H by (auto simp: fun_eq_iff holders_def)
    moreover have "\<And>u. hold (threads s' u) = hold (threads s u)" using True s'(2) by simp
    moreover have "xlocked m' () = xlocked (mem s) ()" "sharers m' () = sharers (mem s) ()"
      using a w True s'(3) by (cases p; auto split: if_splits)+
    ultimately show ?thesis using m s'(1) by (simp add: mutex_ok_def)
  next
    case False
    then have c: "(\<exists>l q. p = Lock l q \<or> p = LockShared l q \<or> p = Unlock l q \<or> p = UnlockShared l q) \<or> (\<exists>l k. p = TryLockShared l k)"
      using s'(3) by (cases p) auto
    have none: "hold (threads s u) = NoHold" if "u \<notin> ?S" "u \<notin> ?X" for u
      using that by (cases "hold (threads s u)") (auto simp: holders_def)
    have X1: "?X = {t}" if "t \<in> ?X" using that one [of t] by (auto simp: holders_def)
    have X0: "?X = {}" if "t \<in> ?S" using that one [of _ t] by (force simp: holders_def)
    have S0: "?S = {}" if "t \<in> ?X" using that one [of t] by (auto simp: holders_def) (metis hold.simps)
    note E = mutex_ok_def s'(1) H
    from c show ?thesis
    proof (elim disjE exE)
      fix l q assume p: "p = Lock l q"
      then have "\<not> xlocked (mem s) ()" "sharers (mem s) () = 0" "xlocked m' ()" "sharers m' () = sharers (mem s) ()"
        using a by (auto split: if_splits)
      then have "?X = {}" "?S = {}" "xlocked m' ()" "sharers m' () = 0" using fin(3) noS by simp_all
      moreover have th: "hold th = HoldX" using p s'(3) by simp
      ultimately show ?thesis using none unfolding E by (auto simp: s'(2))
    next
      fix l q assume p: "p = LockShared l q"
      then have "\<not> xlocked (mem s) ()" "sharers m' () = sharers (mem s) () + 1" "\<not> xlocked m' ()" "hold (threads s t) = NoHold"
        using a w by (auto split: if_splits)
      then have "?X = {}" "t \<notin> ?S" "\<not> xlocked m' ()" "sharers m' () = Suc (card ?S)" using fin(2,3) t by simp_all
      moreover have th: "hold th = HoldS" using p s'(3) by simp
      moreover have "hold (threads s u) \<noteq> HoldX" for u using \<open>?X = {}\<close> by (auto simp: holders_def)
      ultimately show ?thesis using fin unfolding E by (auto simp: s'(2))
    next
      fix l q assume p: "p = Unlock l q"
      then have "hold (threads s t) = HoldX" "\<not> xlocked m' ()" "sharers m' () = sharers (mem s) ()" using a w by auto
      then have "?X = {t}" "?S = {}" "\<not> xlocked m' ()" "sharers m' () = 0" using fin(2) t X1 S0 by simp_all
      moreover have th: "hold th = NoHold" using p s'(3) by simp
      moreover have "u \<noteq> t \<Longrightarrow> hold (threads s u) = NoHold" for u using none calculation by auto
      ultimately show ?thesis unfolding E by (auto simp: s'(2))
    next
      fix l q assume p: "p = UnlockShared l q"
      then have "hold (threads s t) = HoldS" "xlocked m' () = xlocked (mem s) ()" "sharers m' () = sharers (mem s) () - 1"
        using a w by auto
      then have "?X = {}" "t \<in> ?S" "\<not> xlocked m' ()" "sharers m' () = card ?S - 1" using fin(2,3) t X0 by simp_all
      moreover have th: "hold th = NoHold" using p s'(3) by simp
      moreover have "hold (threads s u) \<noteq> HoldX" for u using \<open>?X = {}\<close> by (auto simp: holders_def)
      ultimately show ?thesis using fin unfolding E by (auto simp: s'(2))
    next
      fix l k assume p: "p = TryLockShared l k"
      then have x: "\<not> xlocked (mem s) ()" using False s'(3) by (auto split: if_splits)
      have "sharers m' () = sharers (mem s) () + 1" "\<not> xlocked m' ()" "hold (threads s t) = NoHold"
        using a w p x by auto
      then have "?X = {}" "t \<notin> ?S" "\<not> xlocked m' ()" "sharers m' () = Suc (card ?S)" using x fin(2,3) t by simp_all
      moreover have th: "hold th = HoldS" using p s'(3) x by simp
      moreover have "hold (threads s u) \<noteq> HoldX" for u using \<open>?X = {}\<close> by (auto simp: holders_def)
      ultimately show ?thesis using fin unfolding E by (auto simp: s'(2))
    qed
  qed
qed

text \<open>Every step keeps the invariant, as long as the version has not wrapped around.\<close>

lemma latch_inv_act:
  assumes I: "latch_inv s" and b: "busy (threads s t) = Some p" and a: "astep (mem s) p = Some (m', p')"
    and c: "c' = (if cell m' () = cell (mem s) () then clock s else clock s + 1)" "c' < 2 ^ 64"
  shows "latch_inv (s\<lparr>mem := m', clock := c', hist := (hist s)(c' := data s),
    threads := (threads s)(t := (threads s t)\<lparr>busy := Some p', hold := hold_after p (mem s) (hold (threads s t))\<rparr>)\<rparr>)"
    (is "latch_inv ?s")
proof -
  let ?v = "cell (mem s) ()" and ?v' = "cell m' ()"
  have M: "mutex_ok s" and v: "?v = of_nat (clock s)" and ev: "\<not> xlocked (mem s) () \<Longrightarrow> even ?v"
    using I by (auto simp: latch_inv_def)
  have w: "wp p (hold (threads s t)) ?v post" using latch_invD(5) [OF I, of t] b by (simp add: thread_ok_def)
  note A = astep_wp [OF w refl a ev]
  have M': "mutex_ok ?s" by (rule mutex_act [OF M w a, where th = "(threads s t)\<lparr>busy := Some p', hold := hold_after p (mem s) (hold (threads s t))\<rparr>"]) (simp_all del: hold_after.simps)
  have c1: "?v' = of_nat c'" using A(2) c v by auto
  have ne: "(of_nat c :: u64) \<noteq> of_nat c + 1" for c by simp
  have cX: "hold (threads s t) = HoldX" if "c' \<noteq> clock s" using that A(2) c by (auto split: if_splits)
  have le: "?v \<le> ?v'" using c1 v c of_nat_clock_le [of "clock s" c'] by (auto split: if_splits)
  have th: "thread_ok (threads ?s u) ?v' \<and> reads_ok ?s (threads ?s u)" for u
  proof
    have I': "thread_ok (threads s u) ?v" "reads_ok s (threads s u)" by (rule latch_invD [OF I])+
    show "thread_ok (threads ?s u) ?v'"
    proof (cases "u = t")
      case False
      then have h: "c' \<noteq> clock s \<Longrightarrow> hold (threads s u) = NoHold" using cX M by (auto simp: mutex_ok_def)
      have "thread_ok (threads s u) ?v'"
      proof (cases "c' = clock s")
        case True
        then show ?thesis using I'(1) c1 v by simp
      next
        case False
        then show ?thesis using I'(1) h le wp_later [OF _ le]
          by (cases "g_state (grd (threads s u))") (auto simp: thread_ok_def split: option.splits)
      qed
      then show ?thesis using \<open>u \<noteq> t\<close> by simp
    qed (use A(1) in \<open>simp add: thread_ok_def\<close>)
    have d: "even (clock s) \<Longrightarrow> data s = hist s (clock s)" using I by (simp add: latch_inv_def)
    have "clock s \<le> c'" "c' = clock s \<or> c' = clock s + 1" using c by auto
    then have "reads_ok ?s (threads s u)" using I'(2) d by (fastforce simp: reads_ok_def)
    then show "reads_ok ?s (threads ?s u)" by (cases "u = t") (simp_all add: reads_ok_def)
  qed
  have "\<not> xlocked m' () \<longrightarrow> even c'"
  proof (cases "c' = clock s")
    case True
    then have "?v' = ?v" using c1 v by simp
    then show ?thesis using a w ev v True by (cases p) (auto split: if_splits)
  next
    case False
    then have cc: "?v' \<noteq> ?v" using c by (auto split: if_splits)
    have "xlocked (mem s) ()" using cX [OF False] M by (auto simp: mutex_ok_def holders_def)
    then have "xlocked m' ()" using a cc by (cases p) (auto split: if_splits)
    then show ?thesis by simp
  qed
  then show ?thesis using M' c1 th by (simp add: latch_inv_def)
qed

lemma latch_inv_local:
  assumes "latch_inv s" "hold th = hold (threads s t)" "thread_ok th (cell (mem s) ())" "reads_ok s th"
  shows "latch_inv (set_thread s t th)"
proof -
  have h: "hold (((threads s)(t := th)) u) = hold (threads s u)" for u using assms(2) by simp
  then have "mutex_ok (set_thread s t th)" using assms(1) by (simp add: latch_inv_def mutex_ok_def holders_def)
  moreover have "thread_ok (((threads s)(t := th)) u) (cell (mem s) ()) \<and> reads_ok (set_thread s t th) (((threads s)(t := th)) u)" for u
  proof -
    have "thread_ok (threads s u) (cell (mem s) ())" "reads_ok s (threads s u)" by (rule latch_invD [OF assms(1)])+
    then show ?thesis using assms(3,4) by (cases "u = t") (simp_all add: reads_ok_def)
  qed
  ultimately show ?thesis using assms(1) unfolding latch_inv_def by simp
qed

lemma latch_inv_step:
  assumes st: "lstep s s'" and I: "latch_inv s" and c: "clock s' < 2 ^ 64"
  shows "latch_inv s'"
  using st
proof (cases rule: lstep.cases)
  case (act t p m' p' c')
  have "c' < 2 ^ 64" using act(1) c by simp
  then show ?thesis unfolding act(1) by (rule latch_inv_act [OF I act(2-4)])
next
  case (modify t d)
  have "thread_ok (threads s t) (cell (mem s) ())" by (rule latch_invD [OF I])
  then have "odd (cell (mem s) ())" using modify by (simp add: thread_ok_def)
  then have "odd (clock s)" using I by (simp add: latch_inv_def)
  moreover have "mutex_ok s' = mutex_ok s" "\<And>th. reads_ok s' th = reads_ok s th" using modify(1)
    by (simp_all add: mutex_ok_def holders_def reads_ok_def)
  ultimately show ?thesis using I modify(1) unfolding latch_inv_def by simp
next
  case (call t p)
  have T: "thread_ok (threads s t) (cell (mem s) ())" "reads_ok s (threads s t)" by (rule latch_invD [OF I])+
  show ?thesis unfolding call(1)
    by (rule latch_inv_local [OF I]) (use T call calls_wp in \<open>auto simp: thread_ok_def reads_ok_def\<close>)
next
  case (return t g)
  have T: "thread_ok (threads s t) (cell (mem s) ())" "reads_ok s (threads s t)" by (rule latch_invD [OF I])+
  show ?thesis unfolding return(1)
    by (rule latch_inv_local [OF I]) (use T return in \<open>auto simp: thread_ok_def reads_ok_def\<close>)
next
  case (jump t)
  have T: "thread_ok (threads s t) (cell (mem s) ())" by (rule latch_invD [OF I])
  show ?thesis unfolding jump(1)
    by (rule latch_inv_local [OF I]) (use T jump in \<open>auto simp: thread_ok_def reads_ok_def new_guard_def\<close>)
next
  case (drop t)
  have T: "thread_ok (threads s t) (cell (mem s) ())" by (rule latch_invD [OF I])
  show ?thesis unfolding drop(1)
    by (rule latch_inv_local [OF I])
      (use T drop in \<open>auto simp: thread_ok_def reads_ok_def new_guard_def split: GUARD_STATE.splits\<close>)
next
  case (read t)
  have T: "thread_ok (threads s t) (cell (mem s) ())" "reads_ok s (threads s t)" by (rule latch_invD [OF I])+
  have "unat (g_version (grd (threads s t))) \<le> clock s"
  proof -
    have "g_version (grd (threads s t)) \<le> of_nat (clock s)"
      using T(1) read I by (auto simp: thread_ok_def latch_inv_def split: GUARD_STATE.splits)
    then have "unat (g_version (grd (threads s t))) \<le> unat (of_nat (clock s) :: u64)" by (simp add: word_le_nat_alt)
    then show ?thesis by (simp add: unat_of_nat)
  qed
  then show ?thesis unfolding read(1)
    by (intro latch_inv_local [OF I]) (use T read(2) latch_invD(4) [OF I] in \<open>auto simp: thread_ok_def reads_ok_def\<close>)
qed

lemma latch_inv_reach: "lreach d s \<Longrightarrow> clock s < 2 ^ 64 \<Longrightarrow> latch_inv s"
proof (induction rule: rtranclp_induct)
  case base
  show ?case by (rule latch_inv_init)
next
  case (step s s')
  then show ?case using latch_inv_step clock_mono [of s s'] by auto
qed

section \<open>Runs\<close>

text \<open>A thread that runs alone: the state after its next action.\<close>

lemma lstep_act:
  assumes "busy (threads s t) = Some p" "astep (mem s) p = Some (m', p')"
  shows "\<exists>s'. lstep s s' \<and> mem s' = m' \<and> clock s' = (if cell m' () = cell (mem s) () then clock s else clock s + 1) \<and>
    data s' = data s \<and> busy (threads s' t) = Some p' \<and> grd (threads s' t) = grd (threads s t) \<and>
    reads (threads s' t) = reads (threads s t)"
  by (rule exI, rule conjI, rule lstep.act [OF assms refl]) simp

lemma lstep_return:
  assumes "busy (threads s t) = Some (Done g)"
  shows "\<exists>s'. lstep s s' \<and> mem s' = mem s \<and> clock s' = clock s \<and> data s' = data s \<and> busy (threads s' t) = None \<and>
    grd (threads s' t) = g \<and>
    reads (threads s' t) = (if g_version g = g_version (grd (threads s t)) then reads (threads s t) else [])"
  by (rule exI, rule conjI, rule lstep.return [OF assms]) simp

lemma lstep_read:
  assumes "busy (threads s t) = None" "g_state (grd (threads s t)) \<in> {OPTIMISTIC, SHARED, EXCLUSIVE}"
  shows "\<exists>s'. lstep s s' \<and> mem s' = mem s \<and> clock s' = clock s \<and> busy (threads s' t) = None \<and>
    grd (threads s' t) = grd (threads s t) \<and> reads (threads s' t) = (clock s, data s) # reads (threads s t)"
  by (rule exI, rule conjI, rule lstep.read [OF assms]) (simp add: assms(1))

lemma exclusive_run:
  "\<exists>s :: nat lsys. lreach 0 s \<and> clock s = 1 \<and> busy (threads s 0) = None \<and> g_state (grd (threads s 0)) = EXCLUSIVE"
proof -
  let ?s = "linit (0 :: nat)" and ?g = "new_guard ()"
  let ?s1 = "set_thread ?s 0 ((threads ?s 0)\<lparr>busy := Some (toExclusive ?g)\<rparr>)"
  have 1: "lstep ?s ?s1" by (rule lstep.call) (simp_all add: linit_def calls_def new_guard_def)
  obtain s2 where 2: "lstep ?s1 s2" "mem s2 = \<lparr>cell = \<lambda>_. 0, xlocked = \<lambda>_. True, sharers = \<lambda>_. 0\<rparr>" "clock s2 = 0"
    "busy (threads s2 0) = Some (Load () (\<lambda>v. Store () (v + 1) (Done (?g\<lparr>g_version := v + 1, g_state := EXCLUSIVE\<rparr>))))"
    using lstep_act [of ?s1 0]
    by (fastforce simp: linit_def toExclusive_def new_guard_def LATCH_EXCLUSIVE_BIT_def Let_def fun_eq_iff)
  obtain s3 where 3: "lstep s2 s3" "mem s3 = mem s2" "clock s3 = 0"
    "busy (threads s3 0) = Some (Store () 1 (Done (?g\<lparr>g_version := 1, g_state := EXCLUSIVE\<rparr>)))"
    using lstep_act [OF 2(4)] 2(2,3) by auto
  obtain s4 where 4: "lstep s3 s4" "clock s4 = 1"
    "busy (threads s4 0) = Some (Done (?g\<lparr>g_version := 1, g_state := EXCLUSIVE\<rparr>))"
    using lstep_act [OF 3(4)] 2(2) 3(2,3) by auto
  obtain s5 where 5: "lstep s4 s5" "clock s5 = 1" "busy (threads s5 0) = None" "g_state (grd (threads s5 0)) = EXCLUSIVE"
    using lstep_return [OF 4(3)] 4(2) by auto
  have "lreach 0 s5" using 1 2(1) 3(1) 4(1) 5(1) by (meson r_into_rtranclp rtranclp.rtrancl_into_rtrancl)
  then show ?thesis using 5 by blast
qed

section \<open>Properties\<close>

text \<open>C33. Exclusive latches exclude: however the threads interleave their guard operations, when a thread has an exclusive
  guard the latch's version is odd and equals the guard's, and no other thread has an exclusive or a shared guard, as long
  as the 64-bit version has not wrapped around.\<close>

theorem latch_excludes:
  assumes "lreach d s" "clock s < 2 ^ 64" "busy (threads s t) = None" "g_state (grd (threads s t)) = EXCLUSIVE"
  shows "isExclusivelyLatched (cell (mem s) ()) \<and> g_version (grd (threads s t)) = cell (mem s) () \<and>
    (\<forall>t'. t' \<noteq> t \<longrightarrow> busy (threads s t') = None \<longrightarrow> g_state (grd (threads s t')) \<notin> {SHARED, EXCLUSIVE})"
proof -
  have I: "latch_inv s" by (rule latch_inv_reach [OF assms(1,2)])
  note T = latch_invD(5) [OF I] and M = latch_invD(2) [OF I]
  have t: "hold (threads s t) = HoldX" "g_version (grd (threads s t)) = cell (mem s) ()" "odd (cell (mem s) ())"
    using T [of t] assms(3,4) by (auto simp: thread_ok_def)
  moreover have "g_state (grd (threads s t')) \<notin> {SHARED, EXCLUSIVE}" if "t' \<noteq> t" "busy (threads s t') = None" for t'
    using that T [of t'] M t(1) by (auto simp: thread_ok_def mutex_ok_def)
  ultimately show ?thesis by (simp add: exclusive_odd)
qed

theorem latch_excludes_witness:
  "\<exists>s :: nat lsys. lreach 0 s \<and> g_state (grd (threads s 0)) = EXCLUSIVE \<and> isExclusivelyLatched (cell (mem s) ())"
proof -
  obtain s :: "nat lsys" where s: "lreach 0 s" "clock s = 1" "busy (threads s 0) = None" "g_state (grd (threads s 0)) = EXCLUSIVE"
    using exclusive_run by blast
  then show ?thesis using latch_excludes [OF s(1) _ s(3,4)] by (intro exI [of _ s]) simp
qed

text \<open>C34. Validated optimistic reads are consistent: when the version of a thread's optimistic guard equals the latch's
  version, which is what \<open>recheck\<close>, \<open>toShared\<close> and \<open>toExclusive\<close> test, then every value that the thread read under the
  guard is the current data, and no thread is writing.\<close>

theorem optimistic_reads_consistent:
  assumes "lreach d s" "clock s < 2 ^ 64" "g_state (grd (threads s t)) = OPTIMISTIC" "busy (threads s t) = None"
    "g_version (grd (threads s t)) = cell (mem s) ()"
  shows "(\<forall>(r, x) \<in> set (reads (threads s t)). x = data s) \<and>
    (\<forall>t'. busy (threads s t') = None \<longrightarrow> g_state (grd (threads s t')) \<noteq> EXCLUSIVE) \<and>
    run (recheck (grd (threads s t))) (mem s) = Some (Ret (grd (threads s t)), mem s)"
proof -
  have I: "latch_inv s" by (rule latch_inv_reach [OF assms(1,2)])
  note T = latch_invD(5) [OF I] latch_invD(6) [OF I, of t] and v = latch_invD(1) [OF I]
  have e: "even (cell (mem s) ())" using T(1) [of t] assms(3-5) by (simp add: thread_ok_def)
  then have "data s = hist s (clock s)" "even (clock s)" using I v by (simp_all add: latch_inv_def)
  moreover have "unat (g_version (grd (threads s t))) = clock s" using assms(2,5) v by (simp add: unat_of_nat)
  ultimately have "\<forall>(r, x) \<in> set (reads (threads s t)). x = data s" using T(2) by (fastforce simp: reads_ok_def)
  moreover have "g_state (grd (threads s t')) \<noteq> EXCLUSIVE" if "busy (threads s t') = None" for t'
    using T(1) [of t'] e that by (auto simp: thread_ok_def)
  moreover have "g_latch (grd (threads s t)) = ()" by simp
  ultimately show ?thesis using assms(3,5) by (simp add: recheck_def)
qed

theorem optimistic_reads_consistent_witness:
  "\<exists>s :: nat lsys. lreach 7 s \<and> reads (threads s 0) = [(0, 7)] \<and>
     run (recheck (grd (threads s 0))) (mem s) = Some (Ret (grd (threads s 0)), mem s)"
proof -
  let ?s = "linit (7 :: nat)" and ?g = "new_guard ()"
  let ?s1 = "set_thread ?s 0 ((threads ?s 0)\<lparr>busy := Some (toOptimisticSpin ?g)\<rparr>)"
  have 1: "lstep ?s ?s1" by (rule lstep.call) (simp_all add: linit_def calls_def new_guard_def)
  obtain s2 where 2: "lstep ?s1 s2" "mem s2 = mem ?s" "clock s2 = 0" "data s2 = 7" "reads (threads s2 0) = []"
    "busy (threads s2 0) = Some (Done (?g\<lparr>g_state := OPTIMISTIC\<rparr>))" "grd (threads s2 0) = ?g"
    using lstep_act [of ?s1 0] by (fastforce simp: linit_def toOptimisticSpin_def new_guard_def exclusive_odd)
  obtain s3 where 3: "lstep s2 s3" "mem s3 = mem ?s" "clock s3 = 0" "data s3 = 7" "reads (threads s3 0) = []"
    "busy (threads s3 0) = None" "grd (threads s3 0) = ?g\<lparr>g_state := OPTIMISTIC\<rparr>"
    using lstep_return [OF 2(6)] 2 by (auto simp: new_guard_def)
  obtain s4 where 4: "lstep s3 s4" "mem s4 = mem ?s" "clock s4 = 0" "reads (threads s4 0) = [(0, 7)]"
    "busy (threads s4 0) = None" "grd (threads s4 0) = ?g\<lparr>g_state := OPTIMISTIC\<rparr>"
    using lstep_read [OF 3(6)] 3 by auto
  have "lreach 7 s4" using 1 2(1) 3(1) 4(1) by (meson r_into_rtranclp rtranclp.rtrancl_into_rtrancl)
  then show ?thesis
    using optimistic_reads_consistent [of 7 s4 0] 4 by (intro exI [of _ s4]) (simp add: linit_def new_guard_def)
qed

end
