(* ===== verification/LockManager.thy ===== *)
theory LockManager
  imports Atomics
begin

text \<open>
  The record locks of LockManager/LockManager.hpp: a table of version words, indexed by the hash of the key, with the
  optimistic guard that the adapters use (\<open>LockGuardProxy\<close>) and the pessimistic one. A word is odd while it is
  write-locked. Each method of a guard is the program of its atomic actions, and any number of threads interleaves them.
\<close>

unbundle bit_operations_syntax

section \<open>The lock table\<close>

definition kLockWords :: nat where
  "kLockWords = 131071"

definition OptimisticLockTable :: "nat memory" where
  "OptimisticLockTable = \<lparr>cell = \<lambda>_. 0, xlocked = \<lambda>_. False, sharers = \<lambda>_. 0\<rparr>"

definition get_key_version :: "nat memory \<Rightarrow> u64 \<Rightarrow> u64" where
  "get_key_version table hash = cell table (unat hash mod kLockWords)"

definition update_key_version :: "nat memory \<Rightarrow> u64 \<Rightarrow> u64 \<Rightarrow> nat memory" where
  "update_key_version table hash version = table\<lparr>cell := (cell table)(unat hash mod kLockWords := version)\<rparr>"

text \<open>The hashes of utils/FNVHash.cpp. The length of the key is passed as a \<open>u16\<close>.\<close>

definition fnv_step :: "u64 \<Rightarrow> u64 \<Rightarrow> u64" where
  "fnv_step hash_val octet = (hash_val XOR octet) * 1099511628211"

definition fnv_hash :: "bytes \<Rightarrow> u64" where
  "fnv_hash d = foldl (\<lambda>h b. fnv_step h (ucast b)) 0xCBF29CE484222325 (take (u16 (int (length d))) d)"

primrec fnv_rounds :: "nat \<Rightarrow> u64 \<Rightarrow> u64 \<Rightarrow> u64" where
  "fnv_rounds 0 val hash_val = hash_val"
| "fnv_rounds (Suc i) val hash_val = fnv_rounds i (drop_bit 8 val) (fnv_step hash_val (val AND 0xff))"

definition hash_u64 :: "u64 \<Rightarrow> u64" where
  "hash_u64 val = fnv_rounds 8 val 0xCBF29CE484222325"

section \<open>The optimistic guard\<close>

datatype OptimisticLockState = UNINITIALIZED | READ_LOCKED | WRITE_LOCKED | MOVED

record OptimisticLockGuard =
  word_pos :: nat
  lg_version :: u64
  lg_state :: OptimisticLockState

definition new_lock_guard :: "u64 \<Rightarrow> (nat, OptimisticLockGuard) prog" where
  "new_lock_guard hash =
     (let pos = unat hash mod kLockWords in
      Load pos (\<lambda>v. Done \<lparr>word_pos = pos, lg_version = v, lg_state = UNINITIALIZED\<rparr>))"

definition set_snapshot_read_version :: "OptimisticLockGuard \<Rightarrow> u64 \<Rightarrow> OptimisticLockGuard" where
  "set_snapshot_read_version g snapshot_version = g\<lparr>lg_version := snapshot_version, lg_state := READ_LOCKED\<rparr>"

definition read_lock :: "OptimisticLockGuard \<Rightarrow> (nat, bool \<times> OptimisticLockGuard) prog" where
  "read_lock g =
     Load (word_pos g) (\<lambda>v.
       if v mod 2 = 0 then Done (True, g\<lparr>lg_version := v, lg_state := READ_LOCKED\<rparr>)
       else Done (False, g\<lparr>lg_version := v\<rparr>))"

definition write_lock :: "OptimisticLockGuard \<Rightarrow> (nat, bool \<times> OptimisticLockGuard) prog" where
  "write_lock g =
     Load (word_pos g) (\<lambda>v.
       if v mod 2 = 1 then Done (False, g\<lparr>lg_version := v\<rparr>)
       else CAS (word_pos g) v (v + 1) (\<lambda>ok _.
         if ok then Done (True, g\<lparr>lg_version := v + 1, lg_state := WRITE_LOCKED\<rparr>)
         else Done (False, g\<lparr>lg_version := v\<rparr>)))"

definition more_than_one_writer_since :: "OptimisticLockGuard \<Rightarrow> u64 \<Rightarrow> bool" where
  "more_than_one_writer_since g v \<longleftrightarrow> lg_version g - v > 1"

definition lock_validate :: "OptimisticLockGuard \<Rightarrow> (nat, bool) prog" where
  "lock_validate g = Load (word_pos g) (\<lambda>v. Done (v = lg_version g))"

definition upgrade_to_write_lock :: "OptimisticLockGuard \<Rightarrow> (nat, bool \<times> OptimisticLockGuard) prog" where
  "upgrade_to_write_lock g =
     CAS (word_pos g) (lg_version g) (lg_version g + 1) (\<lambda>ok _.
       if ok then Done (True, g\<lparr>lg_version := lg_version g + 1, lg_state := WRITE_LOCKED\<rparr>) else Done (False, g))"

definition version_if_write_unlocked :: "OptimisticLockGuard \<Rightarrow> (nat, u64) prog" where
  "version_if_write_unlocked g = Load (word_pos g) (\<lambda>v. Done (v + 1))"

definition destroy_lock_guard :: "OptimisticLockGuard \<Rightarrow> (nat, OptimisticLockGuard) prog" where
  "destroy_lock_guard g =
     (if lg_state g = WRITE_LOCKED then FetchAdd (word_pos g) 1 (\<lambda>_. Done (g\<lparr>lg_state := MOVED\<rparr>)) else Done g)"

section \<open>The pessimistic guard\<close>

text \<open>The word holds the number of readers in its top byte and the writer version in the rest.\<close>

definition kReadersMask :: u64 where
  "kReadersMask = 0xFF00000000000000"

definition get_readers :: "u64 \<Rightarrow> nat" where
  "get_readers word = u16 (uint (drop_bit 56 (word AND kReadersMask)))"

definition get_writer_version :: "u64 \<Rightarrow> nat" where
  "get_writer_version word = u16 (uint (word AND NOT kReadersMask))"

definition make_word :: "u64 \<Rightarrow> u64 \<Rightarrow> u64" where
  "make_word readers writer_version = push_bit 56 readers OR writer_version"

definition do_write_lock :: "'l \<Rightarrow> ('l, bool) prog" where
  "do_write_lock word =
     Load word (\<lambda>old_word.
       let readers = of_nat (get_readers old_word) :: u64; writer_version = of_nat (get_writer_version old_word) :: u64 in
       if readers \<noteq> 0 \<or> writer_version mod 2 \<noteq> 0 then Done False
       else CAS word old_word (make_word readers (writer_version + 1)) (\<lambda>ok _. Done ok))"

definition do_upgrade_write_lock :: "'l \<Rightarrow> ('l, bool) prog" where
  "do_upgrade_write_lock word =
     Load word (\<lambda>old_word.
       let readers = of_nat (get_readers old_word) :: u64; writer_version = of_nat (get_writer_version old_word) :: u64 in
       if readers \<noteq> 1 \<or> writer_version mod 2 \<noteq> 0 then Done False
       else CAS word old_word (make_word 0 (writer_version + 1)) (\<lambda>ok _. Done ok))"

definition do_read_lock :: "'l \<Rightarrow> ('l, bool) prog" where
  "do_read_lock word =
     Load word (\<lambda>old_word.
       let readers = of_nat (get_readers old_word) :: u64; writer_version = of_nat (get_writer_version old_word) :: u64 in
       if writer_version mod 2 \<noteq> 0 then Done False
       else CAS word old_word (make_word (readers + 1) writer_version) (\<lambda>ok _. Done ok))"

definition do_write_unlock :: "'l \<Rightarrow> ('l, unit) prog" where
  "do_write_unlock word =
     Update word (\<lambda>old_word. make_word (of_nat (get_readers old_word)) (of_nat (get_writer_version old_word) + 1)) (\<lambda>_. Done ())"

definition do_read_unlock :: "'l \<Rightarrow> ('l, unit) prog" where
  "do_read_unlock word =
     Update word (\<lambda>old_word. make_word (of_nat (get_readers old_word) - 1) (of_nat (get_writer_version old_word))) (\<lambda>_. Done ())"

text \<open>\<open>more_than_one_writer_since\<close> subtracts two \<open>u16\<close> values, which the language promotes to \<open>int\<close>.\<close>

definition pess_more_than_one_writer_since :: "u64 \<Rightarrow> u64 \<Rightarrow> bool" where
  "pess_more_than_one_writer_since word v \<longleftrightarrow> int (get_writer_version word) - int (get_writer_version v) > 1"

record PessimisticLockGuard =
  pg_pos :: nat
  pg_state :: OptimisticLockState

definition pess_read_lock :: "PessimisticLockGuard \<Rightarrow> (nat, bool \<times> PessimisticLockGuard) prog" where
  "pess_read_lock g =
     map_prog id (\<lambda>ok. if ok then (True, g\<lparr>pg_state := READ_LOCKED\<rparr>) else (False, g)) (do_read_lock (pg_pos g))"

definition pess_write_lock :: "PessimisticLockGuard \<Rightarrow> (nat, bool \<times> PessimisticLockGuard) prog" where
  "pess_write_lock g =
     map_prog id (\<lambda>ok. if ok then (True, g\<lparr>pg_state := WRITE_LOCKED\<rparr>) else (False, g)) (do_write_lock (pg_pos g))"

definition pess_upgrade_to_write_lock :: "PessimisticLockGuard \<Rightarrow> (nat, bool \<times> PessimisticLockGuard) prog" where
  "pess_upgrade_to_write_lock g =
     map_prog id (\<lambda>ok. if ok then (True, g\<lparr>pg_state := WRITE_LOCKED\<rparr>) else (False, g)) (do_upgrade_write_lock (pg_pos g))"

definition destroy_pess_guard :: "PessimisticLockGuard \<Rightarrow> (nat, PessimisticLockGuard) prog" where
  "destroy_pess_guard g =
     (if pg_state g = WRITE_LOCKED then map_prog id (\<lambda>_. g\<lparr>pg_state := MOVED\<rparr>) (do_write_unlock (pg_pos g))
      else if pg_state g = READ_LOCKED then map_prog id (\<lambda>_. g\<lparr>pg_state := MOVED\<rparr>) (do_read_unlock (pg_pos g))
      else Done g)"

section \<open>Threads on the lock table\<close>

text \<open>\<open>lk_data w\<close> stands for the records whose keys hash to the word \<open>w\<close>. \<open>clk\<close>, \<open>lk_hist\<close>, \<open>whold\<close> and \<open>lk_reads\<close> are
  bookkeeping: the number of changes of each word, the data at each even clock, whether the thread has locked its
  word, and what it read under its guard and when.\<close>

record 'd lk_thread =
  lgrd :: OptimisticLockGuard
  lbusy :: "(nat, OptimisticLockGuard) prog option"
  whold :: bool
  lk_reads :: "(nat \<times> 'd) list"

record 'd lk_sys =
  table :: "nat memory"
  lk_data :: "nat \<Rightarrow> 'd"
  lk_threads :: "nat \<Rightarrow> 'd lk_thread"
  clk :: "nat \<Rightarrow> nat"
  lk_hist :: "nat \<Rightarrow> nat \<Rightarrow> 'd"

text \<open>The calls that the assertions of the methods allow.\<close>

definition lk_calls :: "OptimisticLockGuard \<Rightarrow> (nat, OptimisticLockGuard) prog list" where
  "lk_calls g =
     destroy_lock_guard g #
     (if lg_state g = UNINITIALIZED then [map_prog id snd (read_lock g), map_prog id snd (write_lock g)] else []) @
     (if lg_state g = READ_LOCKED then [map_prog id snd (upgrade_to_write_lock g)] else [])"

fun whold_after :: "('l, 'a) prog \<Rightarrow> 'l memory \<Rightarrow> bool \<Rightarrow> bool" where
  "whold_after (CAS l e v k) m h = (h \<or> cell m l = e)"
| "whold_after (FetchAdd l d k) m h = False"
| "whold_after _ m h = h"

abbreviation set_lk_thread :: "'d lk_sys \<Rightarrow> nat \<Rightarrow> 'd lk_thread \<Rightarrow> 'd lk_sys" where
  "set_lk_thread s t th \<equiv> s\<lparr>lk_threads := (lk_threads s)(t := th)\<rparr>"

inductive lk_step :: "'d lk_sys \<Rightarrow> 'd lk_sys \<Rightarrow> bool" where
  lk_new: "lbusy (lk_threads s t) = None \<Longrightarrow> lg_state (lgrd (lk_threads s t)) \<noteq> WRITE_LOCKED \<Longrightarrow>
    run (new_lock_guard hash) (table s) = Some (Ret g, m) \<Longrightarrow>
    lk_step s (set_lk_thread s t ((lk_threads s t)\<lparr>lgrd := g, lk_reads := []\<rparr>))"
| lk_call: "lbusy (lk_threads s t) = None \<Longrightarrow> p \<in> set (lk_calls (lgrd (lk_threads s t))) \<Longrightarrow>
    lk_step s (set_lk_thread s t ((lk_threads s t)\<lparr>lbusy := Some p\<rparr>))"
| lk_act: "lbusy (lk_threads s t) = Some p \<Longrightarrow> astep (table s) p = Some (m', p') \<Longrightarrow> w = word_pos (lgrd (lk_threads s t)) \<Longrightarrow>
    c' = (if cell m' w = cell (table s) w then clk s w else clk s w + 1) \<Longrightarrow>
    lk_step s (s\<lparr>table := m', clk := (clk s)(w := c'), lk_hist := (lk_hist s)(w := (lk_hist s w)(c' := lk_data s w)),
      lk_threads := (lk_threads s)(t := (lk_threads s t)\<lparr>lbusy := Some p',
        whold := whold_after p (table s) (whold (lk_threads s t))\<rparr>)\<rparr>)"
| lk_return: "lbusy (lk_threads s t) = Some (Done g) \<Longrightarrow>
    lk_step s (set_lk_thread s t ((lk_threads s t)\<lparr>lbusy := None, lgrd := g,
      lk_reads := (if lg_version g = lg_version (lgrd (lk_threads s t)) then lk_reads (lk_threads s t) else [])\<rparr>))"
| lk_read: "lbusy (lk_threads s t) = None \<Longrightarrow> lg_state (lgrd (lk_threads s t)) \<in> {READ_LOCKED, WRITE_LOCKED} \<Longrightarrow>
    w = word_pos (lgrd (lk_threads s t)) \<Longrightarrow>
    lk_step s (set_lk_thread s t ((lk_threads s t)\<lparr>lk_reads := (clk s w, lk_data s w) # lk_reads (lk_threads s t)\<rparr>))"
| lk_write: "lbusy (lk_threads s t) = None \<Longrightarrow> lg_state (lgrd (lk_threads s t)) = WRITE_LOCKED \<Longrightarrow>
    lk_step s (s\<lparr>lk_data := (lk_data s)(word_pos (lgrd (lk_threads s t)) := d)\<rparr>)"

definition lk_init :: "(nat \<Rightarrow> 'd) \<Rightarrow> 'd lk_sys" where
  "lk_init d = \<lparr>table = OptimisticLockTable, lk_data = d,
     lk_threads = \<lambda>_. \<lparr>lgrd = \<lparr>word_pos = 0, lg_version = 0, lg_state = MOVED\<rparr>, lbusy = None, whold = False, lk_reads = []\<rparr>,
     clk = \<lambda>_. 0, lk_hist = \<lambda>w _. d w\<rparr>"

abbreviation lk_reach :: "(nat \<Rightarrow> 'd) \<Rightarrow> 'd lk_sys \<Rightarrow> bool" where
  "lk_reach d s \<equiv> lk_step\<^sup>*\<^sup>* (lk_init d) s"

section \<open>The protocol of a word\<close>

primrec lwp :: "(nat, 'a) prog \<Rightarrow> nat \<Rightarrow> bool \<Rightarrow> u64 \<Rightarrow> ('a \<Rightarrow> bool \<Rightarrow> u64 \<Rightarrow> bool) \<Rightarrow> bool" where
  "lwp (Done x) w h v Q \<longleftrightarrow> Q x h v"
| "lwp Jmp w h v Q \<longleftrightarrow> False"
| "lwp (Load l k) w h v Q \<longleftrightarrow> l = w \<and> (\<forall>v'. (if h then v' = v else v \<le> v') \<longrightarrow> lwp (k v') w h v' Q)"
| "lwp (CAS l e n k) w h v Q \<longleftrightarrow> l = w \<and> \<not> h \<and> even e \<and> n = e + 1 \<and>
     (v \<le> e \<longrightarrow> lwp (k True e) w True n Q) \<and> (\<forall>v'. v \<le> v' \<longrightarrow> v' \<noteq> e \<longrightarrow> lwp (k False v') w False v' Q)"
| "lwp (FetchAdd l d k) w h v Q \<longleftrightarrow> l = w \<and> h \<and> d = 1 \<and> lwp (k v) w False (v + 1) Q"
| "lwp (Await l P k) w h v Q \<longleftrightarrow> False"
| "lwp (Store l x p) w h v Q \<longleftrightarrow> False"
| "lwp (Update l f k) w h v Q \<longleftrightarrow> False"
| "lwp (Lock l p) w h v Q \<longleftrightarrow> False"
| "lwp (Unlock l p) w h v Q \<longleftrightarrow> False"
| "lwp (LockShared l p) w h v Q \<longleftrightarrow> False"
| "lwp (TryLockShared l k) w h v Q \<longleftrightarrow> False"
| "lwp (UnlockShared l p) w h v Q \<longleftrightarrow> False"

fun lguard_ok :: "nat \<Rightarrow> OptimisticLockGuard \<Rightarrow> bool \<Rightarrow> u64 \<Rightarrow> bool" where
  "lguard_ok w g h v \<longleftrightarrow> word_pos g = w \<and>
     (case lg_state g of
        WRITE_LOCKED \<Rightarrow> h \<and> lg_version g = v \<and> odd v
      | READ_LOCKED \<Rightarrow> \<not> h \<and> lg_version g \<le> v \<and> even (lg_version g)
      | _ \<Rightarrow> \<not> h)"

lemma word_mod_2: "(v :: u64) mod 2 = 0 \<longleftrightarrow> even v" "v mod 2 = 1 \<longleftrightarrow> odd v"
  by (simp_all add: even_iff_mod_2_eq_zero odd_iff_mod_2_eq_one)

lemma lk_calls_wp:
  assumes "lguard_ok w g h v" "p \<in> set (lk_calls g)"
  shows "lwp p w h v (lguard_ok w)"
  using assms
  by (cases "lg_state g") (auto simp: lk_calls_def destroy_lock_guard_def read_lock_def write_lock_def upgrade_to_write_lock_def word_mod_2)

lemma lwp_later:
  assumes "lwp p w False v (lguard_ok w)" "v \<le> v'"
  shows "lwp p w False v' (lguard_ok w)"
proof (cases p)
  case (Done g)
  then show ?thesis using assms by (cases "lg_state g") auto
qed (use assms in auto)

lemma astep_lwp:
  assumes "lwp p w h v (lguard_ok w)" "cell m w = v" "astep m p = Some (m', p')"
  shows "lwp p' w (whold_after p m h) (cell m' w) (lguard_ok w)"
    "cell m' w = v \<and> whold_after p m h = h \<or> cell m' w = v + 1 \<and> whold_after p m h \<noteq> h" "w' \<noteq> w \<Longrightarrow> cell m' w' = cell m w'"
    "\<not> h \<Longrightarrow> whold_after p m h \<Longrightarrow> even v"
  using assms by (cases p; auto split: if_splits)+

section \<open>The invariant\<close>

definition pos_of :: "'d lk_sys \<Rightarrow> nat \<Rightarrow> nat" where
  "pos_of s t = word_pos (lgrd (lk_threads s t))"

definition lk_thread_ok :: "'d lk_thread \<Rightarrow> nat \<Rightarrow> u64 \<Rightarrow> bool" where
  "lk_thread_ok th w v \<longleftrightarrow>
     (case lbusy th of None \<Rightarrow> lguard_ok w (lgrd th) (whold th) v | Some p \<Rightarrow> lwp p w (whold th) v (lguard_ok w))"

definition lk_reads_ok :: "'d lk_sys \<Rightarrow> nat \<Rightarrow> 'd lk_thread \<Rightarrow> bool" where
  "lk_reads_ok s w th \<longleftrightarrow>
     (\<forall>(r, x) \<in> set (lk_reads th). unat (lg_version (lgrd th)) \<le> r \<and> r \<le> clk s w \<and> (even r \<longrightarrow> x = lk_hist s w r))"

text \<open>A word is odd exactly while one thread has it locked.\<close>

definition words_ok :: "'d lk_sys \<Rightarrow> bool" where
  "words_ok s \<longleftrightarrow>
     (\<forall>w. cell (table s) w = of_nat (clk s w)) \<and>
     (\<forall>w. odd (clk s w) \<longleftrightarrow> (\<exists>t. whold (lk_threads s t) \<and> pos_of s t = w)) \<and>
     (\<forall>t t'. whold (lk_threads s t) \<longrightarrow> whold (lk_threads s t') \<longrightarrow> pos_of s t' = pos_of s t \<longrightarrow> t' = t) \<and>
     (\<forall>w. even (clk s w) \<longrightarrow> lk_data s w = lk_hist s w (clk s w))"

definition lk_inv :: "'d lk_sys \<Rightarrow> bool" where
  "lk_inv s \<longleftrightarrow> words_ok s \<and>
     (\<forall>t. lk_thread_ok (lk_threads s t) (pos_of s t) (of_nat (clk s (pos_of s t))) \<and> lk_reads_ok s (pos_of s t) (lk_threads s t))"

lemma lk_inv_init: "lk_inv (lk_init d)"
  by (simp add: lk_inv_def words_ok_def lk_init_def lk_thread_ok_def lk_reads_ok_def pos_of_def OptimisticLockTable_def)

lemma clk_mono: "lk_step s s' \<Longrightarrow> clk s w \<le> clk s' w"
  by (induction rule: lk_step.induct) auto

lemma lk_invD:
  assumes "lk_inv s"
  shows "words_ok s" "lk_thread_ok (lk_threads s t) (pos_of s t) (cell (table s) (pos_of s t))" "lk_reads_ok s (pos_of s t) (lk_threads s t)"
  using assms unfolding lk_inv_def words_ok_def by simp_all

lemma lk_inv_local:
  assumes I: "lk_inv s" and th: "whold th = whold (lk_threads s t)" "word_pos (lgrd th) = w" "whold th \<Longrightarrow> w = pos_of s t"
    "lk_thread_ok th w (cell (table s) w)" "lk_reads_ok s w th"
  shows "lk_inv (set_lk_thread s t th)"
proof -
  let ?s = "set_lk_thread s t th"
  have pos: "pos_of ?s u = (if u = t then w else pos_of s u)" for u using th(2) by (simp add: pos_of_def)
  have h: "whold (lk_threads ?s u) = whold (lk_threads s u)" for u using th(1) by simp
  have "words_ok ?s" using lk_invD(1) [OF I] th(1,3) unfolding words_ok_def h pos by (simp add: if_distrib) (metis th(1))
  moreover have "lk_thread_ok (lk_threads ?s u) (pos_of ?s u) (cell (table ?s) (pos_of ?s u)) \<and> lk_reads_ok ?s (pos_of ?s u) (lk_threads ?s u)" for u
    using lk_invD(2,3) [OF I, of u] th(4,5) unfolding pos by (cases "u = t") (simp_all add: lk_reads_ok_def)
  ultimately show ?thesis unfolding lk_inv_def words_ok_def by simp
qed

lemma lk_inv_act:
  fixes s :: "'d lk_sys" and t :: nat
  assumes I: "lk_inv s" and b: "lbusy (lk_threads s t) = Some p" and a: "astep (table s) p = Some (m', p')"
    and w: "w = word_pos (lgrd (lk_threads s t))"
    and c: "c' = (if cell m' w = cell (table s) w then clk s w else clk s w + 1)" "c' < 2 ^ 64"
  defines "th \<equiv> (lk_threads s t)\<lparr>lbusy := Some p', whold := whold_after p (table s) (whold (lk_threads s t))\<rparr>"
  shows "lk_inv (s\<lparr>table := m', clk := (clk s)(w := c'), lk_hist := (lk_hist s)(w := (lk_hist s w)(c' := lk_data s w)),
    lk_threads := (lk_threads s)(t := th)\<rparr>)" (is "lk_inv ?s")
proof -
  let ?h = "whold (lk_threads s t)" and ?h' = "whold th" and ?v = "cell (table s) w" and ?v' = "cell m' w"
  have W: "words_ok s" by (rule lk_invD [OF I])
  have wt: "pos_of s t = w" using w by (simp add: pos_of_def)
  have pos: "pos_of ?s u = pos_of s u" for u by (simp add: pos_of_def th_def)
  have hold: "whold (lk_threads ?s u) = (if u = t then ?h' else whold (lk_threads s u))" for u by simp
  have h': "?h' = whold_after p (table s) ?h" by (simp add: th_def)
  have lw: "lwp p w ?h ?v (lguard_ok w)" using lk_invD(2) [OF I, of t] b wt by (simp add: lk_thread_ok_def)
  note A = astep_lwp [OF lw refl a, folded h']
  have v: "\<And>w. cell (table s) w = of_nat (clk s w)" and od: "odd (clk s w) \<longleftrightarrow> (\<exists>t. whold (lk_threads s t) \<and> pos_of s t = w)"
    and uniq: "\<And>t t'. whold (lk_threads s t) \<Longrightarrow> whold (lk_threads s t') \<Longrightarrow> pos_of s t' = pos_of s t \<Longrightarrow> t' = t"
    using W by (auto simp: words_ok_def)
  have c1: "?v' = of_nat c'" using A(2) c v [of w] by auto
  have same: "c' = clk s w \<Longrightarrow> ?h' = ?h" using A(2) c by (auto split: if_splits)
  have diff: "c' \<noteq> clk s w \<Longrightarrow> c' = clk s w + 1 \<and> ?h' = (\<not> ?h)" using A(2) c by (auto split: if_splits)
  have odd_h: "odd (clk s w) = ?h" if "c' \<noteq> clk s w"
    using od wt diff [OF that] A(4) v [of w] by (cases ?h) auto
  have alone: "\<not> whold (lk_threads s u)" if "c' \<noteq> clk s w" "u \<noteq> t" "pos_of s u = w" for u
    using odd_h [OF that(1)] od uniq [of t u] that wt by auto
  have le: "?v \<le> ?v'" unfolding c1 v by (rule of_nat_clock_le [OF _ c(2)]) (use c(1) in auto)
  have "odd (((clk s)(w := c')) x) \<longleftrightarrow> (\<exists>u. whold (lk_threads ?s u) \<and> pos_of s u = x)" for x
  proof (cases "x = w")
    case False
    then show ?thesis using W wt by (auto simp: words_ok_def)
  next
    case True
    show ?thesis
    proof (cases "c' = clk s w")
      case same': True
      then show ?thesis using True od same wt by auto
    next
      case False
      then show ?thesis using True alone odd_h diff wt by auto
    qed
  qed
  moreover have "t'' = t'" if "whold (lk_threads ?s t')" "whold (lk_threads ?s t'')" "pos_of s t'' = pos_of s t'" for t' t''
    using that uniq [of t' t''] same alone wt by (auto split: if_splits)
  moreover have "lk_data s x = ((lk_hist s)(w := (lk_hist s w)(c' := lk_data s w))) x (((clk s)(w := c')) x)"
    if "even (((clk s)(w := c')) x)" for x
    using W that by (auto simp: words_ok_def)
  moreover have "cell m' x = of_nat (((clk s)(w := c')) x)" for x
    using A(3) c1 v by auto
  ultimately have words: "words_ok ?s" unfolding words_ok_def pos by simp
  have "lk_thread_ok (lk_threads ?s u) (pos_of ?s u) (of_nat (clk ?s (pos_of ?s u)))" for u
  proof (cases "u = t")
    case True
    then show ?thesis using A(1) wt c1 h' unfolding pos by (simp add: lk_thread_ok_def th_def)
  next
    case False
    note T = lk_invD(2) [OF I, of u]
    have "lk_thread_ok (lk_threads s u) w ?v'" if "pos_of s u = w"
    proof (cases "c' = clk s w")
      case True
      then show ?thesis using T that c1 v by simp
    next
      case ne: False
      then show ?thesis using T that alone [OF ne False that] le lwp_later [OF _ le]
        by (cases "lg_state (lgrd (lk_threads s u))") (auto simp: lk_thread_ok_def split: option.splits)
    qed
    then show ?thesis using False T v c1 unfolding pos by (cases "pos_of s u = w") simp_all
  qed
  moreover have "lk_reads_ok ?s (pos_of ?s u) (lk_threads ?s u)" for u
  proof -
    have "clk s w \<le> c'" "c' = clk s w \<or> c' = clk s w + 1" "even (clk s w) \<Longrightarrow> lk_data s w = lk_hist s w (clk s w)"
      using c W by (auto simp: words_ok_def)
    then have "lk_reads_ok ?s (pos_of s u) (lk_threads s u)"
      using lk_invD(3) [OF I, of u] by (fastforce simp: lk_reads_ok_def)
    then show ?thesis unfolding pos by (cases "u = t") (simp_all add: lk_reads_ok_def th_def)
  qed
  ultimately show ?thesis using words by (simp add: lk_inv_def)
qed

lemma lk_inv_step:
  assumes st: "lk_step s s'" and I: "lk_inv s" and c: "\<And>w. clk s' w < 2 ^ 64"
  shows "lk_inv s'"
  using st
proof (cases rule: lk_step.cases)
  case (lk_act t p m' p' w c')
  have "c' < 2 ^ 64" using lk_act(1) c [of w] by simp
  then show ?thesis unfolding lk_act(1) by (rule lk_inv_act [OF I lk_act(2-5)])
next
  case (lk_new t hash g m)
  have T: "lk_thread_ok (lk_threads s t) (pos_of s t) (cell (table s) (pos_of s t))" by (rule lk_invD [OF I])
  then have "\<not> whold (lk_threads s t)" using lk_new by (auto simp: lk_thread_ok_def split: OptimisticLockState.splits)
  then show ?thesis using lk_new(2,4) unfolding lk_new(1)
    by (intro lk_inv_local [OF I]) (auto simp: lk_thread_ok_def lk_reads_ok_def new_lock_guard_def Let_def)
next
  case (lk_call t p)
  have T: "lk_thread_ok (lk_threads s t) (pos_of s t) (cell (table s) (pos_of s t))" "lk_reads_ok s (pos_of s t) (lk_threads s t)"
    by (rule lk_invD [OF I])+
  show ?thesis unfolding lk_call(1)
    by (rule lk_inv_local [OF I, where w = "pos_of s t"])
      (use T lk_call lk_calls_wp in \<open>auto simp: lk_thread_ok_def lk_reads_ok_def pos_of_def\<close>)
next
  case (lk_return t g)
  have T: "lk_thread_ok (lk_threads s t) (pos_of s t) (cell (table s) (pos_of s t))" "lk_reads_ok s (pos_of s t) (lk_threads s t)"
    by (rule lk_invD [OF I])+
  show ?thesis unfolding lk_return(1)
    by (rule lk_inv_local [OF I, where w = "pos_of s t"])
      (use T lk_return in \<open>auto simp: lk_thread_ok_def lk_reads_ok_def\<close>)
next
  case (lk_read t w)
  have T: "lk_thread_ok (lk_threads s t) (pos_of s t) (cell (table s) (pos_of s t))" "lk_reads_ok s (pos_of s t) (lk_threads s t)"
    by (rule lk_invD [OF I])+
  have w: "pos_of s t = w" using lk_read(4) by (simp add: pos_of_def)
  have W: "cell (table s) w = of_nat (clk s w)" "even (clk s w) \<longrightarrow> lk_data s w = lk_hist s w (clk s w)"
    using lk_invD(1) [OF I] by (simp_all add: words_ok_def)
  have "lg_version (lgrd (lk_threads s t)) \<le> of_nat (clk s w)"
    using T(1) lk_read(2,3) w W(1) by (auto simp: lk_thread_ok_def split: OptimisticLockState.splits)
  then have "unat (lg_version (lgrd (lk_threads s t))) \<le> unat (of_nat (clk s w) :: u64)" by (simp add: word_le_nat_alt)
  then have "unat (lg_version (lgrd (lk_threads s t))) \<le> clk s w" by (simp add: unat_of_nat)
  then show ?thesis unfolding lk_read(1)
    by (intro lk_inv_local [OF I, where w = w])
      (use T lk_read(2,4) w W(2) in \<open>auto simp: lk_thread_ok_def lk_reads_ok_def pos_of_def\<close>)
next
  case (lk_write t d)
  have W: "words_ok s" by (rule lk_invD [OF I])
  have T: "lk_thread_ok (lk_threads s t) (pos_of s t) (cell (table s) (pos_of s t))" by (rule lk_invD [OF I])
  then have "odd (cell (table s) (pos_of s t))" using lk_write by (simp add: lk_thread_ok_def)
  then have o: "odd (clk s (word_pos (lgrd (lk_threads s t))))" using W by (simp add: words_ok_def pos_of_def)
  have "words_ok s'" using W o unfolding lk_write(1) by (auto simp: words_ok_def pos_of_def)
  then show ?thesis using I unfolding lk_write(1) by (simp add: lk_inv_def lk_reads_ok_def pos_of_def)
qed

lemma lk_inv_reach: "lk_reach d s \<Longrightarrow> \<forall>w. clk s w < 2 ^ 64 \<Longrightarrow> lk_inv s"
proof (induction rule: rtranclp_induct)
  case base
  show ?case by (rule lk_inv_init)
next
  case (step s s')
  then show ?case using lk_inv_step clk_mono [of s s'] le_less_trans by metis
qed

section \<open>Runs\<close>

lemma lk_step_act:
  assumes "lbusy (lk_threads s t) = Some p" "astep (table s) p = Some (m', p')" "w = word_pos (lgrd (lk_threads s t))"
  shows "\<exists>s'. lk_step s s' \<and> table s' = m' \<and>
    clk s' = (if cell m' w = cell (table s) w then clk s else (clk s)(w := clk s w + 1)) \<and> lk_data s' = lk_data s \<and>
    lbusy (lk_threads s' t) = Some p' \<and> lgrd (lk_threads s' t) = lgrd (lk_threads s t) \<and> lk_reads (lk_threads s' t) = lk_reads (lk_threads s t)"
  by (rule exI, rule conjI, rule lk_step.lk_act [OF assms refl]) simp

lemma lk_step_return:
  assumes "lbusy (lk_threads s t) = Some (Done g)"
  shows "\<exists>s'. lk_step s s' \<and> table s' = table s \<and> clk s' = clk s \<and> lk_data s' = lk_data s \<and> lbusy (lk_threads s' t) = None \<and>
    lgrd (lk_threads s' t) = g \<and>
    lk_reads (lk_threads s' t) = (if lg_version g = lg_version (lgrd (lk_threads s t)) then lk_reads (lk_threads s t) else [])"
  by (rule exI, rule conjI, rule lk_step.lk_return [OF assms]) simp

lemma lk_step_call:
  assumes "lbusy (lk_threads s t) = None" "p \<in> set (lk_calls (lgrd (lk_threads s t)))"
  shows "\<exists>s'. lk_step s s' \<and> table s' = table s \<and> clk s' = clk s \<and> lk_data s' = lk_data s \<and> lbusy (lk_threads s' t) = Some p \<and>
    lgrd (lk_threads s' t) = lgrd (lk_threads s t) \<and> lk_reads (lk_threads s' t) = lk_reads (lk_threads s t)"
  by (rule exI, rule conjI, rule lk_step.lk_call [OF assms]) simp

text \<open>A thread opens a guard on hash 5 in the initial state.\<close>

lemma lk_open:
  "\<exists>s. lk_step (lk_init d) s \<and> table s = OptimisticLockTable \<and> clk s = (\<lambda>_. 0) \<and> lk_data s = d \<and> lbusy (lk_threads s 0) = None \<and>
     lgrd (lk_threads s 0) = \<lparr>word_pos = 5, lg_version = 0, lg_state = UNINITIALIZED\<rparr> \<and> lk_reads (lk_threads s 0) = []"
proof -
  have "lk_step (lk_init d) (set_lk_thread (lk_init d) 0 ((lk_threads (lk_init d) 0)\<lparr>lgrd :=
    \<lparr>word_pos = 5, lg_version = 0, lg_state = UNINITIALIZED\<rparr>, lk_reads := []\<rparr>))"
    by (rule lk_step.lk_new [where hash = 5 and m = OptimisticLockTable])
      (simp_all add: lk_init_def new_lock_guard_def OptimisticLockTable_def kLockWords_def)
  then show ?thesis by (intro exI conjI) (assumption, simp_all add: lk_init_def)
qed

section \<open>Properties\<close>

text \<open>C35. A word of the lock table is write-locked by at most one thread: two threads whose guards are write-locked on the
  same word are the same thread, however the threads interleave, and their guard's version is the word's.\<close>

theorem lock_table_excludes:
  assumes "lk_reach d s" "\<forall>w. clk s w < 2 ^ 64" "lbusy (lk_threads s t) = None" "lbusy (lk_threads s t') = None"
    "lg_state (lgrd (lk_threads s t)) = WRITE_LOCKED" "lg_state (lgrd (lk_threads s t')) = WRITE_LOCKED"
    "word_pos (lgrd (lk_threads s t')) = word_pos (lgrd (lk_threads s t))"
  shows "t' = t \<and> lg_version (lgrd (lk_threads s t)) = cell (table s) (word_pos (lgrd (lk_threads s t)))"
proof -
  have I: "lk_inv s" by (rule lk_inv_reach [OF assms(1,2)])
  note T = lk_invD(2) [OF I, of t] lk_invD(2) [OF I, of t']
  have "whold (lk_threads s t)" "whold (lk_threads s t')" "lg_version (lgrd (lk_threads s t)) = cell (table s) (pos_of s t)"
    using T assms(3-6) by (auto simp: lk_thread_ok_def)
  then show ?thesis using lk_invD(1) [OF I] assms(7) by (auto simp: words_ok_def pos_of_def)
qed

theorem lock_table_excludes_witness:
  "\<exists>s :: nat lk_sys. lk_reach (\<lambda>_. 7) s \<and> lg_state (lgrd (lk_threads s 0)) = WRITE_LOCKED \<and>
     lg_version (lgrd (lk_threads s 0)) = cell (table s) (word_pos (lgrd (lk_threads s 0)))"
proof -
  let ?g = "\<lparr>word_pos = 5, lg_version = 0, lg_state = UNINITIALIZED\<rparr>"
  obtain s1 :: "nat lk_sys" where 1: "lk_step (lk_init (\<lambda>_. 7)) s1" "table s1 = OptimisticLockTable" "clk s1 = (\<lambda>_. 0)"
    "lbusy (lk_threads s1 0) = None" "lgrd (lk_threads s1 0) = ?g" using lk_open by blast
  have c: "map_prog id snd (write_lock ?g) \<in> set (lk_calls (lgrd (lk_threads s1 0)))" by (simp add: 1 lk_calls_def)
  obtain s2 where 2: "lk_step s1 s2" "table s2 = OptimisticLockTable" "clk s2 = (\<lambda>_. 0)" "lgrd (lk_threads s2 0) = ?g"
    "lbusy (lk_threads s2 0) = Some (map_prog id snd (write_lock ?g))"
    using lk_step_call [OF 1(4) c] 1 by auto
  obtain p where p: "astep OptimisticLockTable (map_prog id snd (write_lock ?g)) = Some (OptimisticLockTable, p)"
    "astep OptimisticLockTable p = Some (OptimisticLockTable\<lparr>cell := (\<lambda>_. 0)(5 := 1)\<rparr>, Done (?g\<lparr>lg_version := 1, lg_state := WRITE_LOCKED\<rparr>))"
    by (simp add: write_lock_def OptimisticLockTable_def)
  obtain s3 where 3: "lk_step s2 s3" "table s3 = OptimisticLockTable" "clk s3 = (\<lambda>_. 0)" "lgrd (lk_threads s3 0) = ?g"
    "lbusy (lk_threads s3 0) = Some p"
    using lk_step_act [OF 2(5), of OptimisticLockTable p, OF _ refl] 2 p(1) by auto
  obtain s4 where 4: "lk_step s3 s4" "clk s4 = (\<lambda>_. 0)(5 := 1)"
    "lbusy (lk_threads s4 0) = Some (Done (?g\<lparr>lg_version := 1, lg_state := WRITE_LOCKED\<rparr>))"
    using lk_step_act [OF 3(5), unfolded 3(2), OF p(2) refl] 3 by (auto simp: OptimisticLockTable_def)
  obtain s5 where 5: "lk_step s4 s5" "clk s5 = (\<lambda>_. 0)(5 := 1)" "lbusy (lk_threads s5 0) = None"
    "lgrd (lk_threads s5 0) = ?g\<lparr>lg_version := 1, lg_state := WRITE_LOCKED\<rparr>"
    using lk_step_return [OF 4(3)] 4 by auto
  have "lk_reach (\<lambda>_. 7) s5" using 1(1) 2(1) 3(1) 4(1) 5(1) by (meson r_into_rtranclp rtranclp.rtrancl_into_rtrancl)
  then show ?thesis using lock_table_excludes [of "\<lambda>_. 7" s5 0 0] 5 by (intro exI [of _ s5]) simp
qed

text \<open>C36. A validated read lock: when \<open>validate\<close> of a read-locked guard returns true, everything the thread read under the
  guard is the current data of the word, and no thread has the word write-locked.\<close>

theorem validated_reads_consistent:
  assumes "lk_reach d s" "\<forall>w. clk s w < 2 ^ 64" "lbusy (lk_threads s t) = None" "lg_state (lgrd (lk_threads s t)) = READ_LOCKED"
    "run (lock_validate (lgrd (lk_threads s t))) (table s) = Some (Ret True, table s)"
  shows "(\<forall>(r, x) \<in> set (lk_reads (lk_threads s t)). x = lk_data s (word_pos (lgrd (lk_threads s t)))) \<and>
    (\<forall>t'. lbusy (lk_threads s t') = None \<longrightarrow> lg_state (lgrd (lk_threads s t')) = WRITE_LOCKED \<longrightarrow>
       word_pos (lgrd (lk_threads s t')) \<noteq> word_pos (lgrd (lk_threads s t)))"
proof -
  have I: "lk_inv s" by (rule lk_inv_reach [OF assms(1,2)])
  define w where "w = word_pos (lgrd (lk_threads s t))"
  have wt: "pos_of s t = w" by (simp add: w_def pos_of_def)
  have W: "cell (table s) w = of_nat (clk s w)" "even (clk s w) \<longrightarrow> lk_data s w = lk_hist s w (clk s w)"
    "odd (clk s w) \<longleftrightarrow> (\<exists>t. whold (lk_threads s t) \<and> pos_of s t = w)"
    using lk_invD(1) [OF I] by (simp_all add: words_ok_def)
  have v: "cell (table s) w = lg_version (lgrd (lk_threads s t))" using assms(5) by (simp add: lock_validate_def w_def)
  have "even (lg_version (lgrd (lk_threads s t)))" using lk_invD(2) [OF I, of t] assms(3,4) by (simp add: lk_thread_ok_def)
  then have e: "even (clk s w)" unfolding v [symmetric] W(1) by simp
  have "unat (lg_version (lgrd (lk_threads s t))) = clk s w" using v [symmetric] W(1) assms(2) by (simp add: unat_of_nat)
  then have "\<forall>(r, x) \<in> set (lk_reads (lk_threads s t)). x = lk_data s w"
    using lk_invD(3) [OF I, of t] e W(2) wt by (fastforce simp: lk_reads_ok_def)
  moreover have "word_pos (lgrd (lk_threads s t')) \<noteq> w"
    if "lbusy (lk_threads s t') = None" "lg_state (lgrd (lk_threads s t')) = WRITE_LOCKED" for t'
    using lk_invD(2) [OF I, of t'] that e W(3) by (auto simp: lk_thread_ok_def pos_of_def)
  ultimately show ?thesis unfolding w_def by blast
qed

theorem validated_reads_consistent_witness:
  "\<exists>s :: nat lk_sys. lk_reach (\<lambda>_. 7) s \<and> lk_reads (lk_threads s 0) = [(0, 7)] \<and>
     lk_data s (word_pos (lgrd (lk_threads s 0))) = 7"
proof -
  let ?g = "\<lparr>word_pos = 5, lg_version = 0, lg_state = UNINITIALIZED\<rparr>" and ?r = "\<lparr>word_pos = 5, lg_version = 0, lg_state = READ_LOCKED\<rparr>"
  obtain s1 :: "nat lk_sys" where 1: "lk_step (lk_init (\<lambda>_. 7)) s1" "table s1 = OptimisticLockTable" "clk s1 = (\<lambda>_. 0)" "lk_data s1 = (\<lambda>_. 7)"
    "lbusy (lk_threads s1 0) = None" "lgrd (lk_threads s1 0) = ?g" "lk_reads (lk_threads s1 0) = []" using lk_open by blast
  have c: "map_prog id snd (read_lock ?g) \<in> set (lk_calls (lgrd (lk_threads s1 0)))" by (simp add: 1 lk_calls_def)
  obtain s2 where 2: "lk_step s1 s2" "table s2 = OptimisticLockTable" "clk s2 = (\<lambda>_. 0)" "lgrd (lk_threads s2 0) = ?g"
    "lk_data s2 = (\<lambda>_. 7)" "lk_reads (lk_threads s2 0) = []" "lbusy (lk_threads s2 0) = Some (map_prog id snd (read_lock ?g))"
    using lk_step_call [OF 1(5) c] 1 by auto
  have p: "astep OptimisticLockTable (map_prog id snd (read_lock ?g)) = Some (OptimisticLockTable, Done ?r)"
    by (simp add: read_lock_def OptimisticLockTable_def)
  obtain s3 where 3: "lk_step s2 s3" "table s3 = OptimisticLockTable" "clk s3 = (\<lambda>_. 0)" "lgrd (lk_threads s3 0) = ?g"
    "lk_data s3 = (\<lambda>_. 7)" "lk_reads (lk_threads s3 0) = []" "lbusy (lk_threads s3 0) = Some (Done ?r)"
    using lk_step_act [OF 2(7), unfolded 2(2), OF p refl] 2 by auto
  obtain s4 where 4: "lk_step s3 s4" "table s4 = OptimisticLockTable" "clk s4 = (\<lambda>_. 0)" "lgrd (lk_threads s4 0) = ?r"
    "lk_data s4 = (\<lambda>_. 7)" "lk_reads (lk_threads s4 0) = []" "lbusy (lk_threads s4 0) = None"
    using lk_step_return [OF 3(7)] 3 by auto
  let ?s = "set_lk_thread s4 0 ((lk_threads s4 0)\<lparr>lk_reads := (clk s4 5, lk_data s4 5) # lk_reads (lk_threads s4 0)\<rparr>)"
  have 5: "lk_step s4 ?s" by (rule lk_step.lk_read) (simp_all add: 4)
  have "lk_reach (\<lambda>_. 7) ?s" using 1(1) 2(1) 3(1) 4(1) 5 by (meson r_into_rtranclp rtranclp.rtrancl_into_rtrancl)
  then show ?thesis using validated_reads_consistent [of "\<lambda>_. 7" ?s 0] 4
    by (intro exI [of _ ?s]) (simp add: lock_validate_def OptimisticLockTable_def)
qed

text \<open>The word of the pessimistic lock after a number of read locks that no one released.\<close>

primrec read_locked :: "nat \<Rightarrow> nat memory \<Rightarrow> nat memory option" where
  "read_locked 0 m = Some m"
| "read_locked (Suc n) m =
     (case read_locked n m of
        Some m \<Rightarrow> (case run (do_read_lock 0) m of Some (Ret True, m) \<Rightarrow> Some m | _ \<Rightarrow> None)
      | None \<Rightarrow> None)"

lemma mask_shift: "kReadersMask = push_bit 56 (mask 8)"
  by (simp add: kReadersMask_def mask_eq_exp_minus_1)

lemma reader_word:
  "get_readers (push_bit 56 x) = unat x mod 256" "get_writer_version (push_bit 56 x) = 0"
proof -
  have "drop_bit 56 (push_bit 56 x AND kReadersMask) = take_bit 8 x"
    by (rule bit_word_eqI) (auto simp: mask_shift bit_simps)
  moreover have "uint (take_bit 8 x) = int (unat x mod 256)" by (simp add: unsigned_take_bit_eq) (simp add: take_bit_eq_mod zmod_int)
  moreover have "u16 (int (unat x mod 256)) = unat x mod 256"
    by (rule u16_of_nat) (rule less_le_trans [OF mod_less_divisor [of 256]], simp_all)
  ultimately show "get_readers (push_bit 56 x) = unat x mod 256" by (simp only: get_readers_def)
  have "push_bit 56 x AND NOT kReadersMask = 0" by (rule bit_word_eqI) (auto simp: mask_shift bit_simps)
  then show "get_writer_version (push_bit 56 x) = 0" by (simp add: get_writer_version_def u16_def)
qed

lemma read_locked_word:
  "n \<le> 256 \<Longrightarrow> \<exists>m. read_locked n OptimisticLockTable = Some m \<and> cell m 0 = push_bit 56 (of_nat n)"
proof (induction n)
  case (Suc n)
  then obtain m where m: "read_locked n OptimisticLockTable = Some m" "cell m 0 = push_bit 56 (of_nat n)" by auto
  have "unat (of_nat n :: u64) mod 256 = n" using Suc.prems by (simp add: unat_of_nat)
  then show ?case using m by (simp add: do_read_lock_def reader_word make_word_def add.commute)
qed (simp add: OptimisticLockTable_def)

text \<open>C37. The pessimistic guard counts its readers in eight bits without a check: after 256 successful read locks the count
  is zero again, and \<open>do_write_lock\<close> succeeds while all the readers still hold the lock.\<close>

theorem pessimistic_reader_overflow:
  "\<exists>m. read_locked 256 OptimisticLockTable = Some m \<and> (\<exists>m'. run (do_write_lock 0) m = Some (Ret True, m'))"
  proof -
  obtain m where m: "read_locked 256 OptimisticLockTable = Some m" "cell m 0 = push_bit 56 (of_nat 256)"
    using read_locked_word [of 256] by auto
  then show ?thesis using reader_word [of "of_nat 256"] by (simp add: do_write_lock_def)
qed

end
