(* ===== verification/Keys.thy ===== *)
theory Keys
  imports Prelude
begin

unbundle bit_operations_syntax

text \<open>
  Byte-string keys: the comparison \<open>BTreeNode::cmpKeys\<close>, the four-byte \<open>head\<close> that a slot caches,
  and the order-preserving encodings \<open>fold\<close>/\<open>unfold\<close> of BTreeAdapter.hpp. The order on keys is the
  library's lexicographic order on lists of bytes.
\<close>

section \<open>Comparison\<close>

text \<open>\<open>memcmp\<close> on two buffers of equal length: the difference of the first two bytes that differ.\<close>

fun memcmp :: "bytes \<Rightarrow> bytes \<Rightarrow> int" where
  "memcmp (x # xs) (y # ys) = (if x = y then memcmp xs ys else uint x - uint y)"
| "memcmp _ _ = 0"

text \<open>The byte loop that \<open>cmpKeys\<close> runs when fewer than four bytes are compared.\<close>

fun cmp_short :: "bytes \<Rightarrow> bytes \<Rightarrow> int option" where
  "cmp_short (x # xs) (y # ys) = (if x \<noteq> y then Some (if x < y then -1 else 1) else cmp_short xs ys)"
| "cmp_short _ _ = None"

definition cmpKeys :: "bytes \<Rightarrow> bytes \<Rightarrow> int" where
  "cmpKeys a b =
     (let n = min (length a) (length b) in
      if n < 4 then
        (case cmp_short (take n a) (take n b) of
           Some c \<Rightarrow> c
         | None \<Rightarrow> int (length a) - int (length b))
      else
        (let c = memcmp (take n a) (take n b) in
         if c \<noteq> 0 then c else int (length a) - int (length b)))"

lemma memcmp_sign:
  "length a = length b \<Longrightarrow>
     (memcmp a b < 0 \<longleftrightarrow> a < b) \<and> (memcmp a b = 0 \<longleftrightarrow> a = b) \<and> (0 < memcmp a b \<longleftrightarrow> b < a)"
proof (induction a b rule: memcmp.induct)
  case (1 x xs y ys)
  then show ?case by (auto simp: word_less_def word_uint_eq_iff)
qed (auto simp: length_0_conv)

lemma cmp_short_None: "length a = length b \<Longrightarrow> cmp_short a b = None \<longleftrightarrow> a = b"
  by (induction a b rule: cmp_short.induct) auto

lemma cmp_short_Some:
  "length a = length b \<Longrightarrow> cmp_short a b = Some c \<Longrightarrow> (c = -1 \<and> a < b) \<or> (c = 1 \<and> b < a)"
  by (induction a b rule: cmp_short.induct) (auto split: if_splits)

lemma lex_less_iff_take:
  assumes "n = min (length a) (length b)"
  shows "(a :: 'a::linorder list) < b \<longleftrightarrow>
     take n a < take n b \<or> (take n a = take n b \<and> length a < length b)"
  using assms
proof (induction a arbitrary: b n)
  case Nil
  then show ?case by (cases b) auto
next
  case (Cons x xs)
  show ?case
  proof (cases b)
    case (Cons y ys)
    have "xs < ys \<longleftrightarrow> take (min (length xs) (length ys)) xs < take (min (length xs) (length ys)) ys
      \<or> (take (min (length xs) (length ys)) xs = take (min (length xs) (length ys)) ys
         \<and> length xs < length ys)"
      by (rule Cons.IH) simp
    then show ?thesis using Cons.prems Cons by auto
  qed (use Cons.prems in simp)
qed

lemma cmpKeys_sign:
  "(cmpKeys a b < 0 \<longleftrightarrow> a < b) \<and> (cmpKeys a b = 0 \<longleftrightarrow> a = b) \<and> (0 < cmpKeys a b \<longleftrightarrow> b < a)"
proof -
  define n where "n = min (length a) (length b)"
  let ?a = "take n a" and ?b = "take n b"
  have len: "length ?a = length ?b" by (simp add: n_def)
  have ab: "a < b \<longleftrightarrow> ?a < ?b \<or> (?a = ?b \<and> length a < length b)"
    by (rule lex_less_iff_take) (simp add: n_def)
  have ba: "b < a \<longleftrightarrow> ?b < ?a \<or> (?b = ?a \<and> length b < length a)"
    by (rule lex_less_iff_take) (simp add: n_def min.commute)
  have eq: "a = b \<longleftrightarrow> ?a = ?b \<and> length a = length b"
    by (auto simp: n_def)
  have "(cmpKeys a b < 0 \<longleftrightarrow> ?a < ?b \<or> (?a = ?b \<and> length a < length b)) \<and>
        (0 < cmpKeys a b \<longleftrightarrow> ?b < ?a \<or> (?b = ?a \<and> length b < length a))"
  proof (cases "n < 4")
    case True
    then show ?thesis
      using cmp_short_None [OF len] cmp_short_Some [OF len]
      by (cases "cmp_short ?a ?b") (auto simp: cmpKeys_def Let_def n_def [symmetric])
  next
    case False
    then show ?thesis
      using memcmp_sign [OF len]
      by (auto simp: cmpKeys_def Let_def n_def [symmetric])
  qed
  then have lt: "cmpKeys a b < 0 \<longleftrightarrow> a < b" and gt: "0 < cmpKeys a b \<longleftrightarrow> b < a"
    using ab ba by blast+
  moreover have "cmpKeys a b = 0 \<longleftrightarrow> a = b"
    using lt gt by (metis linorder_cases less_irrefl)
  ultimately show ?thesis by blast
qed

lemma cmpKeys_less [simp]: "cmpKeys a b < 0 \<longleftrightarrow> a < b"
  and cmpKeys_eq [simp]: "cmpKeys a b = 0 \<longleftrightarrow> a = b"
  and cmpKeys_greater [simp]: "0 < cmpKeys a b \<longleftrightarrow> b < a"
  using cmpKeys_sign by blast+

lemma cmpKeys_le [simp]: "cmpKeys a b \<le> 0 \<longleftrightarrow> a \<le> b"
  using cmpKeys_greater [of a b] by (meson not_le)

section \<open>Common prefixes\<close>

text \<open>The loops of \<open>setFences\<close> and \<open>commonPrefix\<close>: the number of equal leading bytes.\<close>

fun common_len :: "bytes \<Rightarrow> bytes \<Rightarrow> nat" where
  "common_len (x # xs) (y # ys) = (if x = y then Suc (common_len xs ys) else 0)"
| "common_len _ _ = 0"

lemma common_len_le: "common_len a b \<le> length a \<and> common_len a b \<le> length b"
  by (induction a b rule: common_len.induct) auto

lemma common_len_take: "take (common_len a b) a = take (common_len a b) b"
  by (induction a b rule: common_len.induct) auto

lemma common_len_stop:
  "common_len a b < length a \<Longrightarrow> common_len a b < length b \<Longrightarrow> a ! common_len a b \<noteq> b ! common_len a b"
  by (induction a b rule: common_len.induct) auto

lemma common_len_greatest:
  "n \<le> length a \<Longrightarrow> n \<le> length b \<Longrightarrow> take n a = take n b \<Longrightarrow> n \<le> common_len a b"
proof (induction a b arbitrary: n rule: common_len.induct)
  case (1 x xs y ys)
  then show ?case by (cases n) auto
qed auto

text \<open>A key between two keys that share a prefix has that prefix: why a node may cut the common prefix
  of its fences off every key it stores.\<close>

lemma between_prefix:
  "(lo :: 'a::linorder list) < k \<Longrightarrow> k \<le> hi \<Longrightarrow> n \<le> length lo \<Longrightarrow> n \<le> length hi \<Longrightarrow> take n lo = take n hi \<Longrightarrow>
     n \<le> length k \<and> take n k = take n lo"
proof (induction n arbitrary: lo k hi)
  case (Suc n)
  obtain x lo' where lo: "lo = x # lo'" using Suc.prems(3) by (cases lo) auto
  obtain y hi' where hi: "hi = y # hi'" using Suc.prems(4) by (cases hi) auto
  have y: "y = x" and t: "take n lo' = take n hi'" using Suc.prems(5) lo hi by simp_all
  obtain z k' where k: "k = z # k'" using Suc.prems(1) by (cases k) auto
  have "x < z \<or> (x = z \<and> lo' < k')" using Suc.prems(1) lo k by simp
  moreover have "z < x \<or> (z = x \<and> k' \<le> hi')" using Suc.prems(2) hi k y by simp
  ultimately have z: "z = x" "lo' < k'" "k' \<le> hi'" by auto
  have "n \<le> length k' \<and> take n k' = take n lo'"
    by (rule Suc.IH [OF z(2,3) _ _ t]) (use Suc.prems(3,4) lo hi in simp_all)
  then show ?case using lo k z(1) by simp
qed simp

lemma append_less_cancel [simp]: "p @ a < p @ b \<longleftrightarrow> (a :: 'a::linorder list) < b"
  by (induction p) auto

section \<open>Heads\<close>

text \<open>A big-endian number read from memory: \<open>__builtin_bswap16\<close> and \<open>__builtin_bswap32\<close> of an unaligned
  little-endian load.\<close>

definition be16 :: "u8 \<Rightarrow> u8 \<Rightarrow> 16 word" where
  "be16 a b = word_rcat [a, b]"

definition be32 :: "u8 \<Rightarrow> u8 \<Rightarrow> u8 \<Rightarrow> u8 \<Rightarrow> u32" where
  "be32 a b c d = word_rcat [a, b, c, d]"

fun head :: "bytes \<Rightarrow> u32" where
  "head [] = 0"
| "head [a] = push_bit 24 (ucast a)"
| "head [a, b] = push_bit 16 (ucast (be16 a b))"
| "head [a, b, c] = push_bit 16 (ucast (be16 a b)) OR push_bit 8 (ucast c)"
| "head (a # b # c # d # _) = be32 a b c d"

text \<open>The number a byte string denotes, most significant byte first.\<close>

definition be_val :: "bytes \<Rightarrow> nat" where
  "be_val bs = foldl (\<lambda>a b. a * 256 + unat b) 0 bs"

lemma foldl_be: "foldl (\<lambda>a b. a * 256 + unat b) x bs = x * 256 ^ length bs + be_val (bs :: bytes)"
proof (induction bs arbitrary: x)
  case (Cons b bs)
  show ?case
    using Cons.IH [of "x * 256 + unat b"] Cons.IH [of "unat b"]
    by (simp add: be_val_def algebra_simps)
qed (simp add: be_val_def)

lemma be_val_Nil [simp]: "be_val [] = 0"
  by (simp add: be_val_def)

lemma be_val_Cons [simp]: "be_val (b # bs) = unat b * 256 ^ length bs + be_val bs"
  using foldl_be [of "unat b" bs] by (simp add: be_val_def)

lemma u8_less: "unat (b :: u8) < 256"
  using unsigned_less [of b, where ?'a = nat] by simp

lemma be_val_less: "be_val bs < 256 ^ length bs"
proof (induction bs)
  case (Cons b bs)
  have "unat b * 256 ^ length bs + be_val bs < (unat b + 1) * 256 ^ length bs"
    using Cons by (simp add: algebra_simps)
  also have "\<dots> \<le> 256 * 256 ^ length bs"
    using u8_less [of b] by (intro mult_right_mono) auto
  finally show ?case by simp
qed simp

lemma be_val_less_iff:
  "length a = length b \<Longrightarrow> be_val a < be_val b \<longleftrightarrow> a < b"
proof (induction a arbitrary: b)
  case (Cons x xs)
  then obtain y ys where b: "b = y # ys" and len: "length xs = length ys" by (cases b) auto
  let ?m = "256 ^ length ys :: nat"
  have lx: "be_val xs < ?m" and ly: "be_val ys < ?m"
    using be_val_less [of xs] be_val_less [of ys] len by simp_all
  consider "unat x < unat y" | "unat x = unat y" | "unat y < unat x" by linarith
  then show ?case
  proof cases
    case 1
    then have "(unat x + 1) * ?m \<le> unat y * ?m" by (intro mult_right_mono) auto
    then have "unat x * ?m + be_val xs < unat y * ?m + be_val ys" using lx by (simp add: algebra_simps)
    then show ?thesis using 1 b len by (simp add: word_less_nat_alt)
  next
    case 2
    then have "x = y" by (simp add: word_unat_eq_iff)
    then show ?thesis using Cons.IH [OF len] b len by simp
  next
    case 3
    then have "(unat y + 1) * ?m \<le> unat x * ?m" by (intro mult_right_mono) auto
    then have "\<not> unat x * ?m + be_val xs < unat y * ?m + be_val ys" using ly by (simp add: algebra_simps)
    then show ?thesis using 3 b len by (auto simp: word_less_nat_alt)
  qed
qed simp

lemma unat_word_rcat:
  assumes "8 * length bs \<le> LENGTH('b::len)"
  shows "unat (word_rcat (bs :: bytes) :: 'b word) = be_val bs"
proof -
  have h: "horner_sum uint (2 ^ 8) (rev bs) = int (be_val bs)" for bs :: bytes
  proof (induction bs)
    case (Cons b bs)
    then show ?case by (simp add: horner_sum_append power_mult [symmetric] algebra_simps)
  qed simp
  have "be_val bs < 2 ^ LENGTH('b)"
  proof -
    have "be_val bs < (2 ^ 8) ^ length bs" using be_val_less [of bs] by simp
    also have "\<dots> = 2 ^ (8 * length bs)" by (simp only: power_mult)
    also have "\<dots> \<le> 2 ^ LENGTH('b)" using assms by (intro power_increasing) auto
    finally show ?thesis .
  qed
  then show ?thesis using h [of bs] by (simp add: word_rcat_def unat_of_nat)
qed

text \<open>A head is the number of the first four bytes, with zero bytes after the end of the key.\<close>

definition pad4 :: "bytes \<Rightarrow> bytes" where
  "pad4 k = take 4 (k @ replicate 4 0)"

lemma length_pad4 [simp]: "length (pad4 k) = 4"
  by (simp add: pad4_def)

lemma pad4_simps:
  "pad4 [] = [0, 0, 0, 0]" "pad4 [a] = [a, 0, 0, 0]" "pad4 [a, b] = [a, b, 0, 0]"
  "pad4 [a, b, c] = [a, b, c, 0]" "pad4 (a # b # c # d # r) = [a, b, c, d]"
  by (simp_all add: pad4_def numeral_eq_Suc)

lemma unat_ucast_small:
  assumes "LENGTH('a) \<le> LENGTH('b)"
  shows "unat (ucast (w :: 'a::len word) :: 'b::len word) = unat w"
proof -
  have "unat w < 2 ^ LENGTH('a)" by simp
  also have "\<dots> \<le> 2 ^ LENGTH('b)" using assms by (intro power_increasing) auto
  finally show ?thesis by (simp add: unsigned_ucast_eq take_bit_nat_eq_self_iff)
qed

lemma unat_push_bit:
  assumes "unat w * 2 ^ n < 2 ^ LENGTH('a)"
  shows "unat (push_bit n (w :: 'a::len word)) = unat w * 2 ^ n"
proof -
  have "unat (push_bit n w) = take_bit LENGTH('a) (unat w * 2 ^ n)"
    by (subst unsigned_push_bit_eq) (simp only: push_bit_eq_mult)
  then show ?thesis using assms by (simp add: take_bit_nat_eq_self_iff)
qed

lemma unat_head: "unat (head k) = be_val (pad4 k)"
proof (cases k rule: head.cases)
  case 1
  then show ?thesis by (simp add: pad4_simps)
next
  case (2 a)
  have "unat (push_bit 24 (ucast a :: u32)) = unat a * 2 ^ 24"
    using u8_less [of a] by (subst unat_push_bit) (simp_all add: unat_ucast_small)
  then show ?thesis using 2 by (simp add: pad4_simps)
next
  case (3 a b)
  have w: "unat (be16 a b) = unat a * 256 + unat b"
    unfolding be16_def by (subst unat_word_rcat) simp_all
  have "unat (push_bit 16 (ucast (be16 a b) :: u32)) = unat (be16 a b) * 2 ^ 16"
    using unsigned_less [of "be16 a b", where ?'a = nat] by (subst unat_push_bit) (simp_all add: unat_ucast_small)
  then show ?thesis using 3 w by (simp add: pad4_simps algebra_simps)
next
  case (4 a b c)
  let ?x = "push_bit 16 (ucast (be16 a b) :: u32)" and ?y = "push_bit 8 (ucast c :: u32)"
  have w: "unat (be16 a b) = unat a * 256 + unat b"
    unfolding be16_def by (subst unat_word_rcat) simp_all
  have x: "unat ?x = unat (be16 a b) * 2 ^ 16"
    using unsigned_less [of "be16 a b", where ?'a = nat] by (subst unat_push_bit) (simp_all add: unat_ucast_small)
  have y: "unat ?y = unat c * 2 ^ 8"
    using u8_less [of c] by (subst unat_push_bit) (simp_all add: unat_ucast_small)
  have "?x AND ?y = 0"
    by (rule bit_word_eqI) (auto simp: bit_simps dest: bit_imp_le_length)
  then have "?x OR ?y = ?x + ?y" by (rule disjunctive_add_eq_or [symmetric])
  moreover have "unat (?x + ?y) = unat ?x + unat ?y"
    using x y w u8_less [of a] u8_less [of b] u8_less [of c] by (subst unat_add_lem [symmetric]) simp_all
  ultimately show ?thesis using 4 w x y by (simp add: pad4_simps algebra_simps)
next
  case (5 a b c d r)
  have "unat (be32 a b c d) = be_val [a, b, c, d]"
    unfolding be32_def by (subst unat_word_rcat) simp_all
  then show ?thesis using 5 by (simp add: pad4_simps)
qed

lemma head_less_iff: "head a < head b \<longleftrightarrow> pad4 a < pad4 b"
  by (simp add: word_less_nat_alt unat_head be_val_less_iff)

lemma head_eq_iff: "head a = head b \<longleftrightarrow> pad4 a = pad4 b"
  using head_less_iff [of a b] head_less_iff [of b a] by (metis linorder_cases less_irrefl)

text \<open>The three-way comparison through heads agrees with the order on keys; equal heads decide a
  comparison with a key of at most four bytes by length alone.\<close>

lemma padded_less:
  "take n (a @ replicate m 0) < take n (b @ replicate m' (0::u8)) \<Longrightarrow> n \<le> m \<Longrightarrow> n \<le> m' \<Longrightarrow> a < b"
proof (induction n arbitrary: a b m m')
  case (Suc n)
  obtain k k' where m: "m = Suc k" "m' = Suc k'" using Suc.prems(2,3) by (cases m; cases m') auto
  show ?case
  proof (cases a)
    case Nil
    then show ?thesis
    proof (cases b)
      case Nil
      have "take n (replicate k 0) = take n (replicate k' (0::u8))"
        using Suc.prems(2,3) m by simp
      with \<open>a = []\<close> Nil Suc.prems(1) m show ?thesis by simp
    qed simp
  next
    case (Cons x xs)
    show ?thesis
    proof (cases b)
      case Nil
      with Cons Suc.prems(1) m have "x = 0" "take n (xs @ replicate m 0) < take n ([] @ replicate k' 0)"
        by auto
      then have "xs < []" using Suc.IH [of xs m "[]" k'] Suc.prems(2,3) m by simp
      then show ?thesis by simp
    next
      case (Cons y ys)
      then show ?thesis
        using \<open>a = x # xs\<close> Suc.prems Suc.IH [of xs m ys m'] by auto
    qed
  qed
qed simp

lemma head_less_imp: "head a < head b \<Longrightarrow> a < b"
  using padded_less [of 4 a 4 b 4] unfolding head_less_iff pad4_def by simp

lemma head_mono: "a \<le> b \<Longrightarrow> head a \<le> head b"
  using head_less_imp [of b a] by (meson not_le)

lemma take_less_self: "n < length b \<Longrightarrow> take n b < (b :: 'a::linorder list)"
  by (induction b arbitrary: n) (auto simp: take_Cons split: nat.splits)

lemma head_eq_short:
  assumes h: "head a = head b" and b: "length b \<le> 4"
  shows "length a < length b \<Longrightarrow> a < b" and "length b < length a \<Longrightarrow> b < a"
    and "length a = length b \<Longrightarrow> a = b"
proof -
  have p: "take 4 (a @ replicate 4 0) = take 4 (b @ replicate 4 0)"
    using h by (simp add: head_eq_iff pad4_def)
  have t: "take m a = take m b" if "m \<le> length a" "m \<le> length b" for m
  proof -
    have "take m (take 4 (a @ replicate 4 0)) = take m (take 4 (b @ replicate 4 0))" using p by simp
    then show ?thesis using that b by (simp add: min_def)
  qed
  show "length a < length b \<Longrightarrow> a < b"
    using t [of "length a"] take_less_self [of "length a" b] by simp
  show "length b < length a \<Longrightarrow> b < a"
    using t [of "length b"] take_less_self [of "length b" a] by simp
  show "length a = length b \<Longrightarrow> a = b"
    using t [of "length b"] by simp
qed

section \<open>Order-preserving integer encodings\<close>

text \<open>
  \<open>fold\<close> stores the byte-swapped integer into little-endian memory, so its bytes are the big-endian
  digits; signed keys have their sign bit flipped first. \<open>unfold\<close> of the eight bytes loaded as a
  little-endian word is the big-endian value.
\<close>

definition be_bytes :: "nat \<Rightarrow> 'a::len word \<Rightarrow> bytes" where
  "be_bytes n x = map (\<lambda>i. ucast (drop_bit (8 * i) x)) (rev [0..<n])"

definition fold_u64 :: "u64 \<Rightarrow> bytes" where
  "fold_u64 x = be_bytes 8 x"

definition fold_u32 :: "u32 \<Rightarrow> bytes" where
  "fold_u32 x = be_bytes 4 x"

definition fold_s64 :: "u64 \<Rightarrow> bytes" where
  "fold_s64 x = be_bytes 8 (x XOR push_bit 63 1)"

definition fold_s32 :: "u32 \<Rightarrow> bytes" where
  "fold_s32 x = be_bytes 4 (x XOR push_bit 31 1)"

definition unfold_u64 :: "bytes \<Rightarrow> u64" where
  "unfold_u64 bs = word_rcat bs"

definition unfold_u32 :: "bytes \<Rightarrow> u32" where
  "unfold_u32 bs = word_rcat bs"

lemma length_be_bytes [simp]: "length (be_bytes n x) = n"
  by (simp add: be_bytes_def)

lemma be_val_be_bytes: "be_val (be_bytes n x) = unat x mod 256 ^ n"
proof (induction n)
  case 0
  then show ?case by (simp add: be_bytes_def)
next
  case (Suc n)
  let ?d = "ucast (drop_bit (8 * n) x) :: u8"
  have b: "be_bytes (Suc n) x = ?d # be_bytes n x" by (simp add: be_bytes_def)
  have "(2 :: nat) ^ (8 * n) = 256 ^ n" by (simp add: power_mult)
  then have d: "unat ?d = unat x div 256 ^ n mod 256"
    by (simp only: unsigned_ucast_eq unsigned_drop_bit_eq) (simp add: take_bit_eq_mod drop_bit_eq_div)
  have "unat x mod (256 ^ n * 256) = 256 ^ n * (unat x div 256 ^ n mod 256) + unat x mod 256 ^ n"
    by (rule mod_mult2_eq)
  then show ?case using Suc b d by (simp add: ac_simps)
qed

lemma unfold_fold_u64: "unfold_u64 (fold_u64 x) = x"
proof -
  have "unat (unfold_u64 (fold_u64 x)) = be_val (fold_u64 x)"
    unfolding unfold_u64_def by (rule unat_word_rcat) (simp add: fold_u64_def)
  also have "\<dots> = unat x mod 2 ^ 64" by (simp add: fold_u64_def be_val_be_bytes)
  also have "\<dots> = unat x" using unsigned_less [of x, where ?'a = nat] by (intro mod_less) simp
  finally show ?thesis by (simp add: word_unat_eq_iff)
qed

lemma unfold_fold_u32: "unfold_u32 (fold_u32 x) = x"
proof -
  have "unat (unfold_u32 (fold_u32 x)) = be_val (fold_u32 x)"
    unfolding unfold_u32_def by (rule unat_word_rcat) (simp add: fold_u32_def)
  also have "\<dots> = unat x mod 2 ^ 32" by (simp add: fold_u32_def be_val_be_bytes)
  also have "\<dots> = unat x" using unsigned_less [of x, where ?'a = nat] by (intro mod_less) simp
  finally show ?thesis by (simp add: word_unat_eq_iff)
qed

lemma be_bytes_less_iff:
  assumes "LENGTH('a) \<le> 8 * n"
  shows "be_bytes n (x :: 'a::len word) < be_bytes n y \<longleftrightarrow> x < y"
proof -
  have "unat z < 256 ^ n" for z :: "'a word"
  proof -
    have "unat z < 2 ^ LENGTH('a)" by simp
    also have "\<dots> \<le> 2 ^ (8 * n)" using assms by (intro power_increasing) auto
    finally show ?thesis by (simp add: power_mult)
  qed
  then show ?thesis
    by (simp add: be_val_less_iff [symmetric] be_val_be_bytes word_less_nat_alt)
qed

lemma length_fold_u64 [simp]: "length (fold_u64 x) = 8"
  by (simp add: fold_u64_def)

lemma fold_u64_less_iff [simp]: "fold_u64 x < fold_u64 y \<longleftrightarrow> x < y"
  by (simp add: fold_u64_def be_bytes_less_iff)

lemma fold_u64_inj [simp]: "fold_u64 x = fold_u64 y \<longleftrightarrow> x = y"
  by (metis unfold_fold_u64)

lemma fold_u64_le_iff [simp]: "fold_u64 x \<le> fold_u64 y \<longleftrightarrow> x \<le> y"
  by (auto simp: le_less)

text \<open>Flipping the sign bit maps the signed order to the unsigned one.\<close>

lemma uint_flip_sign:
  assumes n: "LENGTH('a) = Suc n"
  shows "uint (x XOR push_bit n 1 :: 'a::len word) = sint x + 2 ^ n"
proof -
  let ?b = "push_bit n 1 :: 'a word"
  have "?b + ?b = 2 ^ LENGTH('a)" unfolding n by (simp add: push_bit_of_1)
  also have "\<dots> = 0" by simp
  finally have b2: "?b + ?b = 0" .
  have flip: "x XOR ?b = x + ?b"
  proof (cases "bit x n")
    case False
    then have "x AND ?b = 0"
      by (intro bit_word_eqI) (auto simp: bit_simps)
    then show ?thesis by (simp add: disjunctive_add_eq_xor)
  next
    case True
    let ?y = "x XOR ?b"
    have "?y AND ?b = 0"
      using True by (intro bit_word_eqI) (auto simp: bit_simps)
    then have "?y + ?b = ?y XOR ?b" by (simp add: disjunctive_add_eq_xor)
    then have "?y + ?b = x" by (simp add: xor.assoc)
    then have "x + ?b = ?y + (?b + ?b)" by (metis add.assoc)
    then show ?thesis unfolding b2 by (simp only: add_0_right)
  qed
  have "uint ?b = 2 ^ n"
    using n by (subst unsigned_push_bit_eq) (simp add: take_bit_push_bit push_bit_of_1)
  then have "uint (x + ?b) = take_bit (Suc n) (uint x + 2 ^ n)"
    by (simp add: uint_word_ariths n take_bit_eq_mod)
  also have "\<dots> = sint x + 2 ^ n"
    using n by (simp add: sint_uint signed_take_bit_eq_take_bit_shift)
  finally show ?thesis using flip by simp
qed

lemma fold_s64_less_iff: "fold_s64 x < fold_s64 y \<longleftrightarrow> sint x < sint y"
  using uint_flip_sign [of 63 x] uint_flip_sign [of 63 y]
  by (simp add: fold_s64_def be_bytes_less_iff word_less_def)

lemma fold_s32_less_iff: "fold_s32 x < fold_s32 y \<longleftrightarrow> sint x < sint y"
  using uint_flip_sign [of 31 x] uint_flip_sign [of 31 y]
  by (simp add: fold_s32_def be_bytes_less_iff word_less_def)

section \<open>Properties\<close>

text \<open>C25. \<open>cmpKeys\<close> is a three-way comparison for the lexicographic order on byte strings: its sign says which
  key is smaller, and it is zero exactly on equal keys, on both the byte loop and the \<open>memcmp\<close> path.\<close>

theorem cmpKeys_is_lexicographic:
  "(cmpKeys a b < 0 \<longleftrightarrow> a < b) \<and> (cmpKeys a b = 0 \<longleftrightarrow> a = b) \<and> (cmpKeys a b > 0 \<longleftrightarrow> b < a)"
  by simp

text \<open>C24. The 64-bit key encoding \<open>fold\<close> is injective and order-preserving: comparing encoded keys bytewise is
  comparing the numbers, and \<open>unfold\<close> decodes every encoded key. The signed variants order by the signed value.\<close>

theorem fold_order_and_round_trip:
  "(fold_u64 x < fold_u64 y \<longleftrightarrow> x < y) \<and> unfold_u64 (fold_u64 x) = x \<and>
   (fold_s64 x < fold_s64 y \<longleftrightarrow> sint x < sint y)"
  by (simp add: unfold_fold_u64 fold_s64_less_iff)

text \<open>C23. The four-byte head that a slot caches decides a comparison whenever two heads differ, and for a stored key
  of at most four bytes with the head of the search key, the key lengths decide it. This is what lets
  \<open>lowerBound\<close> skip \<open>cmpKeys\<close>.\<close>

theorem head_decides:
  "(head a < head b \<longrightarrow> a < b) \<and>
   (head a = head b \<and> length b \<le> 4 \<longrightarrow>
      (a < b \<longleftrightarrow> length a < length b) \<and> (a = b \<longleftrightarrow> length a = length b))"
  using head_less_imp [of a b] head_eq_short [of a b] by (metis less_asym nat_neq_iff less_irrefl)

theorem head_decides_witness:
  "([1, 2, 3, 4, 5] :: bytes) < [1, 2, 3, 5] \<and> ([1, 2] :: bytes) < [1, 2, 0]"
  using head_decides [of "[1, 2, 3, 4, 5]" "[1, 2, 3, 5]"] head_decides [of "[1, 2]" "[1, 2, 0]"]
  by (simp add: head_less_iff head_eq_iff pad4_def)

end
