(* ===== verification/BTreeNode.thy ===== *)
theory BTreeNode
  imports Keys
begin

text \<open>
  The slotted page \<open>BTreeNode\<close> of storage/btree/core/BTreeNode.hpp and BTreeNode.cpp: header fields,
  slot array, search hints and the key/payload heap that grows down from the end of the page.
  A node is a record whose \<open>slot\<close> and \<open>page\<close> fields are the two overlaid arrays of the page: the
  slot array as structured values and the heap as bytes. The well-formedness predicate \<open>layout\<close>
  keeps every heap byte in use above the end of the slot array, so the two views never overlap.
  Memory that a C++ constructor leaves uninitialised is zero in the model; nothing reads it.
\<close>

section \<open>Data\<close>

text \<open>\<open>PAGE_SIZE\<close> is 16 KiB and a page header takes 32 bytes (BufferFrame.hpp).\<close>

definition EFFECTIVE_PAGE_SIZE :: nat where [simp]: "EFFECTIVE_PAGE_SIZE = 16384 - 32"

text \<open>The packed \<open>Slot\<close> has 2 + 2 + 2 + 4 bytes. The data members of \<open>BTreeNodeHeader\<close> end at byte 92
  (8 + 4 + 4 + 2 + 1 + 1 + 2 + 2 + 2 + 2 + 64); the byte-aligned slot array of the derived class
  starts there, in the tail padding of its non-POD base.\<close>

definition SIZEOF_SLOT :: nat where [simp]: "SIZEOF_SLOT = 10"
definition SLOT_BASE :: nat where [simp]: "SLOT_BASE = 92"
definition hint_count :: nat where [simp]: "hint_count = 16"

text \<open>\<open>EFFECTIVE_PAGE_SIZE * 0.6\<close>, truncated.\<close>

definition underFullSize :: nat where [simp]: "underFullSize = 9811"

record FenceKey =
  f_offset :: nat
  f_length :: nat

record Slot =
  s_offset :: nat
  s_key_len :: nat
  s_payload_len :: nat
  s_head :: u32

record btree_node =
  upper :: u64
  lower_fence :: FenceKey
  upper_fence :: FenceKey
  count :: nat
  is_leaf :: bool
  space_used :: nat
  data_offset :: nat
  prefix_length :: nat
  hint :: "nat \<Rightarrow> u32"
  slot :: "nat \<Rightarrow> Slot"
  page :: mem

record SeparatorInfo =
  sep_length :: nat
  sep_slot :: nat
  sep_trunc :: bool

text \<open>The constructor \<open>BTreeNode(bool is_leaf)\<close> with the member initialisers of the header.\<close>

definition new_node :: "bool \<Rightarrow> btree_node" where
  "new_node leaf =
     \<lparr> upper = 0,
       lower_fence = \<lparr>f_offset = 0, f_length = 0\<rparr>,
       upper_fence = \<lparr>f_offset = 0, f_length = 0\<rparr>,
       count = 0, is_leaf = leaf, space_used = 0,
       data_offset = EFFECTIVE_PAGE_SIZE, prefix_length = 0,
       hint = (\<lambda>_. 0),
       slot = (\<lambda>_. \<lparr>s_offset = 0, s_key_len = 0, s_payload_len = 0, s_head = 0\<rparr>),
       page = (\<lambda>_. 0) \<rparr>"

section \<open>Accessors and space accounting\<close>

definition getLowerFenceKey :: "btree_node \<Rightarrow> bytes option" where
  "getLowerFenceKey n =
     (if f_offset (lower_fence n) \<noteq> 0
      then Some (read_mem (page n) (f_offset (lower_fence n)) (f_length (lower_fence n))) else None)"

definition getUpperFenceKey :: "btree_node \<Rightarrow> bytes option" where
  "getUpperFenceKey n =
     (if f_offset (upper_fence n) \<noteq> 0
      then Some (read_mem (page n) (f_offset (upper_fence n)) (f_length (upper_fence n))) else None)"

text \<open>\<open>slot + k\<close> as a byte offset from the start of the page.\<close>

definition slots_end :: "nat \<Rightarrow> nat" where
  "slots_end k = SLOT_BASE + SIZEOF_SLOT * k"

definition freeSpace :: "btree_node \<Rightarrow> nat" where
  "freeSpace n = u16 (int (data_offset n) - int (slots_end (count n)))"

definition freeSpaceAfterCompaction :: "btree_node \<Rightarrow> nat" where
  "freeSpaceAfterCompaction n =
     u16 (int EFFECTIVE_PAGE_SIZE - int (slots_end (count n)) - int (space_used n))"

definition hasEnoughSpaceFor :: "btree_node \<Rightarrow> nat \<Rightarrow> bool" where
  "hasEnoughSpaceFor n space_needed \<longleftrightarrow>
     space_needed \<le> freeSpace n \<or> space_needed \<le> freeSpaceAfterCompaction n"

text \<open>The bytes of slot \<open>i\<close>: the key without the node's prefix, then the payload.\<close>

definition getKey :: "btree_node \<Rightarrow> nat \<Rightarrow> bytes" where
  "getKey n i = read_mem (page n) (s_offset (slot n i)) (s_key_len (slot n i))"

definition getKeyLen :: "btree_node \<Rightarrow> nat \<Rightarrow> nat" where
  "getKeyLen n i = s_key_len (slot n i)"

definition getFullKeyLen :: "btree_node \<Rightarrow> nat \<Rightarrow> nat" where
  "getFullKeyLen n i = u16 (int (prefix_length n) + int (getKeyLen n i))"

definition getPayloadLength :: "btree_node \<Rightarrow> nat \<Rightarrow> nat" where
  "getPayloadLength n i = s_payload_len (slot n i)"

definition getPayload :: "btree_node \<Rightarrow> nat \<Rightarrow> bytes" where
  "getPayload n i =
     read_mem (page n) (s_offset (slot n i) + s_key_len (slot n i)) (s_payload_len (slot n i))"

text \<open>The prefix is read from the lower fence key, which starts with it.\<close>

definition getPrefix :: "btree_node \<Rightarrow> bytes" where
  "getPrefix n = read_mem (page n) (f_offset (lower_fence n)) (prefix_length n)"

definition copyFullKey :: "btree_node \<Rightarrow> nat \<Rightarrow> bytes" where
  "copyFullKey n i = getPrefix n @ getKey n i"

definition spaceNeeded :: "btree_node \<Rightarrow> nat \<Rightarrow> nat \<Rightarrow> nat" where
  "spaceNeeded n key_len payload_len =
     u16 (int SIZEOF_SLOT + (int key_len - int (prefix_length n)) + int payload_len)"

definition canInsert :: "btree_node \<Rightarrow> nat \<Rightarrow> nat \<Rightarrow> bool" where
  "canInsert n key_len payload_len = hasEnoughSpaceFor n (spaceNeeded n key_len payload_len)"

definition compareKeyWithBoundaries :: "btree_node \<Rightarrow> bytes \<Rightarrow> int" where
  "compareKeyWithBoundaries n key =
     (if (case getLowerFenceKey n of Some lf \<Rightarrow> \<not> cmpKeys key lf > 0 | None \<Rightarrow> False) then 1
      else if (case getUpperFenceKey n of Some uf \<Rightarrow> \<not> cmpKeys key uf \<le> 0 | None \<Rightarrow> False) then -1
      else 0)"

section \<open>Search\<close>

text \<open>The two loops of \<open>searchHint\<close>.\<close>

function hint_pos :: "(nat \<Rightarrow> u32) \<Rightarrow> u32 \<Rightarrow> nat \<Rightarrow> nat" where
  "hint_pos h keyHead pos = (if pos < hint_count \<and> \<not> h pos \<ge> keyHead then hint_pos h keyHead (pos + 1) else pos)"
  by pat_completeness auto
termination by (relation "measure (\<lambda>(h, k, pos). hint_count - pos)") auto

function hint_pos2 :: "(nat \<Rightarrow> u32) \<Rightarrow> u32 \<Rightarrow> nat \<Rightarrow> nat" where
  "hint_pos2 h keyHead pos2 = (if pos2 < hint_count \<and> h pos2 = keyHead then hint_pos2 h keyHead (pos2 + 1) else pos2)"
  by pat_completeness auto
termination by (relation "measure (\<lambda>(h, k, pos). hint_count - pos)") auto

declare hint_pos.simps [simp del] hint_pos2.simps [simp del]

definition searchHint :: "btree_node \<Rightarrow> u32 \<Rightarrow> nat \<times> nat" where
  "searchHint n keyHead = (let pos = hint_pos (hint n) keyHead 0 in (pos, hint_pos2 (hint n) keyHead pos))"

text \<open>The binary search of \<open>lowerBound\<close>: \<open>Inl mid\<close> is the early return at an equal key, \<open>Inr lower\<close> the end
  of the loop.\<close>

function lowerBound_loop :: "btree_node \<Rightarrow> bytes \<Rightarrow> u32 \<Rightarrow> nat \<Rightarrow> nat \<Rightarrow> nat + nat" where
  "lowerBound_loop n key keyHead lo hi =
     (if lo < hi then
        (let mid = (hi - lo) div 2 + lo; s = slot n mid in
         if keyHead < s_head s then lowerBound_loop n key keyHead lo mid
         else if keyHead > s_head s then lowerBound_loop n key keyHead (mid + 1) hi
         else if s_key_len s \<le> 4 then
           (if length key < s_key_len s then lowerBound_loop n key keyHead lo mid
            else if length key > s_key_len s then lowerBound_loop n key keyHead (mid + 1) hi
            else Inl mid)
         else
           (let cmp = cmpKeys key (getKey n mid) in
            if cmp < 0 then lowerBound_loop n key keyHead lo mid
            else if cmp > 0 then lowerBound_loop n key keyHead (mid + 1) hi
            else Inl mid))
      else Inr lo)"
  by pat_completeness auto
termination by (relation "measure (\<lambda>(n, k, h, lo, hi). hi - lo)") auto

declare lowerBound_loop.simps [simp del]

definition lowerBound_range :: "btree_node \<Rightarrow> u32 \<Rightarrow> nat \<times> nat" where
  "lowerBound_range n keyHead =
     (if count n > hint_count * 2 then
        (let dist = count n div (hint_count + 1); (pos, pos2) = searchHint n keyHead in
         (pos * dist, if pos2 < hint_count then (pos2 + 1) * dist else count n))
      else (0, count n))"

text \<open>The result is the position and the value of \<open>*is_equal\<close>, which only leaves set.\<close>

definition lowerBound :: "bool \<Rightarrow> btree_node \<Rightarrow> bytes \<Rightarrow> int \<times> bool" where
  "lowerBound equalityOnly n key =
     (let p = prefix_length n; prefixCmp = cmpKeys (take (min (length key) p) key) (getPrefix n) in
      if equalityOnly \<and> (length key < p \<or> take p key \<noteq> getPrefix n) then (-1, False)
      else if \<not> equalityOnly \<and> prefixCmp < 0 then (0, False)
      else if \<not> equalityOnly \<and> prefixCmp > 0 then (int (count n), False)
      else
        (let key' = drop p key; keyHead = head key'; (lo, hi) = lowerBound_range n keyHead in
         case lowerBound_loop n key' keyHead lo hi of
           Inl mid \<Rightarrow> (int mid, is_leaf n)
         | Inr lo' \<Rightarrow> (if equalityOnly then -1 else int lo', False)))"

text \<open>The child swip stored as the payload of an inner node's slot: eight bytes, little-endian.\<close>

definition swip_bytes :: "u64 \<Rightarrow> bytes" where
  "swip_bytes w = rev (be_bytes 8 w)"

definition swip_of_bytes :: "bytes \<Rightarrow> u64" where
  "swip_of_bytes bs = word_rcat (rev bs)"

definition getChild :: "btree_node \<Rightarrow> nat \<Rightarrow> u64" where
  "getChild n i = swip_of_bytes (read_mem (page n) (s_offset (slot n i) + s_key_len (slot n i)) 8)"

definition lookupInner :: "btree_node \<Rightarrow> bytes \<Rightarrow> u64" where
  "lookupInner n key =
     (let pos = fst (lowerBound False n key) in
      if pos = int (count n) then upper n else getChild n (nat pos))"

lemma swip_round_trip: "swip_of_bytes (swip_bytes w) = w"
  using unfold_fold_u64 [of w] by (simp add: swip_of_bytes_def swip_bytes_def unfold_u64_def fold_u64_def)

section \<open>Well-formed nodes and their contents\<close>

definition slots :: "btree_node \<Rightarrow> Slot list" where
  "slots n = map (slot n) [0..<count n]"

definition slot_size :: "Slot \<Rightarrow> nat" where
  "slot_size s = s_key_len s + s_payload_len s"

definition slot_key :: "btree_node \<Rightarrow> Slot \<Rightarrow> bytes" where
  "slot_key n s = read_mem (page n) (s_offset s) (s_key_len s)"

definition slot_payload :: "btree_node \<Rightarrow> Slot \<Rightarrow> bytes" where
  "slot_payload n s = read_mem (page n) (s_offset s + s_key_len s) (s_payload_len s)"

definition entry :: "btree_node \<Rightarrow> Slot \<Rightarrow> bytes \<times> bytes" where
  "entry n s = (getPrefix n @ slot_key n s, slot_payload n s)"

text \<open>The abstract value of a node: its full keys and payloads in slot order.\<close>

definition content :: "btree_node \<Rightarrow> (bytes \<times> bytes) list" where
  "content n = map (entry n) (slots n)"

definition keys :: "btree_node \<Rightarrow> bytes list" where
  "keys n = map fst (content n)"

definition slot_disjoint :: "Slot \<Rightarrow> Slot \<Rightarrow> bool" where
  "slot_disjoint s t \<longleftrightarrow>
     s_offset s + slot_size s \<le> s_offset t \<or> s_offset t + slot_size t \<le> s_offset s"

definition fence_disjoint :: "FenceKey \<Rightarrow> Slot \<Rightarrow> bool" where
  "fence_disjoint f s \<longleftrightarrow>
     f_offset f + f_length f \<le> s_offset s \<or> s_offset s + slot_size s \<le> f_offset f"

text \<open>An absent fence has offset and length 0.\<close>

definition fence_ok :: "btree_node \<Rightarrow> FenceKey \<Rightarrow> bool" where
  "fence_ok n f \<longleftrightarrow>
     (f_offset f = 0 \<and> f_length f = 0) \<or>
     (data_offset n \<le> f_offset f \<and> f_offset f + f_length f \<le> EFFECTIVE_PAGE_SIZE)"

definition slot_ok :: "btree_node \<Rightarrow> Slot \<Rightarrow> bool" where
  "slot_ok n s \<longleftrightarrow>
     data_offset n \<le> s_offset s \<and> s_offset s + slot_size s \<le> EFFECTIVE_PAGE_SIZE \<and>
     s_head s = head (slot_key n s) \<and>
     fence_disjoint (lower_fence n) s \<and> fence_disjoint (upper_fence n) s"

text \<open>The page layout, for the slots \<open>ss\<close> in use.\<close>

definition layout :: "Slot list \<Rightarrow> btree_node \<Rightarrow> bool" where
  "layout ss n \<longleftrightarrow>
     slots_end (length ss) \<le> data_offset n \<and> data_offset n \<le> EFFECTIVE_PAGE_SIZE \<and>
     (\<forall>s \<in> set ss. slot_ok n s) \<and> sorted_wrt slot_disjoint ss \<and>
     fence_ok n (lower_fence n) \<and> fence_ok n (upper_fence n) \<and>
     space_used n = f_length (lower_fence n) + f_length (upper_fence n) + sum_list (map slot_size ss) \<and>
     space_used n + data_offset n \<le> EFFECTIVE_PAGE_SIZE"

definition prefix_ok :: "btree_node \<Rightarrow> bool" where
  "prefix_ok n \<longleftrightarrow>
     (case (getLowerFenceKey n, getUpperFenceKey n) of
        (Some l, Some u) \<Rightarrow> prefix_length n = common_len l u
      | _ \<Rightarrow> prefix_length n = 0)"

text \<open>Keys of a node lie above its lower fence and up to and including its upper fence.\<close>

definition above :: "bytes option \<Rightarrow> bytes \<Rightarrow> bool" where
  "above lo k \<longleftrightarrow> (case lo of Some l \<Rightarrow> l < k | None \<Rightarrow> True)"

definition upto :: "bytes option \<Rightarrow> bytes \<Rightarrow> bool" where
  "upto hi k \<longleftrightarrow> (case hi of Some u \<Rightarrow> k \<le> u | None \<Rightarrow> True)"

definition in_fences :: "btree_node \<Rightarrow> bytes \<Rightarrow> bool" where
  "in_fences n k \<longleftrightarrow> above (getLowerFenceKey n) k \<and> upto (getUpperFenceKey n) k"

definition hint_ok :: "btree_node \<Rightarrow> bool" where
  "hint_ok n \<longleftrightarrow>
     (count n > hint_count * 2 \<longrightarrow>
       (\<forall>i \<in> {0..<hint_count}. hint n i = s_head (slot n (count n div (hint_count + 1) * (i + 1)))))"

definition wf_node :: "btree_node \<Rightarrow> bool" where
  "wf_node n \<longleftrightarrow>
     layout (slots n) n \<and> prefix_ok n \<and> sorted_wrt (<) (keys n) \<and>
     (\<forall>k \<in> set (keys n). in_fences n k) \<and> hint_ok n"

lemma compareKeyWithBoundaries_0: "compareKeyWithBoundaries n k = 0 \<longleftrightarrow> in_fences n k"
  by (auto simp: compareKeyWithBoundaries_def in_fences_def above_def upto_def not_less
        split: option.splits)

lemma length_slots [simp]: "length (slots n) = count n"
  by (simp add: slots_def)

lemma length_content [simp]: "length (content n) = count n"
  by (simp add: content_def)

lemma length_keys [simp]: "length (keys n) = count n"
  by (simp add: keys_def)

lemma length_getPrefix [simp]: "length (getPrefix n) = prefix_length n"
  by (simp add: getPrefix_def)

lemma slots_nth [simp]: "i < count n \<Longrightarrow> slots n ! i = slot n i"
  by (simp add: slots_def)

lemma content_nth: "i < count n \<Longrightarrow> content n ! i = (copyFullKey n i, getPayload n i)"
  by (simp add: content_def slots_def entry_def copyFullKey_def getKey_def slot_key_def
      getPayload_def slot_payload_def)

lemma keys_nth: "i < count n \<Longrightarrow> keys n ! i = getPrefix n @ getKey n i"
  by (simp add: keys_def content_nth copyFullKey_def)

lemma wf_node_layout: "wf_node n \<Longrightarrow> layout (slots n) n"
  by (simp add: wf_node_def)

lemma wf_slot_ok:
  assumes "wf_node n" "i < count n"
  shows "slot_ok n (slot n i)"
proof -
  have "slots n ! i \<in> set (slots n)" using assms(2) by (intro nth_mem) simp
  then show ?thesis using assms by (simp add: wf_node_def layout_def)
qed

lemma wf_head: "wf_node n \<Longrightarrow> i < count n \<Longrightarrow> s_head (slot n i) = head (getKey n i)"
  using wf_slot_ok [of n i] by (simp add: slot_ok_def slot_key_def getKey_def)

lemma wf_getKey_less:
  assumes "wf_node n" "i < j" "j < count n"
  shows "getKey n i < getKey n j"
proof -
  have "keys n ! i < keys n ! j"
    using assms by (auto simp: wf_node_def sorted_wrt_iff_nth_less)
  then show ?thesis using assms by (simp add: keys_nth)
qed

lemma wf_count_bound: "wf_node n \<Longrightarrow> slots_end (count n) \<le> data_offset n \<and> data_offset n \<le> EFFECTIVE_PAGE_SIZE"
  by (simp add: wf_node_def layout_def)

section \<open>Correctness of the search\<close>

lemma hint_pos_spec:
  "pos \<le> hint_count \<Longrightarrow> (\<forall>i<pos. h i < k) \<Longrightarrow>
     hint_pos h k pos \<le> hint_count \<and> (\<forall>i < hint_pos h k pos. h i < k) \<and>
     (hint_pos h k pos < hint_count \<longrightarrow> k \<le> h (hint_pos h k pos))"
proof (induction h k pos rule: hint_pos.induct)
  case (1 h k pos)
  show ?case
  proof (cases "pos < hint_count \<and> \<not> h pos \<ge> k")
    case True
    then have "hint_pos h k pos = hint_pos h k (pos + 1)" by (subst hint_pos.simps) simp
    moreover have "pos + 1 \<le> hint_count" "\<forall>i<pos + 1. h i < k"
      using True 1(3) by (auto simp: less_Suc_eq)
    ultimately show ?thesis using "1.IH" [OF True] by simp
  next
    case False
    then have "hint_pos h k pos = pos" by (subst hint_pos.simps) auto
    then show ?thesis using 1(2,3) False by auto
  qed
qed

lemma hint_pos2_spec:
  "pos \<le> hint_count \<Longrightarrow>
     pos \<le> hint_pos2 h k pos \<and> hint_pos2 h k pos \<le> hint_count \<and>
     (hint_pos2 h k pos < hint_count \<longrightarrow> h (hint_pos2 h k pos) \<noteq> k)"
proof (induction h k pos rule: hint_pos2.induct)
  case (1 h k pos)
  show ?case
  proof (cases "pos < hint_count \<and> h pos = k")
    case True
    then have "hint_pos2 h k pos = hint_pos2 h k (pos + 1)" by (subst hint_pos2.simps) simp
    then show ?thesis using "1.IH" [OF True] True by simp
  next
    case False
    then have "hint_pos2 h k pos = pos" by (subst hint_pos2.simps) auto
    then show ?thesis using 1(2) False by auto
  qed
qed

text \<open>What both the hints and the binary search maintain: everything before \<open>lo\<close> is smaller than the key,
  everything from \<open>hi\<close> on is greater.\<close>

definition bracket :: "btree_node \<Rightarrow> bytes \<Rightarrow> nat \<Rightarrow> nat \<Rightarrow> bool" where
  "bracket n key lo hi \<longleftrightarrow> hi \<le> count n \<and>
     (\<forall>i<lo. i < count n \<longrightarrow> getKey n i < key) \<and> (\<forall>i. hi \<le> i \<longrightarrow> i < count n \<longrightarrow> key < getKey n i)"

lemma bracket_low:
  assumes wf: "wf_node n" and b: "bracket n key lo hi" and m: "m < count n" "getKey n m < key"
  shows "bracket n key (m + 1) hi"
proof -
  have "getKey n i < key" if "i < m + 1" for i
    using wf_getKey_less [OF wf _ m(1), of i] m(2) that by (cases "i = m") auto
  then show ?thesis using b by (auto simp: bracket_def)
qed

lemma bracket_high:
  assumes wf: "wf_node n" and b: "bracket n key lo hi" and m: "m < count n" "key < getKey n m"
  shows "bracket n key lo m"
proof -
  have "key < getKey n i" if "m \<le> i" "i < count n" for i
    using wf_getKey_less [OF wf _ that(2), of m] m(2) that by (cases "i = m") auto
  then show ?thesis using b m by (auto simp: bracket_def)
qed

lemma lowerBound_range_bracket:
  assumes wf: "wf_node n" and r: "lowerBound_range n (head key) = (lo, hi)"
  shows "bracket n key lo hi \<and> lo \<le> hi"
proof (cases "count n > hint_count * 2")
  case False
  then show ?thesis using r by (auto simp: lowerBound_range_def bracket_def)
next
  case True
  define dist where "dist = count n div 17"
  define pos where "pos = hint_pos (hint n) (head key) 0"
  define pos2 where "pos2 = hint_pos2 (hint n) (head key) pos"
  have lohi: "lo = pos * dist" "hi = (if pos2 < 16 then (pos2 + 1) * dist else count n)"
    using r True
    by (auto simp: lowerBound_range_def searchHint_def Let_def dist_def pos_def pos2_def split: if_splits)
  have p1: "pos \<le> 16" "\<forall>i<pos. hint n i < head key" "pos < 16 \<longrightarrow> head key \<le> hint n pos"
    using hint_pos_spec [of 0 "hint n" "head key"] by (simp_all add: pos_def)
  have p2: "pos \<le> pos2" "pos2 \<le> 16" "pos2 < 16 \<longrightarrow> hint n pos2 \<noteq> head key"
    using hint_pos2_spec [of pos "hint n" "head key"] p1(1) by (simp_all add: pos2_def)
  have d: "0 < dist" "dist * 17 \<le> count n" using True by (auto simp: dist_def div_greater_zero_iff)
  have idx: "dist * (i + 1) < count n" if "i < 16" for i
  proof -
    have "dist * (i + 1) \<le> dist * 16" using that by simp
    then show ?thesis using d by linarith
  qed
  have h: "hint n i = head (getKey n (dist * (i + 1)))" if "i < 16" for i
    using wf True that wf_head [OF wf idx [OF that]] by (simp add: wf_node_def hint_ok_def dist_def)
  have low: "bracket n key lo (count n)"
  proof (cases pos)
    case 0
    then show ?thesis using lohi by (simp add: bracket_def)
  next
    case (Suc q)
    then have "head (getKey n (dist * (q + 1))) < head key" using p1 h [of q] by auto
    then have "getKey n (dist * (q + 1)) < key" by (rule head_less_imp)
    then have "bracket n key (dist * (q + 1) + 1) (count n)"
      using Suc p1(1) idx [of q] by (intro bracket_low [OF wf, of key 0]) (auto simp: bracket_def)
    then show ?thesis using lohi(1) Suc by (auto simp: bracket_def mult.commute)
  qed
  show ?thesis
  proof (cases "pos2 < 16")
    case True
    have "hint n pos \<le> hint n pos2"
    proof (cases "pos = pos2")
      case False
      then have "dist * (pos + 1) < dist * (pos2 + 1)" using p2 d by simp
      then have "getKey n (dist * (pos + 1)) < getKey n (dist * (pos2 + 1))"
        by (rule wf_getKey_less [OF wf _ idx [OF True]])
      then show ?thesis using h [of pos] h [of pos2] True p2(1) head_mono by (simp add: less_imp_le)
    qed simp
    then have "head key < head (getKey n (dist * (pos2 + 1)))"
      using p1(3) p2 True h [of pos2] by (metis le_less_trans le_neq_trans order.trans)
    then have "key < getKey n (dist * (pos2 + 1))" by (rule head_less_imp)
    then have "bracket n key lo (dist * (pos2 + 1))"
      by (rule bracket_high [OF wf low idx [OF True]])
    moreover have "pos * dist \<le> (pos2 + 1) * dist" using p2 by (intro mult_right_mono) auto
    ultimately show ?thesis using lohi True by (simp add: mult.commute)
  next
    case False
    have "pos * dist \<le> 16 * dist" using p1 by (intro mult_right_mono) auto
    then have "lo \<le> count n" using lohi(1) d by linarith
    then show ?thesis using low lohi(2) False by simp
  qed
qed

text \<open>The comparisons that the loop makes with a slot, through the cached head where it can, are the
  comparisons of the keys.\<close>

lemma take_less_imp_less: "take n a < take n b \<Longrightarrow> (a :: 'a::linorder list) < b"
proof (induction n arbitrary: a b)
  case (Suc n)
  then show ?case by (cases a; cases b) auto
qed simp

lemma slot_compare:
  assumes wf: "wf_node n" and m: "m < count n"
  defines "s \<equiv> slot n m"
  shows "head key < s_head s \<Longrightarrow> key < getKey n m"
    and "head key > s_head s \<Longrightarrow> getKey n m < key"
    and "head key = s_head s \<Longrightarrow> s_key_len s \<le> 4 \<Longrightarrow> length key < s_key_len s \<Longrightarrow> key < getKey n m"
    and "head key = s_head s \<Longrightarrow> s_key_len s \<le> 4 \<Longrightarrow> length key > s_key_len s \<Longrightarrow> getKey n m < key"
    and "head key = s_head s \<Longrightarrow> s_key_len s \<le> 4 \<Longrightarrow> length key = s_key_len s \<Longrightarrow> key = getKey n m"
proof -
  have h: "s_head s = head (getKey n m)" using wf_head [OF wf m] by (simp add: s_def)
  have l: "length (getKey n m) = s_key_len s" by (simp add: getKey_def s_def)
  show "head key < s_head s \<Longrightarrow> key < getKey n m" "head key > s_head s \<Longrightarrow> getKey n m < key"
    using h head_less_imp by simp_all
  show "head key = s_head s \<Longrightarrow> s_key_len s \<le> 4 \<Longrightarrow> length key < s_key_len s \<Longrightarrow> key < getKey n m"
    "head key = s_head s \<Longrightarrow> s_key_len s \<le> 4 \<Longrightarrow> length key > s_key_len s \<Longrightarrow> getKey n m < key"
    "head key = s_head s \<Longrightarrow> s_key_len s \<le> 4 \<Longrightarrow> length key = s_key_len s \<Longrightarrow> key = getKey n m"
    using h l head_eq_short [of key "getKey n m"] by simp_all
qed

definition found_at :: "btree_node \<Rightarrow> bytes \<Rightarrow> nat + nat \<Rightarrow> bool" where
  "found_at n key r \<longleftrightarrow>
     (case r of Inl m \<Rightarrow> m < count n \<and> getKey n m = key | Inr l \<Rightarrow> l \<le> count n \<and> bracket n key l l)"

lemma lowerBound_loop_found:
  assumes wf: "wf_node n"
  shows "lo \<le> hi \<Longrightarrow> bracket n key lo hi \<Longrightarrow> found_at n key (lowerBound_loop n key (head key) lo hi)"
proof (induction "hi - lo" arbitrary: lo hi rule: less_induct)
  case less
  show ?case
  proof (cases "lo < hi")
    case False
    then have "lowerBound_loop n key (head key) lo hi = Inr lo" by (subst lowerBound_loop.simps) simp
    moreover have "lo = hi" using False less.prems(1) by simp
    ultimately show ?thesis using less.prems(2) by (auto simp: found_at_def bracket_def)
  next
    case True
    define mid where "mid = (hi - lo) div 2 + lo"
    have mid: "lo \<le> mid" "mid < hi" using True by (auto simp: mid_def)
    have mc: "mid < count n" using mid less.prems(2) by (simp add: bracket_def)
    have smaller: "found_at n key (lowerBound_loop n key (head key) lo mid)" if "key < getKey n mid"
      using bracket_high [OF wf less.prems(2) mc that] mid by (intro less.hyps) auto
    have greater: "found_at n key (lowerBound_loop n key (head key) (mid + 1) hi)" if "getKey n mid < key"
      using bracket_low [OF wf less.prems(2) mc that] mid by (intro less.hyps) auto
    have here: "found_at n key (Inl mid)" if "key = getKey n mid"
      using that mc by (simp add: found_at_def)
    note unfolded = lowerBound_loop.simps [of n key "head key" lo hi, unfolded Let_def mid_def [symmetric],
        simplified True if_True]
    note cmp = slot_compare [OF wf mc, of key]
    consider "head key < s_head (slot n mid)" | "head key > s_head (slot n mid)"
      | "head key = s_head (slot n mid)" "s_key_len (slot n mid) \<le> 4"
      | "head key = s_head (slot n mid)" "\<not> s_key_len (slot n mid) \<le> 4"
      by (metis linorder_cases)
    moreover have asym: "\<not> y < x" if "x < y" for x y :: "'o::linorder" using that by simp
    ultimately show ?thesis
    proof cases
      case 1
      then show ?thesis using smaller cmp(1) unfolded by simp
    next
      case 2
      then show ?thesis using greater cmp(2) asym [OF 2] unfolded by simp
    next
      case 3
      then show ?thesis using smaller greater here cmp(3-5) unfolded
        by (cases "length key" "s_key_len (slot n mid)" rule: linorder_cases) simp_all
    next
      case 4
      then show ?thesis using smaller greater here unfolded asym [of "getKey n mid" key]
        by (cases key "getKey n mid" rule: linorder_cases) simp_all
    qed
  qed
qed

lemma take_min_less: "take (min (length k) (length q)) k < q \<Longrightarrow> (k :: bytes) < q @ x"
proof (cases "length k \<le> length q")
  case True
  assume "take (min (length k) (length q)) k < q"
  then have "k < q" using True by (simp add: min_def)
  also have "q \<le> q @ x" by (cases x) (use take_less_self [of "length q" "q @ x"] in \<open>auto simp: less_imp_le\<close>)
  finally show ?thesis .
next
  case False
  assume "take (min (length k) (length q)) k < q"
  then have "take (length q) k < take (length q) (q @ x)" using False by (simp add: min_def)
  then show ?thesis by (rule take_less_imp_less)
qed

lemma take_min_greater: "q < take (min (length k) (length q)) k \<Longrightarrow> q @ x < (k :: bytes)"
proof (cases "length q \<le> length k")
  case True
  assume "q < take (min (length k) (length q)) k"
  then have "take (length q) (q @ x) < take (length q) k" using True by (simp add: min_def split: if_splits)
  then show ?thesis by (rule take_less_imp_less)
next
  case False
  assume "q < take (min (length k) (length q)) k"
  then have "q < k" using False by (simp add: min_def)
  then have "take (length k) q < take (length k) k"
    using lex_less_iff_take [of "length k" q k] False by simp
  then have "take (length k) (q @ x) < take (length k) k" using False by simp
  then show ?thesis by (rule take_less_imp_less)
qed

lemma take_min_eq: "take (min (length k) (length q)) k = q \<Longrightarrow> (k :: bytes) = q @ drop (length q) k"
  by (metis append_take_drop_id length_take min.cobounded1 min.commute min_def take_all_iff)

lemma keys_memE:
  assumes "k \<in> set (keys n)"
  obtains i where "i < count n" "k = getPrefix n @ getKey n i"
  using assms keys_nth by (metis in_set_conv_nth length_keys)

text \<open>After the loop: the position is the rank of the key, and the key is there iff the loop found it.\<close>

lemma found_at_rank:
  assumes wf: "wf_node n" and f: "found_at n key' r" and k: "key = getPrefix n @ key'"
  shows "case r of Inl m \<Rightarrow> rank (keys n) key = m \<and> key \<in> set (keys n)
                 | Inr l \<Rightarrow> rank (keys n) key = l \<and> key \<notin> set (keys n)"
proof -
  have s: "sorted_wrt (<) (keys n)" using wf by (simp add: wf_node_def)
  show ?thesis
  proof (cases r)
    case (Inl m)
    then have "m < count n" "keys n ! m = key" using f k by (simp_all add: found_at_def keys_nth)
    then show ?thesis using Inl rank_eq_nth [OF s, of m] by (auto simp: in_set_conv_nth)
  next
    case (Inr l)
    then have l: "l \<le> count n" "bracket n key' l l" using f by (simp_all add: found_at_def)
    have "rank (keys n) key = l"
      by (rule rankI [OF s]) (use l k in \<open>auto simp: keys_nth bracket_def intro: less_imp_le\<close>)
    moreover have "key \<notin> set (keys n)"
    proof
      assume "key \<in> set (keys n)"
      then obtain i where i: "i < count n" "key = getPrefix n @ getKey n i" by (rule keys_memE)
      then have "key' = getKey n i" using k by simp
      moreover have "getKey n i < key' \<or> key' < getKey n i"
        using l(2) i(1) unfolding bracket_def by (metis not_less)
      ultimately show False by simp
    qed
    ultimately show ?thesis using Inr by simp
  qed
qed

lemma rank_prefix_mismatch:
  assumes "wf_node n"
  shows "take (min (length key) (prefix_length n)) key < getPrefix n \<Longrightarrow>
           rank (keys n) key = 0 \<and> key \<notin> set (keys n)"
    and "getPrefix n < take (min (length key) (prefix_length n)) key \<Longrightarrow>
           rank (keys n) key = count n \<and> key \<notin> set (keys n)"
proof -
  have s: "sorted_wrt (<) (keys n)" using assms by (simp add: wf_node_def)
  { assume c: "take (min (length key) (prefix_length n)) key < getPrefix n"
    then have lt: "key < getPrefix n @ x" for x using take_min_less [of key "getPrefix n"] by simp
    have "rank (keys n) key = 0"
      by (rule rankI [OF s]) (use lt in \<open>auto simp: keys_nth intro: less_imp_le\<close>)
    moreover have "key \<notin> set (keys n)" using lt by (auto elim!: keys_memE)
    ultimately show "rank (keys n) key = 0 \<and> key \<notin> set (keys n)" by simp }
  { assume c: "getPrefix n < take (min (length key) (prefix_length n)) key"
    then have gt: "getPrefix n @ x < key" for x using take_min_greater [of "getPrefix n" key] by simp
    have "rank (keys n) key = count n"
      by (rule rankI [OF s]) (use gt in \<open>auto simp: keys_nth\<close>)
    moreover have "key \<notin> set (keys n)" using gt by (auto elim!: keys_memE)
    ultimately show "rank (keys n) key = count n \<and> key \<notin> set (keys n)" by simp }
qed

lemma lowerBound_same_prefix:
  assumes wf: "wf_node n" and k: "key = getPrefix n @ key'"
  shows "(case lowerBound_loop n key' (head key') (fst (lowerBound_range n (head key')))
             (snd (lowerBound_range n (head key'))) of
           Inl mid \<Rightarrow> (int mid, is_leaf n) | Inr lo' \<Rightarrow> (if e then -1 else int lo', False)) =
         (if e \<and> key \<notin> set (keys n) then -1 else int (rank (keys n) key),
          is_leaf n \<and> key \<in> set (keys n))"
proof -
  obtain lo hi where r: "lowerBound_range n (head key') = (lo, hi)" by (cases "lowerBound_range n (head key')")
  have "found_at n key' (lowerBound_loop n key' (head key') lo hi)"
    using lowerBound_range_bracket [OF wf r] by (intro lowerBound_loop_found [OF wf]) auto
  from found_at_rank [OF wf this k] show ?thesis
    by (auto simp: r split: sum.splits)
qed

theorem lowerBound_spec:
  assumes wf: "wf_node n"
  shows "lowerBound False n key = (int (rank (keys n) key), is_leaf n \<and> key \<in> set (keys n))"
proof -
  let ?q = "getPrefix n" and ?t = "take (min (length key) (prefix_length n)) key"
  consider "?t < ?q" | "?q < ?t" | "?t = ?q" by (metis linorder_cases)
  then show ?thesis
  proof cases
    case 1
    then show ?thesis using rank_prefix_mismatch(1) [OF wf 1] by (simp add: lowerBound_def Let_def)
  next
    case 2
    then have "\<not> ?t < ?q" by simp
    then show ?thesis using 2 rank_prefix_mismatch(2) [OF wf 2] by (simp add: lowerBound_def Let_def)
  next
    case 3
    then have "key = ?q @ drop (prefix_length n) key" using take_min_eq [of key ?q] by simp
    from lowerBound_same_prefix [OF wf this, of False] 3 show ?thesis
      by (simp add: lowerBound_def Let_def case_prod_beta)
  qed
qed

theorem lowerBound_exact_spec:
  assumes wf: "wf_node n"
  shows "lowerBound True n key =
    (if key \<in> set (keys n) then int (rank (keys n) key) else -1, is_leaf n \<and> key \<in> set (keys n))"
proof (cases "length key < prefix_length n \<or> take (prefix_length n) key \<noteq> getPrefix n")
  case True
  then have "key \<notin> set (keys n)" by (auto elim!: keys_memE)
  then show ?thesis using True by (simp add: lowerBound_def Let_def)
next
  case False
  then have "key = getPrefix n @ drop (prefix_length n) key" by (metis append_take_drop_id)
  from lowerBound_same_prefix [OF wf this, of True] False show ?thesis
    by (simp add: lowerBound_def Let_def case_prod_beta)
qed

section \<open>Properties\<close>

lemma wf_new_node [simp]: "wf_node (new_node leaf)"
  by (simp add: wf_node_def new_node_def layout_def slots_def slots_end_def fence_ok_def prefix_ok_def
      getLowerFenceKey_def getUpperFenceKey_def keys_def content_def hint_ok_def)

lemma new_node_simps [simp]:
  "count (new_node leaf) = 0" "is_leaf (new_node leaf) = leaf" "content (new_node leaf) = []"
  "keys (new_node leaf) = []" "in_fences (new_node leaf) k" "prefix_length (new_node leaf) = 0"
  by (simp_all add: new_node_def content_def keys_def slots_def in_fences_def above_def upto_def
      getLowerFenceKey_def getUpperFenceKey_def)

text \<open>C16. On a well-formed node the search finds what it should, whatever the hints narrowed it to:
  \<open>lowerBound<false>\<close> returns the number of keys smaller than the search key and, on a leaf, whether the key is
  present; \<open>lowerBound<true>\<close> returns the position of the key, or -1 when it is absent.\<close>

theorem lowerBound_correct:
  assumes "wf_node n"
  shows "lowerBound False n key = (int (rank (keys n) key), is_leaf n \<and> key \<in> set (keys n)) \<and>
    fst (lowerBound True n key) = (if key \<in> set (keys n) then int (rank (keys n) key) else -1)"
  using lowerBound_spec [OF assms, of key] lowerBound_exact_spec [OF assms, of key] by simp

theorem lowerBound_correct_witness:
  "lowerBound False (new_node True) [1] = (0, False) \<and> fst (lowerBound True (new_node True) [1]) = -1"
  using lowerBound_correct [of "new_node True" "[1]"] by (simp add: rank_def)

end
