(* ===== verification/BTreeNodeOps.thy ===== *)
theory BTreeNodeOps
  imports BTreeNode
begin

text \<open>
  The operations of \<open>BTreeNode\<close> that change a page: hints, storing and copying entries, fences,
  compaction, insertion and removal (BTreeNode.cpp), with what each does to the node's contents and
  that each keeps the node well-formed.
\<close>

section \<open>Hints\<close>

definition makeHint :: "btree_node \<Rightarrow> btree_node" where
  "makeHint n =
     (let dist = count n div (hint_count + 1) in
      n\<lparr>hint := (\<lambda>i. if i < hint_count then s_head (slot n (dist * (i + 1))) else hint n i)\<rparr>)"

definition updateHint :: "btree_node \<Rightarrow> nat \<Rightarrow> btree_node" where
  "updateHint n slotId =
     (let dist = count n div (hint_count + 1);
          begin' = (if count n > hint_count * 2 + 1 \<and> (count n - 1) div (hint_count + 1) = dist \<and>
                      slotId div dist > 1
                    then slotId div dist - 1 else 0) in
      n\<lparr>hint := (\<lambda>i. if begin' \<le> i \<and> i < hint_count then s_head (slot n (dist * (i + 1))) else hint n i)\<rparr>)"

section \<open>Storing, copying and fences\<close>

definition storeKeyValue :: "btree_node \<Rightarrow> nat \<Rightarrow> bytes \<Rightarrow> bytes \<Rightarrow> btree_node" where
  "storeKeyValue n slotId key payload =
     (let key' = drop (prefix_length n) key;
          key_len = u16 (int (length key) - int (prefix_length n));
          payload_len = length payload;
          space = u16 (int key_len + int payload_len);
          off = u16 (int (data_offset n) - int space) in
      n\<lparr>data_offset := off,
        space_used := u16 (int (space_used n) + int space),
        slot := (slot n)(slotId := \<lparr>s_offset = off, s_key_len = key_len,
                  s_payload_len = payload_len mod 32768, s_head = head key'\<rparr>),
        page := write_mem (write_mem (page n) off key') (off + key_len) payload\<rparr>)"

definition copyKeyValue :: "btree_node \<Rightarrow> nat \<Rightarrow> btree_node \<Rightarrow> nat \<Rightarrow> btree_node" where
  "copyKeyValue src srcSlot dst dstSlot =
     storeKeyValue dst dstSlot (copyFullKey src srcSlot) (getPayload src srcSlot)"

text \<open>One round of the fast path's loop, which runs after the slots themselves have been copied.\<close>

definition copy_fast_step :: "btree_node \<Rightarrow> nat \<Rightarrow> nat \<Rightarrow> nat \<Rightarrow> btree_node \<Rightarrow> btree_node" where
  "copy_fast_step src dstSlot srcSlot i dst =
     (let kv_size = u32_of (int (getKeyLen src (srcSlot + i)) + int (getPayloadLength src (srcSlot + i)));
          off = u16 (int (data_offset dst) - int kv_size) in
      dst\<lparr>data_offset := off,
          space_used := u16 (int (space_used dst) + int kv_size),
          slot := (slot dst)(dstSlot + i := (slot dst (dstSlot + i))\<lparr>s_offset := off\<rparr>),
          page := write_mem (page dst) off (read_mem (page src) (s_offset (slot src (srcSlot + i))) kv_size)\<rparr>)"

definition copy_slots :: "btree_node \<Rightarrow> btree_node \<Rightarrow> nat \<Rightarrow> nat \<Rightarrow> nat \<Rightarrow> btree_node" where
  "copy_slots src dst dstSlot srcSlot cnt =
     dst\<lparr>slot := (\<lambda>j. if dstSlot \<le> j \<and> j < dstSlot + cnt then slot src (srcSlot + (j - dstSlot)) else slot dst j)\<rparr>"

definition copyKeyValueRange :: "btree_node \<Rightarrow> btree_node \<Rightarrow> nat \<Rightarrow> nat \<Rightarrow> nat \<Rightarrow> btree_node" where
  "copyKeyValueRange src dst dstSlot srcSlot cnt =
     (let dst' =
        (if prefix_length src = prefix_length dst
         then fold (copy_fast_step src dstSlot srcSlot) [0..<cnt] (copy_slots src dst dstSlot srcSlot cnt)
         else fold (\<lambda>i d. copyKeyValue src (srcSlot + i) d (dstSlot + i)) [0..<cnt] dst) in
      dst'\<lparr>count := u16 (int (count dst') + int cnt)\<rparr>)"

text \<open>\<open>insertFence\<close> returns the new header fields; the caller chooses which fence they become.\<close>

definition insertFence :: "btree_node \<Rightarrow> bytes option \<Rightarrow> FenceKey \<Rightarrow> FenceKey \<times> btree_node" where
  "insertFence n key fk =
     (case key of
        None \<Rightarrow> (fk, n)
      | Some k \<Rightarrow>
          (let off = u16 (int (data_offset n) - int (length k)) in
           (\<lparr>f_offset = off, f_length = length k\<rparr>,
            n\<lparr>data_offset := off,
              space_used := u16 (int (space_used n) + int (length k)),
              page := write_mem (page n) off k\<rparr>)))"

definition setFences :: "btree_node \<Rightarrow> bytes option \<Rightarrow> bytes option \<Rightarrow> btree_node" where
  "setFences n lowerKey upperKey =
     (let (lf, n1) = insertFence n lowerKey (lower_fence n);
          n2 = n1\<lparr>lower_fence := lf\<rparr>;
          (uf, n3) = insertFence n2 upperKey (upper_fence n2);
          n4 = n3\<lparr>upper_fence := uf\<rparr> in
      n4\<lparr>prefix_length := (case (lowerKey, upperKey) of (Some l, Some u) \<Rightarrow> common_len l u | _ \<Rightarrow> 0)\<rparr>)"

section \<open>Compaction, insertion, removal\<close>

definition compactify :: "btree_node \<Rightarrow> btree_node" where
  "compactify n =
     (let tmp = setFences (new_node (is_leaf n)) (getLowerFenceKey n) (getUpperFenceKey n);
          tmp = copyKeyValueRange n tmp 0 0 (count n);
          tmp = tmp\<lparr>upper := upper n\<rparr> in
      makeHint tmp)"

definition requestSpaceFor :: "btree_node \<Rightarrow> nat \<Rightarrow> bool \<times> btree_node" where
  "requestSpaceFor n space_needed =
     (if space_needed \<le> freeSpace n then (True, n)
      else if space_needed \<le> freeSpaceAfterCompaction n then (True, compactify n)
      else (False, n))"

definition prepareInsert :: "btree_node \<Rightarrow> nat \<Rightarrow> nat \<Rightarrow> bool \<times> btree_node" where
  "prepareInsert n key_len payload_len = requestSpaceFor n (spaceNeeded n key_len payload_len)"

text \<open>\<open>memmove(slot + p + 1, slot + p, sizeof(Slot) * (count - p))\<close>\<close>

definition shift_up :: "btree_node \<Rightarrow> nat \<Rightarrow> btree_node" where
  "shift_up n p = n\<lparr>slot := (\<lambda>i. if p < i \<and> i \<le> count n then slot n (i - 1) else slot n i)\<rparr>"

definition node_insert :: "btree_node \<Rightarrow> bytes \<Rightarrow> bytes \<Rightarrow> nat \<times> btree_node" where
  "node_insert n key payload =
     (let n = snd (prepareInsert n (length key) (length payload));
          slotId = nat (fst (lowerBound False n key));
          n = shift_up n slotId;
          n = storeKeyValue n slotId key payload;
          n = n\<lparr>count := u16 (int (count n) + 1)\<rparr> in
      (slotId, updateHint n slotId))"

text \<open>\<open>insertDoNotCopyPayload\<close> reserves the payload bytes without writing them.\<close>

definition insertDoNotCopyPayload :: "btree_node \<Rightarrow> bytes \<Rightarrow> nat \<Rightarrow> nat \<times> btree_node" where
  "insertDoNotCopyPayload n key payload_length =
     (let n = snd (prepareInsert n (length key) payload_length);
          slotId = nat (fst (lowerBound False n key));
          n = shift_up n slotId;
          key' = drop (prefix_length n) key;
          key_len = u16 (int (length key) - int (prefix_length n));
          space = u16 (int key_len + int payload_length);
          off = u16 (int (data_offset n) - int space);
          n = n\<lparr>data_offset := off,
                space_used := u16 (int (space_used n) + int space),
                slot := (slot n)(slotId := \<lparr>s_offset = off, s_key_len = key_len,
                          s_payload_len = payload_length mod 32768, s_head = head key'\<rparr>),
                page := write_mem (page n) off key'\<rparr>;
          n = n\<lparr>count := u16 (int (count n) + 1)\<rparr> in
      (slotId, updateHint n slotId))"

definition removeSlot :: "btree_node \<Rightarrow> nat \<Rightarrow> btree_node" where
  "removeSlot n slotId =
     (let n = n\<lparr>space_used := u16 (int (space_used n) - (int (getKeyLen n slotId) + int (getPayloadLength n slotId)))\<rparr>;
          n = n\<lparr>slot := (\<lambda>i. if slotId \<le> i \<and> i < count n - 1 then slot n (i + 1) else slot n i)\<rparr>;
          n = n\<lparr>count := u16 (int (count n) - 1)\<rparr> in
      makeHint n)"

definition node_remove :: "btree_node \<Rightarrow> bytes \<Rightarrow> bool \<times> btree_node" where
  "node_remove n key =
     (let slotId = fst (lowerBound True n key) in
      if slotId = -1 then (False, n) else (True, removeSlot n (nat slotId)))"

definition shortenPayload :: "btree_node \<Rightarrow> nat \<Rightarrow> nat \<Rightarrow> btree_node" where
  "shortenPayload n slotId len =
     (let freed_space = u16 (int (getPayloadLength n slotId) - int len) in
      n\<lparr>space_used := u16 (int (space_used n) - int freed_space),
        slot := (slot n)(slotId := (slot n slotId)\<lparr>s_payload_len := len mod 32768\<rparr>)\<rparr>)"

text \<open>The callbacks of \<open>BTreeLL::updateSameSize\<close> write the payload in place.\<close>

definition writePayload :: "btree_node \<Rightarrow> nat \<Rightarrow> bytes \<Rightarrow> btree_node" where
  "writePayload n slotId bs =
     n\<lparr>page := write_mem (page n) (s_offset (slot n slotId) + s_key_len (slot n slotId)) bs\<rparr>"

section \<open>Storing an entry\<close>

text \<open>Two nodes agree on everything above the heap pointer of the first.\<close>

definition heap_extends :: "btree_node \<Rightarrow> btree_node \<Rightarrow> bool" where
  "heap_extends n n' \<longleftrightarrow>
     lower_fence n' = lower_fence n \<and> upper_fence n' = upper_fence n \<and>
     prefix_length n' = prefix_length n \<and> data_offset n' \<le> data_offset n \<and>
     (\<forall>i. data_offset n \<le> i \<longrightarrow> page n' i = page n i)"

lemma prefix_bound:
  assumes "prefix_ok n"
  shows "prefix_length n = 0 \<or>
    (f_offset (lower_fence n) \<noteq> 0 \<and> prefix_length n \<le> f_length (lower_fence n))"
  using assms common_len_le
  by (auto simp: prefix_ok_def getLowerFenceKey_def split: option.splits if_splits)
    (metis length_read_mem)

lemma heap_extends_getPrefix:
  assumes e: "heap_extends n n'" and p: "prefix_ok n" and f: "fence_ok n (lower_fence n)"
  shows "getPrefix n' = getPrefix n"
proof (cases "prefix_length n = 0")
  case True
  then show ?thesis using e by (simp add: getPrefix_def heap_extends_def)
next
  case False
  then have "data_offset n \<le> f_offset (lower_fence n)"
    using prefix_bound [OF p] f by (auto simp: fence_ok_def)
  then show ?thesis using e by (auto simp: getPrefix_def heap_extends_def intro!: read_mem_cong)
qed

lemma heap_extends_fences:
  assumes e: "heap_extends n n'" and f: "fence_ok n (lower_fence n)" "fence_ok n (upper_fence n)"
  shows "getLowerFenceKey n' = getLowerFenceKey n \<and> getUpperFenceKey n' = getUpperFenceKey n"
  using assms by (auto simp: getLowerFenceKey_def getUpperFenceKey_def heap_extends_def fence_ok_def
      intro!: read_mem_cong)

lemma heap_extends_slot:
  assumes e: "heap_extends n n'" and s: "slot_ok n s"
  shows "slot_key n' s = slot_key n s \<and> slot_payload n' s = slot_payload n s \<and> slot_ok n' s"
proof -
  have "slot_key n' s = slot_key n s" "slot_payload n' s = slot_payload n s"
    using assms by (auto simp: heap_extends_def slot_ok_def slot_key_def slot_payload_def intro!: read_mem_cong)
  then show ?thesis using assms by (auto simp: heap_extends_def slot_ok_def)
qed

lemma heap_extends_entry:
  assumes "heap_extends n n'" "prefix_ok n" "fence_ok n (lower_fence n)" "slot_ok n s"
  shows "entry n' s = entry n s"
  using heap_extends_getPrefix [OF assms(1-3)] heap_extends_slot [OF assms(1,4)] by (simp add: entry_def)

lemma heap_extends_prefix_ok:
  assumes "heap_extends n n'" "prefix_ok n" "fence_ok n (lower_fence n)" "fence_ok n (upper_fence n)"
  shows "prefix_ok n'"
  using heap_extends_fences [OF assms(1,3,4)] assms(1,2)
  by (auto simp: prefix_ok_def heap_extends_def split: option.splits)

text \<open>The effect of \<open>storeKeyValue\<close> and of \<open>insertDoNotCopyPayload\<close> on heap and header: \<open>kv\<close> is the run
  of bytes reserved for the suffix \<open>sfx\<close> and a payload of \<open>pl\<close> bytes.\<close>

definition stored :: "btree_node \<Rightarrow> bytes \<Rightarrow> nat \<Rightarrow> Slot \<Rightarrow> btree_node \<Rightarrow> bool" where
  "stored n sfx pl s n' \<longleftrightarrow>
     heap_extends n n' \<and> data_offset n' + (length sfx + pl) = data_offset n \<and>
     space_used n' = space_used n + (length sfx + pl) \<and>
     s = \<lparr>s_offset = data_offset n', s_key_len = length sfx, s_payload_len = pl, s_head = head sfx\<rparr> \<and>
     slot_key n' s = sfx"

lemma sorted_wrt_insert_at:
  assumes "sorted_wrt P xs" and "\<And>y. y \<in> set xs \<Longrightarrow> P x y \<and> P y x"
  shows "sorted_wrt P (insert_at p x xs)"
proof -
  have "sorted_wrt P (take p xs @ drop p xs)" using assms(1) by simp
  then show ?thesis
    using assms(2) in_set_takeD [of _ p xs] in_set_dropD [of _ p xs]
    unfolding insert_at_def sorted_wrt_append by auto
qed

lemma fence_ok_mono: "fence_ok n f \<Longrightarrow> data_offset n' \<le> data_offset n \<Longrightarrow> fence_ok n' f"
  by (auto simp: fence_ok_def)

lemma stored_layout:
  assumes st: "stored n sfx pl s n'" and L: "layout ss n" and P: "prefix_ok n"
    and fit: "slots_end (Suc (length ss)) + (length sfx + pl) \<le> data_offset n"
  shows "layout (insert_at p s ss) n' \<and> prefix_ok n' \<and> getPrefix n' = getPrefix n \<and>
    getLowerFenceKey n' = getLowerFenceKey n \<and> getUpperFenceKey n' = getUpperFenceKey n \<and>
    map (entry n') ss = map (entry n) ss \<and>
    entry n' s = (getPrefix n @ sfx, slot_payload n' s)"
proof -
  have e: "heap_extends n n'" using st by (simp add: stored_def)
  have fl: "fence_ok n (lower_fence n)" and fu: "fence_ok n (upper_fence n)"
    and ok: "\<And>t. t \<in> set ss \<Longrightarrow> slot_ok n t" using L by (auto simp: layout_def)
  have feq: "lower_fence n' = lower_fence n" "upper_fence n' = upper_fence n"
    using e by (simp_all add: heap_extends_def)
  have gp: "getPrefix n' = getPrefix n" by (rule heap_extends_getPrefix [OF e P fl])
  have sz: "slot_size s = length sfx + pl" and so: "s_offset s = data_offset n'"
    using st by (simp_all add: stored_def slot_size_def)
  have ends: "s_offset s + slot_size s = data_offset n" using st sz so by (simp add: stored_def)
  have fd: "fence_disjoint f s" if "fence_ok n f" for f
    using that ends by (auto simp: fence_disjoint_def fence_ok_def)
  have new: "slot_ok n' s"
    using st L fd [OF fl] fd [OF fu] feq ends
    by (auto simp: slot_ok_def stored_def layout_def slot_size_def)
  have dis: "slot_disjoint s t \<and> slot_disjoint t s" if "t \<in> set ss" for t
    using ok [OF that] ends by (auto simp: slot_disjoint_def slot_ok_def)
  have "layout (insert_at p s ss) n'"
    unfolding layout_def
  proof (intro conjI)
    show "slots_end (length (insert_at p s ss)) \<le> data_offset n'"
      using fit st by (simp add: stored_def)
    show "data_offset n' \<le> EFFECTIVE_PAGE_SIZE"
      using e L by (simp add: heap_extends_def layout_def)
    show "\<forall>t\<in>set (insert_at p s ss). slot_ok n' t"
      using new ok heap_extends_slot [OF e] by (simp add: set_insert_at)
    show "sorted_wrt slot_disjoint (insert_at p s ss)"
      using L dis by (intro sorted_wrt_insert_at) (auto simp: layout_def)
    show "fence_ok n' (lower_fence n')" "fence_ok n' (upper_fence n')"
      using fl fu e feq by (auto simp: heap_extends_def intro: fence_ok_mono)
    show "space_used n' = f_length (lower_fence n') + f_length (upper_fence n') +
        sum_list (map slot_size (insert_at p s ss))"
      using st L feq sz by (simp add: sum_list_insert_at stored_def layout_def)
    show "space_used n' + data_offset n' \<le> EFFECTIVE_PAGE_SIZE"
      using st L by (simp add: stored_def layout_def)
  qed
  moreover have "prefix_ok n'" by (rule heap_extends_prefix_ok [OF e P fl fu])
  moreover have "map (entry n') ss = map (entry n) ss"
    using heap_extends_entry [OF e P fl] ok by simp
  moreover have "entry n' s = (getPrefix n @ sfx, slot_payload n' s)"
    using st gp by (metis entry_def stored_def)
  ultimately show ?thesis using gp heap_extends_fences [OF e fl fu] by simp
qed

text \<open>The slots up to position \<open>m\<close>: while entries are copied, \<open>count\<close> is not yet updated.\<close>

definition slots_to :: "nat \<Rightarrow> btree_node \<Rightarrow> Slot list" where
  "slots_to m n = map (slot n) [0..<m]"

lemma slots_to_count: "slots_to (count n) n = slots n"
  by (simp add: slots_to_def slots_def)

lemma length_slots_to [simp]: "length (slots_to m n) = m"
  by (simp add: slots_to_def)

text \<open>A key that a node can store: it starts with the node's prefix.\<close>

definition has_prefix :: "btree_node \<Rightarrow> bytes \<Rightarrow> bool" where
  "has_prefix n k \<longleftrightarrow> prefix_length n \<le> length k \<and> take (prefix_length n) k = getPrefix n"

lemma has_prefix_append: "has_prefix n k \<Longrightarrow> getPrefix n @ drop (prefix_length n) k = k"
  by (metis append_take_drop_id has_prefix_def)

lemma in_fences_has_prefix:
  assumes p: "prefix_ok n" and k: "in_fences n k"
  shows "has_prefix n k"
proof (cases "prefix_length n = 0")
  case True
  then show ?thesis by (simp add: has_prefix_def getPrefix_def)
next
  case False
  then obtain l u where lu: "getLowerFenceKey n = Some l" "getUpperFenceKey n = Some u"
    "prefix_length n = common_len l u"
    using p by (auto simp: prefix_ok_def split: option.splits)
  have "take (prefix_length n) l = getPrefix n"
    using lu common_len_le [of l u]
    by (auto simp: getLowerFenceKey_def getPrefix_def read_mem_take split: if_splits)
  moreover have "prefix_length n \<le> length k \<and> take (prefix_length n) k = take (prefix_length n) l"
    by (rule between_prefix [of l k u])
      (use k lu common_len_le [of l u] common_len_take [of l u] in \<open>auto simp: in_fences_def above_def upto_def\<close>)
  ultimately show ?thesis by (simp add: has_prefix_def)
qed

text \<open>The heap bytes of an entry in a node with a prefix of length \<open>p\<close>.\<close>

definition entry_size :: "nat \<Rightarrow> bytes \<times> bytes \<Rightarrow> nat" where
  "entry_size p e = length (fst e) - p + length (snd e)"

lemma storeKeyValue_stored:
  assumes hp: "has_prefix n key" and d: "data_offset n \<le> EFFECTIVE_PAGE_SIZE"
    and fit: "entry_size (prefix_length n) (key, payload) \<le> data_offset n"
    and sp: "space_used n + data_offset n \<le> EFFECTIVE_PAGE_SIZE"
  shows "stored n (drop (prefix_length n) key) (length payload)
     (slot (storeKeyValue n i key payload) i) (storeKeyValue n i key payload)"
    and "slot_payload (storeKeyValue n i key payload) (slot (storeKeyValue n i key payload) i) = payload"
    and "j \<noteq> i \<Longrightarrow> slot (storeKeyValue n i key payload) j = slot n j"
    and "count (storeKeyValue n i key payload) = count n"
    and "is_leaf (storeKeyValue n i key payload) = is_leaf n"
    and "upper (storeKeyValue n i key payload) = upper n"
    and "hint (storeKeyValue n i key payload) = hint n"
proof -
  let ?n' = "storeKeyValue n i key payload" and ?k = "drop (prefix_length n) key"
  have pl: "prefix_length n \<le> length key" using hp by (simp add: has_prefix_def)
  have kl: "u16 (int (length key) - int (prefix_length n)) = length ?k"
    using pl fit d by (simp add: u16_diff entry_size_def)
  have sp1: "u16 (int (length ?k) + int (length payload)) = length ?k + length payload"
    using fit d by (intro u16_add) (simp add: entry_size_def)
  have off: "u16 (int (data_offset n) - int (length ?k + length payload)) = data_offset n - (length ?k + length payload)"
    using fit d by (intro u16_diff) (simp_all add: entry_size_def)
  have su: "u16 (int (space_used n) + int (length ?k + length payload)) = space_used n + (length ?k + length payload)"
    using fit sp by (intro u16_add) (simp add: entry_size_def)
  have pm: "length payload mod 32768 = length payload" using fit d by (simp add: entry_size_def)
  define off where "off = data_offset n - (length ?k + length payload)"
  have n': "?n' = n\<lparr>data_offset := off, space_used := space_used n + (length ?k + length payload),
        slot := (slot n)(i := \<lparr>s_offset = off, s_key_len = length ?k, s_payload_len = length payload,
          s_head = head ?k\<rparr>),
        page := write_mem (write_mem (page n) off ?k) (off + length ?k) payload\<rparr>"
    unfolding storeKeyValue_def Let_def kl sp1 off su pm off_def ..
  have o: "off + (length ?k + length payload) = data_offset n"
    using fit by (simp add: off_def entry_size_def)
  show "stored n ?k (length payload) (slot ?n' i) ?n'"
    using o by (auto simp: n' stored_def heap_extends_def slot_key_def write_mem_def mem_simps
        intro!: nth_equalityI simp: read_mem_nth)
  show "slot_payload ?n' (slot ?n' i) = payload"
    by (simp add: n' slot_payload_def mem_simps)
  show "j \<noteq> i \<Longrightarrow> slot ?n' j = slot n j" "count ?n' = count n" "is_leaf ?n' = is_leaf n"
    "upper ?n' = upper n" "hint ?n' = hint n" by (simp_all add: n')
qed

section \<open>Copying a range of entries\<close>

text \<open>The first \<open>m\<close> slots of \<open>n\<close> hold the entries \<open>es\<close>.\<close>

definition holds :: "nat \<Rightarrow> btree_node \<Rightarrow> (bytes \<times> bytes) list \<Rightarrow> bool" where
  "holds m n es \<longleftrightarrow> layout (slots_to m n) n \<and> prefix_ok n \<and> map (entry n) (slots_to m n) = es"

text \<open>Header fields that the layout and the entries do not depend on.\<close>

lemma frame_count [simp]:
  "getPrefix (n\<lparr>count := c\<rparr>) = getPrefix n" "getLowerFenceKey (n\<lparr>count := c\<rparr>) = getLowerFenceKey n"
  "getUpperFenceKey (n\<lparr>count := c\<rparr>) = getUpperFenceKey n" "slots_to m (n\<lparr>count := c\<rparr>) = slots_to m n"
  "prefix_ok (n\<lparr>count := c\<rparr>) = prefix_ok n" "layout ss (n\<lparr>count := c\<rparr>) = layout ss n"
  "entry (n\<lparr>count := c\<rparr>) = entry n" "in_fences (n\<lparr>count := c\<rparr>) = in_fences n"
  by (simp_all add: getPrefix_def getLowerFenceKey_def getUpperFenceKey_def slots_to_def prefix_ok_def
      layout_def slot_ok_def fence_ok_def slot_key_def entry_def slot_payload_def in_fences_def fun_eq_iff)

lemma frame_upper [simp]:
  "getPrefix (n\<lparr>upper := c\<rparr>) = getPrefix n" "getLowerFenceKey (n\<lparr>upper := c\<rparr>) = getLowerFenceKey n"
  "getUpperFenceKey (n\<lparr>upper := c\<rparr>) = getUpperFenceKey n" "slots_to m (n\<lparr>upper := c\<rparr>) = slots_to m n"
  "prefix_ok (n\<lparr>upper := c\<rparr>) = prefix_ok n" "layout ss (n\<lparr>upper := c\<rparr>) = layout ss n"
  "entry (n\<lparr>upper := c\<rparr>) = entry n" "in_fences (n\<lparr>upper := c\<rparr>) = in_fences n"
  by (simp_all add: getPrefix_def getLowerFenceKey_def getUpperFenceKey_def slots_to_def prefix_ok_def
      layout_def slot_ok_def fence_ok_def slot_key_def entry_def slot_payload_def in_fences_def fun_eq_iff)

lemma frame_hint [simp]:
  "getPrefix (n\<lparr>hint := c\<rparr>) = getPrefix n" "getLowerFenceKey (n\<lparr>hint := c\<rparr>) = getLowerFenceKey n"
  "getUpperFenceKey (n\<lparr>hint := c\<rparr>) = getUpperFenceKey n" "slots_to m (n\<lparr>hint := c\<rparr>) = slots_to m n"
  "prefix_ok (n\<lparr>hint := c\<rparr>) = prefix_ok n" "layout ss (n\<lparr>hint := c\<rparr>) = layout ss n"
  "entry (n\<lparr>hint := c\<rparr>) = entry n" "in_fences (n\<lparr>hint := c\<rparr>) = in_fences n"
  by (simp_all add: getPrefix_def getLowerFenceKey_def getUpperFenceKey_def slots_to_def prefix_ok_def
      layout_def slot_ok_def fence_ok_def slot_key_def entry_def slot_payload_def in_fences_def fun_eq_iff)

lemma holds_frame [simp]:
  "holds m (n\<lparr>count := c\<rparr>) es = holds m n es" "holds m (n\<lparr>upper := u\<rparr>) es = holds m n es"
  "holds m (n\<lparr>hint := h\<rparr>) es = holds m n es"
  by (simp_all add: holds_def)

text \<open>What filling slots leaves alone.\<close>

definition same_frame :: "btree_node \<Rightarrow> btree_node \<Rightarrow> bool" where
  "same_frame n n' \<longleftrightarrow>
     count n' = count n \<and> is_leaf n' = is_leaf n \<and> upper n' = upper n \<and> hint n' = hint n \<and>
     prefix_length n' = prefix_length n \<and> getPrefix n' = getPrefix n \<and>
     lower_fence n' = lower_fence n \<and> upper_fence n' = upper_fence n \<and>
     getLowerFenceKey n' = getLowerFenceKey n \<and> getUpperFenceKey n' = getUpperFenceKey n"

lemma same_frame_refl [simp]: "same_frame n n"
  by (simp add: same_frame_def)

lemma same_frame_trans: "same_frame a b \<Longrightarrow> same_frame b c \<Longrightarrow> same_frame a c"
  by (simp add: same_frame_def)

lemma same_frame_has_prefix: "same_frame n n' \<Longrightarrow> has_prefix n' k = has_prefix n k"
  by (simp add: same_frame_def has_prefix_def)

lemma same_frame_prefix_length: "same_frame n n' \<Longrightarrow> prefix_length n' = prefix_length n"
  by (simp add: same_frame_def)

lemma holds_append:
  assumes h: "holds m n es" and k: "has_prefix n k"
    and fit: "slots_end (Suc m) + entry_size (prefix_length n) (k, v) \<le> data_offset n"
  shows "holds (Suc m) (storeKeyValue n m k v) (es @ [(k, v)]) \<and>
    same_frame n (storeKeyValue n m k v) \<and>
    data_offset (storeKeyValue n m k v) + entry_size (prefix_length n) (k, v) = data_offset n \<and>
    space_used (storeKeyValue n m k v) = space_used n + entry_size (prefix_length n) (k, v)"
proof -
  let ?n' = "storeKeyValue n m k v" and ?s = "slot (storeKeyValue n m k v) m"
  have L: "layout (slots_to m n) n" and P: "prefix_ok n" using h by (simp_all add: holds_def)
  have d: "data_offset n \<le> EFFECTIVE_PAGE_SIZE" "space_used n + data_offset n \<le> EFFECTIVE_PAGE_SIZE"
    using L by (simp_all add: layout_def)
  note S = storeKeyValue_stored [OF k d(1) _ d(2), where payload = v and i = m]
  have f1: "entry_size (prefix_length n) (k, v) \<le> data_offset n" using fit by simp
  have sz: "length (drop (prefix_length n) k) + length v = entry_size (prefix_length n) (k, v)"
    by (simp add: entry_size_def)
  have st: "stored n (drop (prefix_length n) k) (length v) ?s ?n'" by (rule S(1) [OF f1])
  have keep: "slots_to m ?n' = slots_to m n"
    using S(3) [OF f1] by (simp add: slots_to_def)
  have new: "slots_to (Suc m) ?n' = insert_at m ?s (slots_to m n)"
    using keep by (simp add: slots_to_def insert_at_def)
  have A: "layout (insert_at m ?s (slots_to m n)) ?n' \<and> prefix_ok ?n' \<and> getPrefix ?n' = getPrefix n \<and>
    getLowerFenceKey ?n' = getLowerFenceKey n \<and> getUpperFenceKey ?n' = getUpperFenceKey n \<and>
    map (entry ?n') (slots_to m n) = map (entry n) (slots_to m n) \<and>
    entry ?n' ?s = (getPrefix n @ drop (prefix_length n) k, slot_payload ?n' ?s)"
    by (rule stored_layout [OF st L P]) (use fit sz in simp)
  have "entry ?n' ?s = (k, v)" using A S(2) [OF f1] has_prefix_append [OF k] by simp
  then have "map (entry ?n') (slots_to (Suc m) ?n') = es @ [(k, v)]"
    using A h by (auto simp: new insert_at_def holds_def)
  moreover have "data_offset ?n' + entry_size (prefix_length n) (k, v) = data_offset n \<and>
      space_used ?n' = space_used n + entry_size (prefix_length n) (k, v)"
    using st sz by (simp add: stored_def)
  moreover have "same_frame n ?n'"
    using st A S(4-7) [OF f1] by (simp add: same_frame_def stored_def heap_extends_def)
  ultimately show ?thesis using A new by (simp add: holds_def)
qed

definition copy_loop :: "btree_node \<Rightarrow> nat \<Rightarrow> nat \<Rightarrow> nat \<Rightarrow> btree_node \<Rightarrow> btree_node" where
  "copy_loop src dstSlot srcSlot cnt dst =
     fold (\<lambda>i d. copyKeyValue src (srcSlot + i) d (dstSlot + i)) [0..<cnt] dst"

lemma copy_loop_0 [simp]: "copy_loop src ds ss 0 dst = dst"
  by (simp add: copy_loop_def)

lemma copy_loop_Suc [simp]:
  "copy_loop src ds ss (Suc c) dst = copyKeyValue src (ss + c) (copy_loop src ds ss c dst) (ds + c)"
  by (simp add: copy_loop_def)

abbreviation total_size :: "nat \<Rightarrow> (bytes \<times> bytes) list \<Rightarrow> nat" where
  "total_size p es \<equiv> sum_list (map (entry_size p) es)"

lemma copy_loop_holds:
  assumes h: "holds ds dst es" and c: "ss + c \<le> count src"
    and pre: "\<And>e. e \<in> set (take c (drop ss (content src))) \<Longrightarrow> has_prefix dst (fst e)"
    and fit: "slots_end (ds + c) + total_size (prefix_length dst) (take c (drop ss (content src))) \<le> data_offset dst"
  shows "holds (ds + c) (copy_loop src ds ss c dst) (es @ take c (drop ss (content src))) \<and>
    same_frame dst (copy_loop src ds ss c dst) \<and>
    data_offset (copy_loop src ds ss c dst) + total_size (prefix_length dst) (take c (drop ss (content src))) = data_offset dst \<and>
    space_used (copy_loop src ds ss c dst) = space_used dst + total_size (prefix_length dst) (take c (drop ss (content src)))"
  using c pre fit
proof (induction c)
  case 0
  then show ?case using h by simp
next
  case (Suc c)
  let ?d = "copy_loop src ds ss c dst"
  obtain k v where e: "content src ! (ss + c) = (k, v)" by fastforce
  have t: "take (Suc c) (drop ss (content src)) = take c (drop ss (content src)) @ [(k, v)]"
    using Suc.prems(1) e by (simp add: take_Suc_conv_app_nth)
  have kv: "copyFullKey src (ss + c) = k" "getPayload src (ss + c) = v"
    using content_nth [of "ss + c" src] e Suc.prems(1) by simp_all
  have IH: "holds (ds + c) ?d (es @ take c (drop ss (content src))) \<and> same_frame dst ?d \<and>
    data_offset ?d + total_size (prefix_length dst) (take c (drop ss (content src))) = data_offset dst \<and>
    space_used ?d = space_used dst + total_size (prefix_length dst) (take c (drop ss (content src)))"
    using Suc.prems t by (intro Suc.IH) (auto simp: slots_end_def)
  have fr: "same_frame dst ?d" using IH by simp
  have hp: "has_prefix ?d k"
    using Suc.prems(2) [of "(k, v)"] t same_frame_has_prefix [OF fr] by simp
  have f: "slots_end (Suc (ds + c)) + entry_size (prefix_length ?d) (k, v) \<le> data_offset ?d"
    using Suc.prems(3) t IH by (simp add: same_frame_prefix_length [OF fr])
  note A = holds_append [OF _ hp f, of "es @ take c (drop ss (content src))"]
  show ?case
    using A IH same_frame_trans [OF fr]
    by (simp add: copyKeyValue_def kv t same_frame_prefix_length [OF fr])
qed

text \<open>The fast path of \<open>copyKeyValueRange\<close> computes the same node as the per-entry loop: after \<open>c\<close> rounds the
  only difference is that the slots still to be visited already have their source values.\<close>

definition overlay :: "btree_node \<Rightarrow> nat \<Rightarrow> nat \<Rightarrow> nat \<Rightarrow> nat \<Rightarrow> btree_node \<Rightarrow> btree_node" where
  "overlay src ds ss cnt c d =
     d\<lparr>slot := (\<lambda>j. if ds + c \<le> j \<and> j < ds + cnt then slot src (ss + (j - ds)) else slot d j)\<rparr>"

lemma write_mem_split:
  "len = length k + length v \<Longrightarrow> read_mem h off len = k @ v \<Longrightarrow>
     write_mem g o' (read_mem h off len) = write_mem (write_mem g o' k) (o' + length k) v"
  by (simp add: write_mem_append)

lemma copy_fast_step_overlay:
  assumes wf: "wf_node src" and i: "ss + i < count src" and ic: "i < cnt"
    and p: "prefix_length d = prefix_length src"
  shows "copy_fast_step src ds ss i (overlay src ds ss cnt i d) =
    overlay src ds ss cnt (Suc i) (copyKeyValue src (ss + i) d (ds + i))"
proof -
  let ?s = "slot src (ss + i)"
  have ok: "slot_ok src ?s" by (rule wf_slot_ok [OF wf i])
  have b: "s_key_len ?s + s_payload_len ?s \<le> 16352"
    using ok by (simp add: slot_ok_def slot_size_def)
  have hd: "s_head ?s = head (getKey src (ss + i))" by (rule wf_head [OF wf i])
  have kl: "u16 (int (s_key_len ?s)) = s_key_len ?s" using b by (intro u16_of_nat) simp
  have sp: "u16 (int (s_key_len ?s) + int (s_payload_len ?s)) = s_key_len ?s + s_payload_len ?s"
    using b by (intro u16_add) simp
  have kv: "u32_of (int (s_key_len ?s) + int (s_payload_len ?s)) = s_key_len ?s + s_payload_len ?s"
    using b u32_of_nat [of "s_key_len ?s + s_payload_len ?s"] by simp
  have pm: "s_payload_len ?s mod 32768 = s_payload_len ?s" using b by simp
  have k: "drop (prefix_length src) (copyFullKey src (ss + i)) = getKey src (ss + i)"
    "length (copyFullKey src (ss + i)) = prefix_length src + s_key_len ?s"
    "length (getPayload src (ss + i)) = s_payload_len ?s"
    by (simp_all add: copyFullKey_def getKey_def getPayload_def)
  have w: "write_mem (page d) off (read_mem (page src) (s_offset ?s) (s_key_len ?s + s_payload_len ?s)) =
     write_mem (write_mem (page d) off (getKey src (ss + i))) (off + s_key_len ?s) (getPayload src (ss + i))" for off
    by (subst write_mem_split [where k = "getKey src (ss + i)" and v = "getPayload src (ss + i)"])
      (simp_all add: getKey_def getPayload_def read_mem_append)
  have s: "?s\<lparr>s_offset := off\<rparr> = \<lparr>s_offset = off, s_key_len = s_key_len ?s, s_payload_len = s_payload_len ?s,
      s_head = head (getKey src (ss + i))\<rparr>" for off
    using hd by (cases ?s) simp
  note unf = copy_fast_step_def overlay_def copyKeyValue_def storeKeyValue_def Let_def p kl sp kv pm k w s
    getKeyLen_def getPayloadLength_def
  show ?thesis
    by (rule btree_node.equality) (use ic in \<open>simp_all add: unf fun_eq_iff\<close>)
qed

lemma copyKeyValue_prefix_length [simp]: "prefix_length (copyKeyValue src i d j) = prefix_length d"
  by (simp add: copyKeyValue_def storeKeyValue_def Let_def)

lemma copy_loop_prefix_length [simp]: "prefix_length (copy_loop src ds ss c d) = prefix_length d"
  by (induction c) simp_all

lemma copy_fast_eq_loop:
  assumes wf: "wf_node src" and c: "ss + cnt \<le> count src" and p: "prefix_length dst = prefix_length src"
  shows "fold (copy_fast_step src ds ss) [0..<cnt] (copy_slots src dst ds ss cnt) = copy_loop src ds ss cnt dst"
proof -
  have "m \<le> cnt \<Longrightarrow> fold (copy_fast_step src ds ss) [0..<m] (copy_slots src dst ds ss cnt) =
      overlay src ds ss cnt m (copy_loop src ds ss m dst)" for m
  proof (induction m)
    case 0
    then show ?case by (simp add: copy_slots_def overlay_def)
  next
    case (Suc m)
    then show ?case using copy_fast_step_overlay [OF wf, of ss m cnt "copy_loop src ds ss m dst" ds] c p by simp
  qed
  moreover have "overlay src ds ss cnt cnt d = d" for d
    by (rule btree_node.equality) (auto simp: overlay_def fun_eq_iff)
  ultimately show ?thesis by simp
qed

lemma copyKeyValueRange_loop:
  assumes "wf_node src" "ss + cnt \<le> count src"
  shows "copyKeyValueRange src dst ds ss cnt =
    (copy_loop src ds ss cnt dst)\<lparr>count := u16 (int (count (copy_loop src ds ss cnt dst)) + int cnt)\<rparr>"
  using copy_fast_eq_loop [OF assms, of dst] by (simp add: copyKeyValueRange_def Let_def copy_loop_def)

lemma copyKeyValueRange_holds:
  assumes wf: "wf_node src" and h: "holds (count dst) dst es" and c: "ss + cnt \<le> count src"
    and pre: "\<And>e. e \<in> set (take cnt (drop ss (content src))) \<Longrightarrow> has_prefix dst (fst e)"
    and fit: "slots_end (count dst + cnt) + total_size (prefix_length dst) (take cnt (drop ss (content src))) \<le> data_offset dst"
  shows "let d' = copyKeyValueRange src dst (count dst) ss cnt in
    holds (count dst + cnt) d' (es @ take cnt (drop ss (content src))) \<and>
    count d' = count dst + cnt \<and> same_frame dst (d'\<lparr>count := count dst\<rparr>) \<and>
    data_offset d' + total_size (prefix_length dst) (take cnt (drop ss (content src))) = data_offset dst \<and>
    space_used d' = space_used dst + total_size (prefix_length dst) (take cnt (drop ss (content src)))"
proof -
  note A = copy_loop_holds [OF h c pre fit]
  let ?l = "copy_loop src (count dst) ss cnt dst"
  have "count dst + cnt < 65536"
    using fit h by (simp add: holds_def layout_def slots_end_def)
  then have "u16 (int (count dst) + int cnt) = count dst + cnt" by (rule u16_add)
  moreover have "count ?l = count dst" using A by (simp add: same_frame_def)
  moreover have "same_frame dst (?l\<lparr>count := count dst\<rparr>)" using A by (simp add: same_frame_def)
  ultimately show ?thesis using A by (simp add: copyKeyValueRange_loop [OF wf c])
qed

section \<open>Building a page\<close>

abbreviation opt_len :: "bytes option \<Rightarrow> nat" where
  "opt_len k \<equiv> (case k of None \<Rightarrow> 0 | Some l \<Rightarrow> length l)"

definition prefix_of :: "bytes option \<Rightarrow> bytes option \<Rightarrow> nat" where
  "prefix_of lo hi = (case (lo, hi) of (Some l, Some u) \<Rightarrow> common_len l u | _ \<Rightarrow> 0)"

lemma prefix_ok_iff: "prefix_ok n \<longleftrightarrow> prefix_length n = prefix_of (getLowerFenceKey n) (getUpperFenceKey n)"
  by (simp add: prefix_ok_def prefix_of_def split: option.splits)

lemma setFences_new:
  assumes fit: "slots_end 0 + opt_len lo + opt_len hi \<le> EFFECTIVE_PAGE_SIZE"
  shows "let n = setFences (new_node leaf) lo hi in
    holds 0 n [] \<and> getLowerFenceKey n = lo \<and> getUpperFenceKey n = hi \<and> count n = 0 \<and> is_leaf n = leaf \<and>
    upper n = 0 \<and>
    data_offset n + (opt_len lo + opt_len hi) = EFFECTIVE_PAGE_SIZE \<and> space_used n = opt_len lo + opt_len hi \<and>
    f_length (lower_fence n) = opt_len lo \<and> f_length (upper_fence n) = opt_len hi \<and>
    prefix_length n = prefix_of lo hi"
proof -
  have f: "slots_end 0 = 92" by (simp add: slots_end_def)
  have d: "u16 (16352 - int (length l)) = 16352 - length l" if "length l \<le> 16352" for l :: bytes
    using u16_diff [of "length l" 16352] that by simp
  have d2: "u16 (16352 - int (length l) - int (length u)) = 16352 - length l - length u"
    if "length l + length u \<le> 16352" for l u :: bytes
    using that u16_diff [of "length u" "16352 - length l"] by (simp add: of_nat_diff)
  have s: "u16 (int (length l) + int (length u)) = length l + length u"
    if "length l + length u \<le> 16352" for l u :: bytes
    using that by (intro u16_add) simp_all
  have s1: "u16 (int (length l)) = length l" if "length l \<le> 16352" for l :: bytes
    using that by (intro u16_of_nat) simp_all
  note defs = setFences_def insertFence_def new_node_def holds_def layout_def slots_to_def fence_ok_def
    getLowerFenceKey_def getUpperFenceKey_def prefix_ok_def prefix_of_def Let_def
  show ?thesis
    using fit
    by (cases lo; cases hi) (auto simp: defs f d d2 s s1 mem_simps)
qed

lemma makeHint_frame [simp]:
  "count (makeHint n) = count n" "is_leaf (makeHint n) = is_leaf n" "upper (makeHint n) = upper n"
  "space_used (makeHint n) = space_used n" "data_offset (makeHint n) = data_offset n"
  "prefix_length (makeHint n) = prefix_length n" "slot (makeHint n) = slot n" "page (makeHint n) = page n"
  "getLowerFenceKey (makeHint n) = getLowerFenceKey n" "getUpperFenceKey (makeHint n) = getUpperFenceKey n"
  "holds m (makeHint n) es = holds m n es" "in_fences (makeHint n) = in_fences n"
  "entry (makeHint n) = entry n" "getPrefix (makeHint n) = getPrefix n"
  "lower_fence (makeHint n) = lower_fence n" "upper_fence (makeHint n) = upper_fence n"
  by (simp_all add: makeHint_def Let_def)

lemma hint_ok_makeHint [simp]: "hint_ok (makeHint n)"
  by (simp add: hint_ok_def makeHint_def Let_def)

lemma holds_content: "holds (count n) n es \<Longrightarrow> content n = es"
  by (simp add: holds_def content_def slots_to_count)

lemma wf_holds: "wf_node n \<Longrightarrow> holds (count n) n (content n)"
  by (simp add: holds_def wf_node_def content_def slots_to_count)

lemma wf_nodeI:
  assumes "holds (count n) n es" "sorted_wrt (<) (map fst es)" "\<And>e. e \<in> set es \<Longrightarrow> in_fences n (fst e)"
    "hint_ok n"
  shows "wf_node n"
  using assms holds_content [OF assms(1)] by (auto simp: wf_node_def keys_def holds_def slots_to_count)

lemma wf_sorted_keys: "wf_node n \<Longrightarrow> sorted_wrt (<) (map fst (content n))"
  by (simp add: wf_node_def keys_def)

lemma wf_content_in_fences: "wf_node n \<Longrightarrow> e \<in> set (content n) \<Longrightarrow> in_fences n (fst e)"
  by (simp add: wf_node_def keys_def)

lemma entry_size_content: "map (entry_size (prefix_length n)) (content n) = map slot_size (slots n)"
  by (simp add: content_def entry_size_def entry_def slot_key_def slot_payload_def slot_size_def)

lemma wf_space:
  assumes "wf_node n"
  shows "space_used n = f_length (lower_fence n) + f_length (upper_fence n) + total_size (prefix_length n) (content n)"
    "slots_end (count n) + space_used n \<le> EFFECTIVE_PAGE_SIZE"
    "opt_len (getLowerFenceKey n) = f_length (lower_fence n)"
    "opt_len (getUpperFenceKey n) = f_length (upper_fence n)"
  using assms entry_size_content [of n]
  by (auto simp: wf_node_def layout_def slots_end_def getLowerFenceKey_def getUpperFenceKey_def fence_ok_def)

lemma in_fences_cong:
  "getLowerFenceKey n' = getLowerFenceKey n \<Longrightarrow> getUpperFenceKey n' = getUpperFenceKey n \<Longrightarrow>
     in_fences n' k = in_fences n k"
  by (simp add: in_fences_def)

text \<open>Pages that \<open>compactify\<close>, \<open>split\<close> and \<open>merge\<close> fill from scratch: fences, then entries, with no hole in the heap.\<close>

definition built :: "btree_node \<Rightarrow> bool \<Rightarrow> bytes option \<Rightarrow> bytes option \<Rightarrow> (bytes \<times> bytes) list \<Rightarrow> bool" where
  "built n leaf lo hi es \<longleftrightarrow>
     holds (count n) n es \<and> is_leaf n = leaf \<and> getLowerFenceKey n = lo \<and> getUpperFenceKey n = hi \<and>
     data_offset n + space_used n = EFFECTIVE_PAGE_SIZE \<and>
     space_used n = opt_len lo + opt_len hi + total_size (prefix_of lo hi) es"

definition between :: "bytes option \<Rightarrow> bytes option \<Rightarrow> bytes \<Rightarrow> bool" where
  "between lo hi k \<longleftrightarrow> above lo k \<and> upto hi k"

lemma in_fences_between: "in_fences n = between (getLowerFenceKey n) (getUpperFenceKey n)"
  by (simp add: in_fences_def between_def fun_eq_iff)

lemma built_frame [simp]:
  "built (n\<lparr>upper := u\<rparr>) leaf lo hi es = built n leaf lo hi es"
  "built (makeHint n) leaf lo hi es = built n leaf lo hi es"
  by (simp_all add: built_def)

lemma built_prefix: "built n leaf lo hi es \<Longrightarrow> prefix_length n = prefix_of lo hi"
  by (auto simp: built_def holds_def prefix_ok_iff)

lemma built_count: "built n leaf lo hi es \<Longrightarrow> count n = length es"
  by (auto simp: built_def holds_def dest: arg_cong [where f = length])

lemma built_fences:
  assumes "slots_end 0 + opt_len lo + opt_len hi \<le> EFFECTIVE_PAGE_SIZE"
  shows "built (setFences (new_node leaf) lo hi) leaf lo hi []"
  using setFences_new [OF assms, of leaf] by (simp add: built_def Let_def)

lemma built_has_prefix: "built n leaf lo hi es \<Longrightarrow> between lo hi k \<Longrightarrow> has_prefix n k"
  by (rule in_fences_has_prefix) (auto simp: built_def holds_def in_fences_between)

lemma built_store:
  assumes b: "built d leaf lo hi es" and k: "between lo hi k"
    and fit: "slots_end (Suc (count d)) + opt_len lo + opt_len hi + total_size (prefix_of lo hi) (es @ [(k, v)])
      \<le> EFFECTIVE_PAGE_SIZE"
  shows "built ((storeKeyValue d (count d) k v)\<lparr>count := Suc (count d)\<rparr>) leaf lo hi (es @ [(k, v)])"
  using holds_append [of "count d" d es k v] b built_has_prefix [OF b k] built_prefix [OF b] fit
  by (simp add: built_def same_frame_def)

lemma built_copy:
  assumes wf: "wf_node src" and b: "built d leaf lo hi es" and c: "ss + cnt \<le> count src"
    and k: "\<And>e. e \<in> set (take cnt (drop ss (content src))) \<Longrightarrow> between lo hi (fst e)"
    and fit: "slots_end (count d + cnt) + opt_len lo + opt_len hi +
      total_size (prefix_of lo hi) (es @ take cnt (drop ss (content src))) \<le> EFFECTIVE_PAGE_SIZE"
  shows "built (copyKeyValueRange src d (count d) ss cnt) leaf lo hi (es @ take cnt (drop ss (content src))) \<and>
    upper (copyKeyValueRange src d (count d) ss cnt) = upper d"
proof -
  have h: "holds (count d) d es" using b by (simp add: built_def)
  have "let d' = copyKeyValueRange src d (count d) ss cnt in
    holds (count d + cnt) d' (es @ take cnt (drop ss (content src))) \<and>
    count d' = count d + cnt \<and> same_frame d (d'\<lparr>count := count d\<rparr>) \<and>
    data_offset d' + total_size (prefix_length d) (take cnt (drop ss (content src))) = data_offset d \<and>
    space_used d' = space_used d + total_size (prefix_length d) (take cnt (drop ss (content src)))"
    by (rule copyKeyValueRange_holds [OF wf h c])
      (use built_has_prefix [OF b k] fit b built_prefix [OF b] in \<open>auto simp: built_def\<close>)
  then show ?thesis
    using b built_prefix [OF b] by (simp add: built_def Let_def same_frame_def)
qed

lemma built_wf:
  assumes b: "built n leaf lo hi es" and s: "sorted_wrt (<) (map fst es)"
    and k: "\<And>e. e \<in> set es \<Longrightarrow> between lo hi (fst e)"
  shows "wf_node (makeHint n)" "content (makeHint n) = es"
proof -
  have h: "holds (count (makeHint n)) (makeHint n) es" using b by (simp add: built_def)
  show "content (makeHint n) = es" by (rule holds_content [OF h])
  show "wf_node (makeHint n)"
    by (rule wf_nodeI [OF h s]) (use b k in \<open>auto simp: built_def in_fences_between\<close>)
qed

lemma wf_prefix: "wf_node n \<Longrightarrow> prefix_length n = prefix_of (getLowerFenceKey n) (getUpperFenceKey n)"
  by (simp add: wf_node_def prefix_ok_iff)

lemma compactify_built:
  assumes wf: "wf_node n"
  shows "built (compactify n) (is_leaf n) (getLowerFenceKey n) (getUpperFenceKey n) (content n)"
    "upper (compactify n) = upper n"
proof -
  let ?t = "setFences (new_node (is_leaf n)) (getLowerFenceKey n) (getUpperFenceKey n)"
  note sp = wf_space [OF wf]
  have t: "built ?t (is_leaf n) (getLowerFenceKey n) (getUpperFenceKey n) []"
    by (rule built_fences) (use sp in \<open>simp add: slots_end_def\<close>)
  have c: "count ?t = 0" using built_count [OF t] by simp
  have "built (copyKeyValueRange n ?t (count ?t) 0 (count n)) (is_leaf n) (getLowerFenceKey n) (getUpperFenceKey n)
     ([] @ take (count n) (drop 0 (content n))) \<and>
     upper (copyKeyValueRange n ?t (count ?t) 0 (count n)) = upper ?t"
    by (rule built_copy [OF wf t])
      (use sp wf_content_in_fences [OF wf] in \<open>auto simp: in_fences_between c wf_prefix [OF wf, symmetric]\<close>)
  then show "built (compactify n) (is_leaf n) (getLowerFenceKey n) (getUpperFenceKey n) (content n)"
    by (simp add: compactify_def Let_def c)
  show "upper (compactify n) = upper n" by (simp add: compactify_def Let_def)
qed

lemma makeHint_idem [simp]: "makeHint (makeHint n) = makeHint n"
  by (rule btree_node.equality) (simp_all add: makeHint_def Let_def fun_eq_iff)

lemma compactify_makeHint: "makeHint (compactify n) = compactify n"
  by (simp add: compactify_def Let_def)

lemma compactify_spec:
  assumes wf: "wf_node n"
  shows "wf_node (compactify n)" "content (compactify n) = content n"
    "getLowerFenceKey (compactify n) = getLowerFenceKey n"
    "getUpperFenceKey (compactify n) = getUpperFenceKey n"
    "count (compactify n) = count n" "is_leaf (compactify n) = is_leaf n" "upper (compactify n) = upper n"
    "space_used (compactify n) = space_used n" "prefix_length (compactify n) = prefix_length n"
    "data_offset (compactify n) + space_used n = EFFECTIVE_PAGE_SIZE"
  using built_wf [OF compactify_built(1) [OF wf] wf_sorted_keys [OF wf]] compactify_built [OF wf]
    wf_content_in_fences [OF wf] built_count [OF compactify_built(1) [OF wf]] wf_space [OF wf]
    built_prefix [OF compactify_built(1) [OF wf]] wf_prefix [OF wf]
  by (simp_all add: compactify_makeHint in_fences_between built_def)

section \<open>Properties\<close>



end
