(* ===== verification/BTreeNodeInsert.thy ===== *)
theory BTreeNodeInsert
  imports BTreeNodeOps
begin

text \<open>
  Correctness of the single-entry operations of \<open>BTreeNode\<close>: making room, insertion (with and without
  the payload), removal, shortening and overwriting a payload. Each keeps a node well-formed and acts on
  its contents as the corresponding list operation.
\<close>

section \<open>Making room\<close>

lemma wf_freeSpace: "wf_node n \<Longrightarrow> freeSpace n = data_offset n - slots_end (count n)"
  using wf_count_bound [of n] unfolding freeSpace_def by (intro u16_diff) auto

lemma wf_freeSpaceAfterCompaction:
  assumes "wf_node n"
  shows "freeSpaceAfterCompaction n = EFFECTIVE_PAGE_SIZE - (slots_end (count n) + space_used n)"
  using wf_space(2) [OF assms] u16_diff [of "slots_end (count n) + space_used n" EFFECTIVE_PAGE_SIZE]
  by (simp add: freeSpaceAfterCompaction_def algebra_simps)

text \<open>The number that \<open>assert(freeSpace() == should)\<close> checks at the end of \<open>compactify\<close>.\<close>

lemma compactify_freeSpace:
  assumes "wf_node n"
  shows "freeSpace (compactify n) = freeSpaceAfterCompaction n"
  using compactify_spec [OF assms] wf_freeSpace [of "compactify n"] wf_freeSpaceAfterCompaction [OF assms]
  by simp

text \<open>Entries whose slot, key and payload together stay below 64 KiB, so that \<open>spaceNeeded\<close> does not wrap.\<close>

definition small :: "nat \<Rightarrow> nat \<Rightarrow> bool" where
  "small key_len payload_len \<longleftrightarrow> SIZEOF_SLOT + key_len + payload_len < 65536"

lemma spaceNeeded_small:
  assumes "small kl pl" "prefix_length n \<le> kl"
  shows "spaceNeeded n kl pl = SIZEOF_SLOT + (kl - prefix_length n) + pl"
proof -
  have "int SIZEOF_SLOT + (int kl - int (prefix_length n)) + int pl = int (SIZEOF_SLOT + (kl - prefix_length n) + pl)"
    using assms(2) by simp
  moreover have "SIZEOF_SLOT + (kl - prefix_length n) + pl < 65536" using assms(1) by (simp add: small_def)
  ultimately show ?thesis using u16_of_nat by (metis spaceNeeded_def)
qed

lemma slots_end_Suc: "slots_end (Suc c) = slots_end c + SIZEOF_SLOT"
  by (simp add: slots_end_def)

text \<open>The same logical node: compaction changes only where entries lie.\<close>

definition same_node :: "btree_node \<Rightarrow> btree_node \<Rightarrow> bool" where
  "same_node n n' \<longleftrightarrow>
     content n' = content n \<and> getLowerFenceKey n' = getLowerFenceKey n \<and>
     getUpperFenceKey n' = getUpperFenceKey n \<and> is_leaf n' = is_leaf n \<and> upper n' = upper n \<and>
     prefix_length n' = prefix_length n \<and> space_used n' = space_used n"

lemma same_node_refl [simp]: "same_node n n"
  by (simp add: same_node_def)

lemma same_node_facts:
  assumes "same_node n n'"
  shows "keys n' = keys n" "in_fences n' = in_fences n" "count n' = count n"
proof -
  show "keys n' = keys n" using assms by (simp add: same_node_def keys_def)
  show "in_fences n' = in_fences n" using assms by (simp add: same_node_def in_fences_between)
  have "length (content n') = length (content n)" using assms by (simp add: same_node_def)
  then show "count n' = count n" by simp
qed

lemma requestSpaceFor_spec:
  assumes wf: "wf_node n" and sp: "hasEnoughSpaceFor n space"
  shows "fst (requestSpaceFor n space)" "wf_node (snd (requestSpaceFor n space))"
    "same_node n (snd (requestSpaceFor n space))"
    "slots_end (count n) + space \<le> data_offset (snd (requestSpaceFor n space)) \<or> space = 0"
proof -
  note c = compactify_spec [OF wf]
  have same: "same_node n (compactify n)" using c by (simp add: same_node_def)
  have room: "slots_end (count n) + space \<le> data_offset (compactify n) \<or> space = 0"
    if "space \<le> freeSpaceAfterCompaction n"
    using that c wf_space(2) [OF wf] wf_freeSpaceAfterCompaction [OF wf] by auto
  have room': "slots_end (count n) + space \<le> data_offset n \<or> space = 0" if "space \<le> freeSpace n"
    using that wf_freeSpace [OF wf] by auto
  show "fst (requestSpaceFor n space)" "wf_node (snd (requestSpaceFor n space))"
    "same_node n (snd (requestSpaceFor n space))"
    "slots_end (count n) + space \<le> data_offset (snd (requestSpaceFor n space)) \<or> space = 0"
    using sp wf same c(1) room room' by (auto simp: requestSpaceFor_def hasEnoughSpaceFor_def)
qed

lemma requestSpaceFor_fails:
  "\<not> hasEnoughSpaceFor n space \<Longrightarrow> requestSpaceFor n space = (False, n)"
  by (simp add: requestSpaceFor_def hasEnoughSpaceFor_def)

lemma prepareInsert_spec:
  assumes wf: "wf_node n" and ci: "canInsert n kl pl" and s: "small kl pl" and p: "prefix_length n \<le> kl"
  defines "n' \<equiv> snd (prepareInsert n kl pl)"
  shows "wf_node n'" "same_node n n'"
    "slots_end (Suc (count n')) + (kl - prefix_length n' + pl) \<le> data_offset n'"
proof -
  note R = requestSpaceFor_spec [OF wf ci [unfolded canInsert_def]]
  show "wf_node n'" and sn: "same_node n n'" using R by (simp_all add: n'_def prepareInsert_def)
  have "slots_end (count n) + spaceNeeded n kl pl \<le> data_offset n' \<or> spaceNeeded n kl pl = 0"
    using R by (simp add: n'_def prepareInsert_def)
  moreover have "count n' = count n" "prefix_length n' = prefix_length n"
    using sn same_node_facts [OF sn] by (simp_all add: same_node_def)
  ultimately show "slots_end (Suc (count n')) + (kl - prefix_length n' + pl) \<le> data_offset n'"
    using spaceNeeded_small [OF s p] by (simp add: slots_end_Suc)
qed

section \<open>Hints after an insertion\<close>

text \<open>\<open>updateHint\<close> leaves the hints before \<open>begin\<close> as they are. They point before the inserted slot, and the distance
  between hints has not changed, so they are still right: the assertion at the end of \<open>updateHint\<close> holds.\<close>

lemma updateHint_ok:
  assumes old: "hint_ok n0" and c: "count n = Suc (count n0)" and h: "hint n = hint n0"
    and before: "\<And>j. j < slotId \<Longrightarrow> slot n j = slot n0 j"
  shows "hint_ok (updateHint n slotId)"
proof -
  let ?dist = "count n div (hint_count + 1)"
  have "hint (updateHint n slotId) i = s_head (slot n (?dist * (i + 1)))" if big: "count n > hint_count * 2" and i: "i < hint_count" for i
  proof (cases "count n > hint_count * 2 + 1 \<and> (count n - 1) div (hint_count + 1) = ?dist \<and> slotId div ?dist > 1
      \<and> i < slotId div ?dist - 1")
    case False
    then show ?thesis using i by (auto simp: updateHint_def Let_def)
  next
    case True
    then have u: "hint (updateHint n slotId) i = hint n i" by (auto simp: updateHint_def Let_def)
    have "count n0 > hint_count * 2" "count n0 div (hint_count + 1) = ?dist" using True c by simp_all
    then have "hint n i = s_head (slot n0 (?dist * (i + 1)))"
      using old i h by (simp add: hint_ok_def)
    moreover have "?dist * (i + 1) < slotId"
    proof -
      have "i + 1 < slotId div ?dist" using True unfolding less_diff_conv by blast
      moreover have "?dist > 0" using True by (simp add: div_greater_zero_iff)
      ultimately have "?dist * (i + 1) < ?dist * (slotId div ?dist)" by (rule mult_less_mono2)
      then show ?thesis using times_div_less_eq_dividend [of ?dist slotId] by linarith
    qed
    ultimately show ?thesis using before u by simp
  qed
  then show ?thesis by (simp add: hint_ok_def updateHint_def Let_def)
qed

lemma updateHint_frame [simp]:
  "count (updateHint n i) = count n" "is_leaf (updateHint n i) = is_leaf n" "upper (updateHint n i) = upper n"
  "space_used (updateHint n i) = space_used n" "data_offset (updateHint n i) = data_offset n"
  "prefix_length (updateHint n i) = prefix_length n" "slot (updateHint n i) = slot n" "page (updateHint n i) = page n"
  "getLowerFenceKey (updateHint n i) = getLowerFenceKey n" "getUpperFenceKey (updateHint n i) = getUpperFenceKey n"
  "holds m (updateHint n i) es = holds m n es" "in_fences (updateHint n i) = in_fences n"
  by (simp_all add: updateHint_def Let_def)

section \<open>Insertion\<close>

text \<open>The common part of \<open>insert\<close> and \<open>insertDoNotCopyPayload\<close>: \<open>m\<close> is the node after the slots have been shifted
  and the entry has been stored at the key's position.\<close>

lemma insert_slot_wf:
  assumes wf: "wf_node n" and k: "in_fences n key" and new: "key \<notin> set (keys n)"
    and p: "p = rank (keys n) key"
    and fit: "slots_end (Suc (count n)) + (length key - prefix_length n + pl) \<le> data_offset n"
    and st: "stored n (drop (prefix_length n) key) pl (slot m p) m"
    and lo: "\<And>j. j < p \<Longrightarrow> slot m j = slot n j"
    and hi: "\<And>j. p < j \<Longrightarrow> j \<le> count n \<Longrightarrow> slot m j = slot n (j - 1)"
    and fr: "is_leaf m = is_leaf n" "upper m = upper n" "hint m = hint n"
  defines "r \<equiv> updateHint (m\<lparr>count := Suc (count n)\<rparr>) p"
  shows "wf_node r" "content r = insert_at p (key, slot_payload m (slot m p)) (content n)"
    "getLowerFenceKey r = getLowerFenceKey n" "getUpperFenceKey r = getUpperFenceKey n"
    "is_leaf r = is_leaf n" "upper r = upper n" "prefix_length r = prefix_length n"
    "space_used r = space_used n + (length key - prefix_length n + pl)"
    "data_offset r + (length key - prefix_length n + pl) = data_offset n" "slot r = slot m" "page r = page m"
proof -
  have pc: "p \<le> count n" using rank_le [of "keys n" key] p by simp
  have L: "layout (slots n) n" and P: "prefix_ok n" and H: "hint_ok n" using wf by (simp_all add: wf_node_def)
  have hp: "has_prefix n key" by (rule in_fences_has_prefix [OF P k])
  have A: "layout (insert_at p (slot m p) (slots n)) m \<and> prefix_ok m \<and> getPrefix m = getPrefix n \<and>
    getLowerFenceKey m = getLowerFenceKey n \<and> getUpperFenceKey m = getUpperFenceKey n \<and>
    map (entry m) (slots n) = map (entry n) (slots n) \<and>
    entry m (slot m p) = (getPrefix n @ drop (prefix_length n) key, slot_payload m (slot m p))"
    by (rule stored_layout [OF st L P]) (use fit in simp)
  have sl: "slots_to (Suc (count n)) m = insert_at p (slot m p) (slots n)"
  proof -
    have "slots_to (Suc (count n)) m =
        map (\<lambda>i. if i < p then slot n i else if i = p then slot m p else slot n (i - 1)) [0..<Suc (count n)]"
      unfolding slots_to_def using lo hi by (intro map_cong refl) auto
    also have "\<dots> = insert_at p (slot m p) (slots n)"
      unfolding slots_def by (rule map_upt_insert [OF pc])
    finally show ?thesis .
  qed
  have "map (entry m) (slots_to (Suc (count n)) m) = insert_at p (key, slot_payload m (slot m p)) (content n)"
    unfolding sl map_insert_at using A has_prefix_append [OF hp] by (simp only: content_def)
  then have "holds (Suc (count n)) m (insert_at p (key, slot_payload m (slot m p)) (content n))"
    using A sl by (simp add: holds_def)
  then have h: "holds (count r) r (insert_at p (key, slot_payload m (slot m p)) (content n))"
    by (simp add: r_def)
  show F: "getLowerFenceKey r = getLowerFenceKey n" "getUpperFenceKey r = getUpperFenceKey n"
    "is_leaf r = is_leaf n" "upper r = upper n" "prefix_length r = prefix_length n"
    using A fr st by (simp_all add: r_def stored_def heap_extends_def)
  show "space_used r = space_used n + (length key - prefix_length n + pl)"
    "data_offset r + (length key - prefix_length n + pl) = data_offset n" "slot r = slot m" "page r = page m"
    using st by (simp_all add: r_def stored_def)
  show "content r = insert_at p (key, slot_payload m (slot m p)) (content n)" by (rule holds_content [OF h])
  show "wf_node r"
  proof (rule wf_nodeI [OF h])
    have "sorted_wrt (<) (keys n)" using wf by (simp add: wf_node_def)
    from sorted_insert_at_rank [OF this new]
    show "sorted_wrt (<) (map fst (insert_at p (key, slot_payload m (slot m p)) (content n)))"
      by (simp add: map_insert_at keys_def p)
    show "in_fences r (fst e)" if "e \<in> set (insert_at p (key, slot_payload m (slot m p)) (content n))" for e
      using that k wf_content_in_fences [OF wf, of e] F by (auto simp: set_insert_at in_fences_between)
    show "hint_ok r" unfolding r_def
      by (rule updateHint_ok [OF H]) (use fr lo in simp_all)
  qed
qed

lemma frame_slot:
  "layout ss (n\<lparr>slot := f\<rparr>) = layout ss n" "prefix_ok (n\<lparr>slot := f\<rparr>) = prefix_ok n"
  "getPrefix (n\<lparr>slot := f\<rparr>) = getPrefix n" "has_prefix (n\<lparr>slot := f\<rparr>) k = has_prefix n k"
  "stored (n\<lparr>slot := f\<rparr>) sfx pl s m = stored n sfx pl s m"
  by (simp_all add: layout_def prefix_ok_def getPrefix_def getLowerFenceKey_def getUpperFenceKey_def
      slot_ok_def slot_key_def fence_ok_def has_prefix_def stored_def heap_extends_def)

lemma count_u16:
  assumes "slots_end (Suc (count n)) \<le> EFFECTIVE_PAGE_SIZE"
  shows "u16 (int (count n) + 1) = Suc (count n)"
  using assms u16_of_nat [of "Suc (count n)"] by (simp add: slots_end_def add.commute)

text \<open>\<open>BTreeNode::insert\<close>. The position returned is the key's rank, the old contents keep their order, and the payload
  read back is the payload given.\<close>

lemma node_insert_spec:
  assumes wf: "wf_node n" and k: "in_fences n key" and new: "key \<notin> set (keys n)"
    and ci: "canInsert n (length key) (length payload)" and s: "small (length key) (length payload)"
  shows "fst (node_insert n key payload) = rank (keys n) key"
    "wf_node (snd (node_insert n key payload))"
    "content (snd (node_insert n key payload)) = insert_at (rank (keys n) key) (key, payload) (content n)"
    "getLowerFenceKey (snd (node_insert n key payload)) = getLowerFenceKey n"
    "getUpperFenceKey (snd (node_insert n key payload)) = getUpperFenceKey n"
    "is_leaf (snd (node_insert n key payload)) = is_leaf n" "upper (snd (node_insert n key payload)) = upper n"
    "prefix_length (snd (node_insert n key payload)) = prefix_length n"
    "space_used (snd (node_insert n key payload)) = space_used n + entry_size (prefix_length n) (key, payload)"
proof -
  have "prefix_length n \<le> length key"
    using in_fences_has_prefix [of n key] wf k by (simp add: wf_node_def has_prefix_def)
  note PI = prepareInsert_spec [OF wf ci s this]
  define n1 where "n1 = snd (prepareInsert n (length key) (length payload))"
  have wf1: "wf_node n1" and sn: "same_node n n1" and
    fit: "slots_end (Suc (count n1)) + (length key - prefix_length n1 + length payload) \<le> data_offset n1"
    using PI by (simp_all add: n1_def)
  note F = same_node_facts [OF sn]
  define p where "p = rank (keys n1) key"
  have lb: "lowerBound False n1 key = (int p, is_leaf n1 \<and> key \<in> set (keys n1))"
    unfolding p_def by (rule lowerBound_spec [OF wf1])
  define n2 where "n2 = shift_up n1 p"
  define m where "m = storeKeyValue n2 p key payload"
  have pc: "p \<le> count n1" using rank_le [of "keys n1" key] by (simp add: p_def)
  have hp: "has_prefix n1 key" using wf1 k F by (intro in_fences_has_prefix) (simp_all add: wf_node_def)
  have d1: "data_offset n1 \<le> EFFECTIVE_PAGE_SIZE" "space_used n1 + data_offset n1 \<le> EFFECTIVE_PAGE_SIZE"
    using wf1 by (simp_all add: wf_node_def layout_def)
  have n2: "prefix_length n2 = prefix_length n1" "data_offset n2 = data_offset n1" "space_used n2 = space_used n1"
    "has_prefix n2 key" "is_leaf n2 = is_leaf n1" "upper n2 = upper n1" "hint n2 = hint n1" "count n2 = count n1"
    using hp by (simp_all add: n2_def shift_up_def frame_slot)
  have ef: "entry_size (prefix_length n2) (key, payload) \<le> data_offset n2"
    using fit n2 by (simp add: entry_size_def)
  note S = storeKeyValue_stored [OF n2(4) _ ef, where i = p, folded m_def, unfolded n2, OF d1]
  have st: "stored n1 (drop (prefix_length n1) key) (length payload) (slot m p) m"
    using S(1) by (simp add: n2_def shift_up_def frame_slot)
  have R: "node_insert n key payload = (p, updateHint (m\<lparr>count := Suc (count n1)\<rparr>) p)"
    using count_u16 [of n1] fit d1 S(4)
    by (simp add: node_insert_def n1_def [symmetric] lb n2_def [symmetric] m_def [symmetric])
  note I = insert_slot_wf [OF wf1 _ _ p_def fit st, folded R [THEN arg_cong [where f = snd], simplified]]
  have lo: "slot m j = slot n1 j" if "j < p" for j using S(3) [of j] that by (simp add: n2_def shift_up_def)
  have hi: "slot m j = slot n1 (j - 1)" if "p < j" "j \<le> count n1" for j
    using S(3) [of j] that by (simp add: n2_def shift_up_def)
  note I = I [OF _ _ lo hi S(5) S(6) S(7), unfolded F, OF k new]
  show "fst (node_insert n key payload) = rank (keys n) key" by (simp add: R p_def F)
  show "wf_node (snd (node_insert n key payload))"
    "content (snd (node_insert n key payload)) = insert_at (rank (keys n) key) (key, payload) (content n)"
    "getLowerFenceKey (snd (node_insert n key payload)) = getLowerFenceKey n"
    "getUpperFenceKey (snd (node_insert n key payload)) = getUpperFenceKey n"
    "is_leaf (snd (node_insert n key payload)) = is_leaf n" "upper (snd (node_insert n key payload)) = upper n"
    "prefix_length (snd (node_insert n key payload)) = prefix_length n"
    using I S(2) sn by (simp_all add: same_node_def p_def F R)
  show "space_used (snd (node_insert n key payload)) = space_used n + entry_size (prefix_length n) (key, payload)"
    using I sn by (simp add: same_node_def entry_size_def R)
qed

text \<open>Insertion into a node without fences that has the space: used to build concrete pages.\<close>

lemma insert_no_fences:
  assumes wf: "wf_node n" and f: "getLowerFenceKey n = None" "getUpperFenceKey n = None" and new: "key \<notin> set (keys n)"
    and sp: "SIZEOF_SLOT + length key + length payload + slots_end (count n) + space_used n \<le> EFFECTIVE_PAGE_SIZE"
  defines "n' \<equiv> snd (node_insert n key payload)"
  shows "wf_node n'" "content n' = insert_at (rank (keys n) key) (key, payload) (content n)"
    "getLowerFenceKey n' = None" "getUpperFenceKey n' = None" "is_leaf n' = is_leaf n"
    "space_used n' = space_used n + length key + length payload"
proof -
  have p: "prefix_length n = 0" using wf_prefix [OF wf] f by (simp add: prefix_of_def)
  have s: "small (length key) (length payload)" using sp by (simp add: small_def)
  have "spaceNeeded n (length key) (length payload) = SIZEOF_SLOT + length key + length payload"
    using spaceNeeded_small [OF s, of n] p by simp
  then have ci: "canInsert n (length key) (length payload)"
    using sp wf_freeSpaceAfterCompaction [OF wf] by (auto simp: canInsert_def hasEnoughSpaceFor_def)
  have k: "in_fences n key" using f by (simp add: in_fences_def above_def upto_def)
  note S = node_insert_spec [OF wf k new ci s]
  show "wf_node n'" "content n' = insert_at (rank (keys n) key) (key, payload) (content n)"
    "getLowerFenceKey n' = None" "getUpperFenceKey n' = None" "is_leaf n' = is_leaf n"
    "space_used n' = space_used n + length key + length payload"
    using S f p by (simp_all add: n'_def entry_size_def)
qed

text \<open>\<open>insertDoNotCopyPayload\<close> followed by writing the reserved payload is \<open>insert\<close>.\<close>

lemma insertDoNotCopyPayload_write:
  "fst (insertDoNotCopyPayload n key (length payload)) = fst (node_insert n key payload) \<and>
   writePayload (snd (insertDoNotCopyPayload n key (length payload)))
     (fst (insertDoNotCopyPayload n key (length payload))) payload = snd (node_insert n key payload)"
  by (simp add: insertDoNotCopyPayload_def node_insert_def storeKeyValue_def writePayload_def updateHint_def Let_def
      cong: if_cong)

section \<open>Removal\<close>

lemma layout_remove:
  assumes L: "layout ss n" and p: "p < length ss"
    and fr: "page n' = page n" "lower_fence n' = lower_fence n" "upper_fence n' = upper_fence n"
      "data_offset n' = data_offset n" "space_used n' + slot_size (ss ! p) = space_used n"
  shows "layout (remove_at p ss) n'"
proof -
  have "slots_end (length (remove_at p ss)) \<le> slots_end (length ss)" using p by (simp add: slots_end_def)
  moreover have "sum_list (map slot_size ss) = slot_size (ss ! p) + sum_list (map slot_size (remove_at p ss))"
    by (rule sum_list_remove_at [OF p])
  moreover have "slot_ok n' s = slot_ok n s" "fence_ok n' f = fence_ok n f" for s f
    using fr by (simp_all add: slot_ok_def slot_key_def fence_ok_def)
  ultimately show ?thesis
    using L fr set_remove_at_subset [of p ss] sorted_wrt_remove_at [of slot_disjoint ss p]
    unfolding layout_def by auto
qed

lemma frame_entry:
  assumes "page n' = page n" "lower_fence n' = lower_fence n" "upper_fence n' = upper_fence n"
    "prefix_length n' = prefix_length n"
  shows "entry n' = entry n" "getLowerFenceKey n' = getLowerFenceKey n" "getUpperFenceKey n' = getUpperFenceKey n"
    "prefix_ok n' = prefix_ok n" "in_fences n' = in_fences n" "getPrefix n' = getPrefix n"
  using assms by (simp_all add: entry_def [abs_def] getPrefix_def slot_key_def slot_payload_def
      getLowerFenceKey_def getUpperFenceKey_def prefix_ok_def in_fences_def [abs_def])

lemma wf_slot_size_le:
  assumes wf: "wf_node n" and i: "i < count n"
  shows "slot_size (slot n i) \<le> space_used n"
  using sum_list_remove_at [of i "slots n" slot_size] wf i by (simp add: wf_node_def layout_def)

lemma removeSlot_spec:
  assumes wf: "wf_node n" and i: "i < count n"
  shows "wf_node (removeSlot n i)" "content (removeSlot n i) = remove_at i (content n)"
    "getLowerFenceKey (removeSlot n i) = getLowerFenceKey n" "getUpperFenceKey (removeSlot n i) = getUpperFenceKey n"
    "is_leaf (removeSlot n i) = is_leaf n" "upper (removeSlot n i) = upper n"
    "prefix_length (removeSlot n i) = prefix_length n"
    "space_used (removeSlot n i) + slot_size (slot n i) = space_used n"
proof -
  define m where "m = n\<lparr>space_used := space_used n - slot_size (slot n i),
    slot := \<lambda>j. if i \<le> j \<and> j < count n - 1 then slot n (j + 1) else slot n j, count := count n - 1\<rparr>"
  have b: "space_used n \<le> 16352" "count n \<le> 16352"
    using wf by (auto simp: wf_node_def layout_def slots_end_def)
  have sz: "slot_size (slot n i) \<le> space_used n" by (rule wf_slot_size_le [OF wf i])
  have "u16 (int (space_used n) - (int (s_key_len (slot n i)) + int (s_payload_len (slot n i)))) =
      space_used n - slot_size (slot n i)"
    using u16_diff [of "slot_size (slot n i)" "space_used n"] sz b by (simp add: slot_size_def)
  moreover have "u16 (int (count n) - 1) = count n - 1" using u16_diff [of 1 "count n"] i b by simp
  ultimately have r: "removeSlot n i = makeHint m"
    by (simp add: removeSlot_def m_def Let_def getKeyLen_def getPayloadLength_def cong: if_cong)
  have fr: "page m = page n" "lower_fence m = lower_fence n" "upper_fence m = upper_fence n"
    "prefix_length m = prefix_length n" "data_offset m = data_offset n" "is_leaf m = is_leaf n" "upper m = upper n"
    "space_used m + slot_size (slot n i) = space_used n" "count m = count n - 1"
    using sz by (simp_all add: m_def)
  note F = frame_entry [OF fr(1-4)]
  have sl: "slots_to (count m) m = remove_at i (slots n)"
  proof -
    have "slots_to (count m) m = map (\<lambda>j. if j < i then slot n j else slot n (Suc j)) [0..<count n - 1]"
      by (auto simp: slots_to_def m_def)
    then show ?thesis using map_upt_remove [OF i, of "slot n"] by (simp add: slots_def)
  qed
  have "layout (remove_at i (slots n)) m"
    by (rule layout_remove) (use wf i fr in \<open>simp_all add: wf_node_def\<close>)
  then have h: "holds (count m) m (remove_at i (content n))"
    using wf F by (simp add: holds_def sl map_remove_at content_def wf_node_def)
  show "getLowerFenceKey (removeSlot n i) = getLowerFenceKey n" "getUpperFenceKey (removeSlot n i) = getUpperFenceKey n"
    "is_leaf (removeSlot n i) = is_leaf n" "upper (removeSlot n i) = upper n"
    "prefix_length (removeSlot n i) = prefix_length n"
    "space_used (removeSlot n i) + slot_size (slot n i) = space_used n"
    using F fr by (simp_all add: r)
  have h': "holds (count (makeHint m)) (makeHint m) (remove_at i (content n))" using h by simp
  show "content (removeSlot n i) = remove_at i (content n)" unfolding r by (rule holds_content [OF h'])
  show "wf_node (removeSlot n i)" unfolding r
  proof (rule wf_nodeI [OF h'])
    show "sorted_wrt (<) (map fst (remove_at i (content n)))"
      using sorted_wrt_remove_at [OF wf_sorted_keys [OF wf]] by (simp add: map_remove_at)
    show "in_fences (makeHint m) (fst e)" if "e \<in> set (remove_at i (content n))" for e
      using that set_remove_at_subset [of i "content n"] wf_content_in_fences [OF wf, of e] F by auto
  qed simp
qed

text \<open>\<open>BTreeNode::remove\<close>.\<close>

lemma node_remove_spec:
  assumes wf: "wf_node n"
  shows "fst (node_remove n key) = (key \<in> set (keys n))" "wf_node (snd (node_remove n key))"
    "map_of (content (snd (node_remove n key))) = (map_of (content n))(key := None)"
proof -
  have s: "sorted_wrt (<) (keys n)" using wf by (simp add: wf_node_def)
  note lb = lowerBound_exact_spec [OF wf, of key]
  show "fst (node_remove n key) = (key \<in> set (keys n))" by (auto simp: node_remove_def lb Let_def)
  have i: "rank (keys n) key < count n \<and> fst (content n ! rank (keys n) key) = key" if "key \<in> set (keys n)"
    using that rank_mem [OF s, of key] by (auto simp: keys_def)
  show "wf_node (snd (node_remove n key))"
    using wf removeSlot_spec(1) [OF wf] i by (auto simp: node_remove_def lb Let_def)
  have d: "distinct (map fst (content n))" using sorted_wrt_less_distinct [OF s] by (simp add: keys_def)
  show "map_of (content (snd (node_remove n key))) = (map_of (content n))(key := None)"
  proof (cases "key \<in> set (keys n)")
    case True
    then have "snd (node_remove n key) = removeSlot n (rank (keys n) key)" by (auto simp: node_remove_def lb Let_def)
    then show ?thesis
      using removeSlot_spec(2) [OF wf] i [OF True] map_of_remove_at [OF d, of "rank (keys n) key"] by simp
  next
    case False
    then have "map_of (content n) key = None" by (simp add: keys_def map_of_eq_None_iff)
    then show ?thesis using False by (auto simp: node_remove_def lb Let_def)
  qed
qed

section \<open>Payload updates\<close>

lemma map_of_list_update:
  assumes "distinct (map fst xs)" "i < length xs"
  shows "map_of (xs[i := (fst (xs ! i), v)]) = (map_of xs)(fst (xs ! i) \<mapsto> v)"
  using assms
proof (induction xs arbitrary: i)
  case (Cons x xs)
  show ?case
  proof (cases i)
    case (Suc j)
    then have "fst x \<noteq> fst (xs ! j)" using Cons.prems by auto
    then show ?thesis using Cons Suc by (auto simp: fun_upd_twist)
  qed (use Cons.prems in \<open>auto simp: fun_eq_iff\<close>)
qed simp

text \<open>Overwriting the payload of a slot with as many bytes.\<close>

lemma writePayload_spec:
  assumes wf: "wf_node n" and i: "i < count n" and len: "length bs = s_payload_len (slot n i)"
  shows "wf_node (writePayload n i bs)"
    "content (writePayload n i bs) = (content n)[i := (fst (content n ! i), bs)]"
    "getLowerFenceKey (writePayload n i bs) = getLowerFenceKey n"
    "getUpperFenceKey (writePayload n i bs) = getUpperFenceKey n"
proof -
  define m where "m = writePayload n i bs"
  let ?s = "slot n i" and ?o = "s_offset (slot n i) + s_key_len (slot n i)"
  have m: "m = n\<lparr>page := write_mem (page n) ?o bs\<rparr>" by (simp add: m_def writePayload_def)
  have ok: "slot_ok n ?s" by (rule wf_slot_ok [OF wf i])
  have L: "layout (slots n) n" and P: "prefix_ok n" using wf by (simp_all add: wf_node_def)
  have rd: "read_mem (page m) off l = read_mem (page n) off l" if "off + l \<le> ?o \<or> ?o + length bs \<le> off" for off l
    using that by (simp add: m mem_simps)
  have fe: "read_mem (page m) (f_offset f) l = read_mem (page n) (f_offset f) l"
    if "fence_disjoint f ?s" "l \<le> f_length f" for f l
    using that len by (intro rd) (auto simp: fence_disjoint_def slot_size_def)
  have fd: "fence_disjoint (lower_fence n) ?s" "fence_disjoint (upper_fence n) ?s"
    using ok by (simp_all add: slot_ok_def)
  have gl: "getLowerFenceKey m = getLowerFenceKey n" and gu: "getUpperFenceKey m = getUpperFenceKey n"
    using fe [OF fd(1)] fe [OF fd(2)] by (simp_all add: getLowerFenceKey_def getUpperFenceKey_def m)
  have gp: "getPrefix m = getPrefix n"
    using prefix_bound [OF P] fe [OF fd(1), of "prefix_length n"] by (auto simp: getPrefix_def m)
  have other: "slot_key m (slot n j) = slot_key n (slot n j) \<and>
      slot_payload m (slot n j) = (if j = i then bs else slot_payload n (slot n j))" if j: "j < count n" for j
  proof (cases "j = i")
    case True
    have "slot_key m ?s = slot_key n ?s" unfolding slot_key_def by (rule rd) simp
    moreover have "slot_payload m ?s = bs" using len by (simp add: slot_payload_def m mem_simps)
    ultimately show ?thesis using True by simp
  next
    case False
    have "slot_disjoint (slot n i) (slot n j) \<or> slot_disjoint (slot n j) (slot n i)"
      using L i j False sorted_wrt_nth_less [of slot_disjoint "slots n"]
      by (cases "i < j") (auto simp: layout_def)
    then show ?thesis using len False
      by (auto simp: slot_key_def slot_payload_def slot_disjoint_def slot_size_def intro!: rd)
  qed
  have ms: "slots_to (count m) m = slots n" by (simp add: slots_to_def slots_def m)
  have "slot_ok m s" if "s \<in> set (slots n)" for s
    using that L other by (auto simp: layout_def slot_ok_def slots_def m)
  then have "layout (slots n) m"
    using L by (simp add: layout_def m fence_ok_def)
  moreover have "prefix_ok m" using P gl gu unfolding prefix_ok_iff by (simp add: m)
  moreover have "map (entry m) (slots n) = (content n)[i := (fst (content n ! i), bs)]"
    by (rule nth_equalityI) (use i other gp in \<open>auto simp: content_def entry_def nth_list_update\<close>)
  ultimately have h: "holds (count m) m ((content n)[i := (fst (content n ! i), bs)])"
    by (simp add: holds_def ms)
  show "getLowerFenceKey (writePayload n i bs) = getLowerFenceKey n"
    "getUpperFenceKey (writePayload n i bs) = getUpperFenceKey n" using gl gu by (simp_all add: m_def)
  show "content (writePayload n i bs) = (content n)[i := (fst (content n ! i), bs)]"
    unfolding m_def [symmetric] by (rule holds_content [OF h])
  have kk: "map fst ((content n)[i := (fst (content n ! i), bs)]) = map fst (content n)"
    using i by (simp add: map_update list_update_same_conv)
  show "wf_node (writePayload n i bs)" unfolding m_def [symmetric]
  proof (rule wf_nodeI [OF h])
    show "sorted_wrt (<) (map fst ((content n)[i := (fst (content n ! i), bs)]))"
      unfolding kk by (rule wf_sorted_keys [OF wf])
    show "in_fences m (fst e)" if "e \<in> set ((content n)[i := (fst (content n ! i), bs)])" for e
    proof -
      have "fst e \<in> set (map fst (content n))" using that kk by (metis imageI set_map)
      then show ?thesis using wf gl gu by (auto simp: wf_node_def keys_def in_fences_between)
    qed
    show "hint_ok m" using wf by (simp add: wf_node_def hint_ok_def m)
  qed
qed

section \<open>Properties\<close>



text \<open>C21. \<open>BTreeNode::remove\<close> reports whether the key was present, leaves a well-formed node, and removes exactly that
  key.\<close>

theorem remove_correct:
  assumes "wf_node n"
  shows "fst (node_remove n key) = (key \<in> set (keys n)) \<and> wf_node (snd (node_remove n key)) \<and>
    map_of (content (snd (node_remove n key))) = (map_of (content n))(key := None)"
  using node_remove_spec [OF assms] by blast

theorem remove_correct_witness: "fst (node_remove (new_node True) [1]) = False"
  using remove_correct [of "new_node True" "[1]"] by simp

text \<open>C20. \<open>compactify\<close> keeps a node's entries, fences, kind and rightmost child, leaves it well-formed, and makes its
  contiguous free space exactly what \<open>freeSpaceAfterCompaction\<close> had announced.\<close>

theorem compactify_correct:
  assumes "wf_node n"
  shows "wf_node (compactify n) \<and> content (compactify n) = content n \<and>
    getLowerFenceKey (compactify n) = getLowerFenceKey n \<and> getUpperFenceKey (compactify n) = getUpperFenceKey n \<and>
    is_leaf (compactify n) = is_leaf n \<and> upper (compactify n) = upper n \<and>
    freeSpace (compactify n) = freeSpaceAfterCompaction n"
  using compactify_spec [OF assms] compactify_freeSpace [OF assms] by blast

theorem compactify_correct_witness: "freeSpace (compactify (new_node True)) = 16260"
proof -
  have "freeSpaceAfterCompaction (new_node True) = 16260"
    by (simp add: freeSpaceAfterCompaction_def new_node_def slots_end_def u16_def)
  then show ?thesis using compactify_correct [of "new_node True"] by simp
qed

end
