(* ===== verification/BTreeNodeSplit.thy ===== *)
theory BTreeNodeSplit
  imports BTreeNodeInsert
begin

text \<open>
  Splitting and merging pages (BTreeNode.cpp): choosing a separator, building the two halves, and merging
  a page into its right sibling. The pages \<open>parent\<close>, \<open>nodeLeft\<close> and \<open>right\<close> that the C++ methods receive as
  latched page guards are passed and returned explicitly.
\<close>

section \<open>Operations\<close>

definition commonPrefix :: "btree_node \<Rightarrow> nat \<Rightarrow> nat \<Rightarrow> nat" where
  "commonPrefix n slotA slotB =
     (if count n = 0 then 0 else common_len (getKey n slotA) (getKey n slotB))"

text \<open>The loop of \<open>findSep\<close> keeps the candidate position and its common prefix with the first key.\<close>

definition sep_step :: "btree_node \<Rightarrow> nat \<Rightarrow> nat \<times> nat \<Rightarrow> nat \<times> nat" where
  "sep_step n i = (\<lambda>(maxPos, maxPrefix).
     let prefix = commonPrefix n i 0 in if prefix > maxPrefix then (i, prefix) else (maxPos, maxPrefix))"

definition findSep :: "btree_node \<Rightarrow> SeparatorInfo" where
  "findSep n =
     (if \<not> is_leaf n then
        \<lparr>sep_length = getFullKeyLen n (count n div 2), sep_slot = count n div 2, sep_trunc = False\<rparr>
      else
        (let lower = count n div 2 - count n div 16;
             upper = count n div 2 + count n div 16;
             (maxPos, maxPrefix) =
               fold (sep_step n) [lower..<upper] (count n div 2, commonPrefix n (count n div 2) 0);
             common = commonPrefix n maxPos (maxPos + 1) in
         if getKeyLen n maxPos > common \<and> getKeyLen n (maxPos + 1) > common + 1
         then \<lparr>sep_length = u16 (int (prefix_length n) + int common + 1), sep_slot = maxPos, sep_trunc = True\<rparr>
         else \<lparr>sep_length = getFullKeyLen n maxPos, sep_slot = maxPos, sep_trunc = False\<rparr>))"

definition getSep :: "btree_node \<Rightarrow> SeparatorInfo \<Rightarrow> bytes" where
  "getSep n info =
     getPrefix n @
     (if sep_trunc info
      then read_mem (page n) (s_offset (slot n (sep_slot info + 1))) (sep_length info - prefix_length n)
      else read_mem (page n) (s_offset (slot n (sep_slot info))) (sep_length info - prefix_length n))"

text \<open>\<open>split\<close> on the right node: the result is the new contents of this page, of the parent and of the left page.
  \<open>swip\<close> is the address of the left page.\<close>

definition node_split ::
  "btree_node \<Rightarrow> btree_node \<Rightarrow> btree_node \<Rightarrow> u64 \<Rightarrow> nat \<Rightarrow> bytes \<Rightarrow> btree_node \<times> btree_node \<times> btree_node" where
  "node_split n parent nodeLeft swip sepSlot sepKey =
     (let nodeLeft = setFences nodeLeft (getLowerFenceKey n) (Some sepKey);
          nodeRight = setFences (new_node (is_leaf n)) (Some sepKey) (getUpperFenceKey n);
          parent = snd (node_insert parent sepKey (swip_bytes swip)) in
      if is_leaf n then
        (let nodeLeft = copyKeyValueRange n nodeLeft 0 0 (sepSlot + 1);
             nodeRight = copyKeyValueRange n nodeRight 0 (count nodeLeft) (u16 (int (count n) - int (count nodeLeft))) in
         (makeHint nodeRight, parent, makeHint nodeLeft))
      else
        (let nodeLeft = copyKeyValueRange n nodeLeft 0 0 sepSlot;
             nodeRight = copyKeyValueRange n nodeRight 0 (count nodeLeft + 1)
               (u16 (int (count n) - int (count nodeLeft) - 1));
             nodeLeft = nodeLeft\<lparr>upper := getChild n (count nodeLeft)\<rparr>;
             nodeRight = nodeRight\<lparr>upper := upper n\<rparr> in
         (makeHint nodeRight, parent, makeHint nodeLeft)))"

definition spaceUsedBySlot :: "btree_node \<Rightarrow> nat \<Rightarrow> nat" where
  "spaceUsedBySlot n s_i = SIZEOF_SLOT + getKeyLen n s_i + getPayloadLength n s_i"

definition mergeSpaceUpperBound :: "btree_node \<Rightarrow> btree_node \<Rightarrow> nat" where
  "mergeSpaceUpperBound n right =
     (let tmp = setFences (new_node True) (getLowerFenceKey n) (getUpperFenceKey right);
          leftGrow = u32_of ((int (prefix_length n) - int (prefix_length tmp)) * int (count n));
          rightGrow = u32_of ((int (prefix_length right) - int (prefix_length tmp)) * int (count right)) in
      u32_of (int (space_used n) + int (space_used right) + int (slots_end (count n + count right)) +
        int leftGrow + int rightGrow))"

text \<open>\<open>merge\<close> of this page (the left one) into \<open>right\<close>; \<open>slotId\<close> is this page's slot in the parent. The space estimate is
  kept in 16 bits.\<close>

definition node_merge ::
  "btree_node \<Rightarrow> nat \<Rightarrow> btree_node \<Rightarrow> btree_node \<Rightarrow> bool \<times> btree_node \<times> btree_node" where
  "node_merge n slotId parent right =
     (let tmp = setFences (new_node (is_leaf n)) (getLowerFenceKey n) (getUpperFenceKey right);
          leftGrow = u16 ((int (prefix_length n) - int (prefix_length tmp)) * int (count n));
          rightGrow = u16 ((int (prefix_length right) - int (prefix_length tmp)) * int (count right)) in
      if is_leaf n then
        (let spaceUpperBound = u16 (int (space_used n) + int (space_used right) +
               int (slots_end (count n + count right)) + int leftGrow + int rightGrow) in
         if spaceUpperBound > EFFECTIVE_PAGE_SIZE then (False, parent, right)
         else
           (let tmp = copyKeyValueRange n tmp 0 0 (count n);
                tmp = copyKeyValueRange right tmp (count n) 0 (count right);
                parent = removeSlot parent slotId in
            (True, parent, makeHint tmp)))
      else
        (let extraKeyLength = getFullKeyLen parent slotId;
             spaceUpperBound = u16 (int (space_used n) + int (space_used right) +
               int (slots_end (count n + count right)) + int leftGrow + int rightGrow +
               int (spaceNeeded tmp extraKeyLength 8)) in
         if spaceUpperBound > EFFECTIVE_PAGE_SIZE then (False, parent, right)
         else
           (let tmp = copyKeyValueRange n tmp 0 0 (count n);
                extraKey = copyFullKey parent slotId;
                tmp = storeKeyValue tmp (count n) extraKey (swip_bytes (upper n));
                tmp = tmp\<lparr>count := u16 (int (count tmp) + 1)\<rparr>;
                tmp = copyKeyValueRange right tmp (count tmp) 0 (count right);
                parent = removeSlot parent slotId;
                tmp = tmp\<lparr>upper := upper right\<rparr> in
            (True, parent, makeHint tmp))))"

section \<open>The separator\<close>

lemma sep_fold_bounds:
  assumes "fst acc \<in> S" "set is \<subseteq> S"
  shows "fst (fold (sep_step n) is acc) \<in> S"
  using assms
proof (induction "is" arbitrary: acc)
  case (Cons i "is")
  have "fst (sep_step n i acc) \<in> S" using Cons.prems by (auto simp: sep_step_def Let_def split: prod.splits)
  then show ?case using Cons by simp
qed simp

lemma common_prefix_split:
  assumes ab: "a < (b :: bytes)" and c: "c = common_len a b" and la: "c < length a" and lb: "c < length b"
  shows "a < take (Suc c) b" "a ! c < b ! c"
proof -
  have t: "take c a = take c b" using c common_len_take [of a b] by simp
  have ne: "a ! c \<noteq> b ! c" using common_len_stop [of a b] c la lb by auto
  have a: "a = take c b @ a ! c # drop (Suc c) a" using id_take_nth_drop [OF la] t by simp
  have b: "b = take c b @ b ! c # drop (Suc c) b" using id_take_nth_drop [OF lb] by simp
  have "take c b @ (a ! c # drop (Suc c) a) < take c b @ (b ! c # drop (Suc c) b)" using ab a b by argo
  then show lt: "a ! c < b ! c" using ne by simp
  have "take (Suc c) b = take c b @ [b ! c]" using lb by (simp add: take_Suc_conv_app_nth)
  moreover have "take c b @ (a ! c # drop (Suc c) a) < take c b @ [b ! c]" using lt by simp
  ultimately show "a < take (Suc c) b" using a by argo
qed

lemma wf_full_key_len:
  assumes wf: "wf_node n" and i: "i < count n"
  shows "prefix_length n + getKeyLen n i \<le> 2 * EFFECTIVE_PAGE_SIZE" "getFullKeyLen n i = prefix_length n + getKeyLen n i"
    "length (keys n ! i) = prefix_length n + getKeyLen n i" "getKeyLen n i \<le> EFFECTIVE_PAGE_SIZE"
proof -
  have "s_key_len (slot n i) \<le> EFFECTIVE_PAGE_SIZE" using wf_slot_ok [OF wf i] by (simp add: slot_ok_def slot_size_def)
  moreover have "prefix_length n \<le> EFFECTIVE_PAGE_SIZE"
    using prefix_bound [of n] wf by (auto simp: wf_node_def layout_def fence_ok_def)
  ultimately show b: "prefix_length n + getKeyLen n i \<le> 2 * EFFECTIVE_PAGE_SIZE" "getKeyLen n i \<le> EFFECTIVE_PAGE_SIZE"
    by (simp_all add: getKeyLen_def)
  then show "getFullKeyLen n i = prefix_length n + getKeyLen n i" unfolding getFullKeyLen_def by (intro u16_add) simp
  show "length (keys n ! i) = prefix_length n + getKeyLen n i"
    using i by (simp add: keys_nth getKey_def getKeyLen_def)
qed

text \<open>What a split needs of its separator: it lies between two neighbouring keys, and it is no longer than the left one.\<close>

definition separates :: "btree_node \<Rightarrow> nat \<Rightarrow> bytes \<Rightarrow> bool" where
  "separates n s sep \<longleftrightarrow>
     s + 1 < count n \<and> keys n ! s \<le> sep \<and> sep < keys n ! (s + 1) \<and> length sep \<le> length (keys n ! s)"

lemma full_key_separates:
  assumes wf: "wf_node n" and s: "s + 1 < count n"
  shows "separates n s (keys n ! s)"
  using wf s by (auto simp: separates_def wf_node_def sorted_wrt_iff_nth_less)

lemma getSep_full:
  assumes wf: "wf_node n" and s: "s < count n"
  shows "getSep n \<lparr>sep_length = getFullKeyLen n s, sep_slot = s, sep_trunc = False\<rparr> = keys n ! s"
  using wf_full_key_len [OF wf s] s by (simp add: getSep_def keys_nth getKey_def getKeyLen_def)

lemma findSep_separates:
  assumes wf: "wf_node n" and c: "count n > 2"
  shows "separates n (sep_slot (findSep n)) (getSep n (findSep n))"
    "length (getSep n (findSep n)) = sep_length (findSep n)"
proof -
  have mid: "count n div 2 + 1 < count n" using c by simp
  have full: "separates n s (getSep n \<lparr>sep_length = getFullKeyLen n s, sep_slot = s, sep_trunc = False\<rparr>) \<and>
      length (getSep n \<lparr>sep_length = getFullKeyLen n s, sep_slot = s, sep_trunc = False\<rparr>) = getFullKeyLen n s"
    if "s + 1 < count n" for s
    using full_key_separates [OF wf that] getSep_full [OF wf, of s] wf_full_key_len [OF wf, of s] that by simp
  have "separates n (sep_slot (findSep n)) (getSep n (findSep n)) \<and>
      length (getSep n (findSep n)) = sep_length (findSep n)"
  proof (cases "is_leaf n")
    case False
    then show ?thesis using full [OF mid] by (simp add: findSep_def)
  next
    case True
    define lower upper' where "lower = count n div 2 - count n div 16" and "upper' = count n div 2 + count n div 16"
    obtain m x where mx: "fold (sep_step n) [lower..<upper'] (count n div 2, commonPrefix n (count n div 2) 0) = (m, x)"
      by fastforce
    have "upper' < count n" using c by (simp add: upper'_def)
    then have "set [lower..<upper'] \<subseteq> {p. p + 1 < count n}" by auto
    then have "m \<in> {p. p + 1 < count n}"
      using sep_fold_bounds [of "(count n div 2, commonPrefix n (count n div 2) 0)" "{p. p + 1 < count n}"
          "[lower..<upper']" n] mid mx by auto
    then have m: "m + 1 < count n" by simp
    define c' where "c' = common_len (getKey n m) (getKey n (m + 1))"
    have cp: "commonPrefix n m (m + 1) = c'" using c by (simp add: commonPrefix_def c'_def)
    have f: "findSep n = (if getKeyLen n m > c' \<and> getKeyLen n (m + 1) > c' + 1
       then \<lparr>sep_length = u16 (int (prefix_length n) + int c' + 1), sep_slot = m, sep_trunc = True\<rparr>
       else \<lparr>sep_length = getFullKeyLen n m, sep_slot = m, sep_trunc = False\<rparr>)"
      using True mx cp by (simp add: findSep_def lower_def [symmetric] upper'_def [symmetric])
    show ?thesis
    proof (cases "getKeyLen n m > c' \<and> getKeyLen n (m + 1) > c' + 1")
      case False
      then show ?thesis using full [OF m] f [unfolded if_not_P [OF False]] by simp
    next
      case trunc: True
      let ?a = "getKey n m" and ?b = "getKey n (m + 1)"
      have len: "length ?a = getKeyLen n m" "length ?b = getKeyLen n (m + 1)" by (simp_all add: getKey_def getKeyLen_def)
      have sl: "u16 (int (prefix_length n) + int c' + 1) = prefix_length n + Suc c'"
        using u16_of_nat [of "prefix_length n + Suc c'"] trunc wf_full_key_len [OF wf, of "m + 1"] m
        by (simp add: algebra_simps)
      have "read_mem (page n) (s_offset (slot n (m + 1))) (Suc c') = take (Suc c') ?b"
        using trunc by (simp add: getKey_def getKeyLen_def read_mem_take)
      then have sep: "getSep n (findSep n) = getPrefix n @ take (Suc c') ?b" "sep_slot (findSep n) = m"
        "sep_length (findSep n) = prefix_length n + Suc c'"
        using trunc f sl by (simp_all add: getSep_def)
      have ab: "?a < ?b" using wf_getKey_less [OF wf, of m "m + 1"] m by simp
      have lt: "?a < take (Suc c') ?b" using common_prefix_split(1) [OF ab c'_def] trunc len by simp
      have "take (Suc c') ?b < ?b" using take_less_self [of "Suc c'" ?b] trunc len by simp
      moreover have "getPrefix n @ ?a \<le> getPrefix n @ take (Suc c') ?b" using lt by (simp add: less_imp_le)
      ultimately show ?thesis
        using m trunc len by (auto simp: separates_def sep keys_nth)
    qed
  qed
  then show "separates n (sep_slot (findSep n)) (getSep n (findSep n))"
    "length (getSep n (findSep n)) = sep_length (findSep n)" by simp_all
qed

section \<open>Splitting\<close>

lemma entry_size_mono: "p \<le> p' \<Longrightarrow> entry_size p' e \<le> entry_size p e"
  by (simp add: entry_size_def)

lemma total_size_mono: "p \<le> p' \<Longrightarrow> total_size p' es \<le> total_size p es"
  by (induction es) (auto simp: entry_size_mono add_mono)

lemma prefix_of_le: "prefix_of lo hi \<le> opt_len lo" "prefix_of lo hi \<le> opt_len hi"
  using common_len_le by (auto simp: prefix_of_def split: option.splits)

lemma prefix_of_narrow:
  assumes "above lo k" "upto hi k"
  shows "prefix_of lo hi \<le> prefix_of lo (Some k)" "prefix_of lo hi \<le> prefix_of (Some k) hi"
proof -
  have "common_len l u \<le> length k \<and> take (common_len l u) k = take (common_len l u) l" if "lo = Some l" "hi = Some u" for l u
    by (rule between_prefix [of l k u])
      (use assms that common_len_le [of l u] common_len_take [of l u] in \<open>auto simp: above_def upto_def\<close>)
  moreover have "take (common_len l u) l = take (common_len l u) u" for l u by (rule common_len_take)
  ultimately show "prefix_of lo hi \<le> prefix_of lo (Some k)" "prefix_of lo hi \<le> prefix_of (Some k) hi"
    using common_len_le
    by (auto simp: prefix_of_def split: option.splits intro!: common_len_greatest) metis
qed

lemma sep_between:
  assumes wf: "wf_node n" and s: "separates n s sep"
  shows "between (getLowerFenceKey n) (getUpperFenceKey n) sep"
proof -
  have i: "s < count n" "s + 1 < count n" using s by (simp_all add: separates_def)
  have "keys n ! s \<in> set (keys n)" "keys n ! (s + 1) \<in> set (keys n)" using i by (simp_all add: nth_mem)
  then have "in_fences n (keys n ! s)" "in_fences n (keys n ! (s + 1))" using wf by (simp_all add: wf_node_def)
  then show ?thesis using s
    by (auto simp: in_fences_def between_def above_def upto_def separates_def split: option.splits)
qed

lemma total_size_split: "total_size p es = total_size p (take i es) + total_size p (drop i es)"
  by (metis append_take_drop_id map_append sum_list_append)

lemma entry_size_le_total: "e \<in> set es \<Longrightarrow> entry_size p e \<le> total_size p es"
  by (simp add: member_le_sum_list)

text \<open>Room for the right half, and for the left half: what the fence key adds is paid for by what the other half takes
  away. A leaf's left half keeps the key that the separator was taken from, so there the separator has to be paid for by
  the right half; \<open>split_room\<close> says so, and it holds whenever keys are short.\<close>

definition split_room :: "btree_node \<Rightarrow> nat \<Rightarrow> bytes \<Rightarrow> bool" where
  "split_room n s sep \<longleftrightarrow>
     length sep \<le> opt_len (getUpperFenceKey n) + SIZEOF_SLOT * (count n - (s + 1)) +
       total_size (prefix_length n) (drop (s + 1) (content n))"

lemma split_room_short: "separates n s sep \<Longrightarrow> length sep \<le> SIZEOF_SLOT \<Longrightarrow> split_room n s sep"
  by (auto simp: separates_def split_room_def)

lemma split_room_trunc:
  assumes wf: "wf_node n" and s: "separates n s sep" and l: "length sep \<le> length (keys n ! (s + 1))"
  shows "split_room n s sep"
proof -
  have i: "s + 1 < count n" using s by (simp add: separates_def)
  have "content n ! (s + 1) \<in> set (drop (s + 1) (content n))"
    using i Cons_nth_drop_Suc [of "s + 1" "content n"] by (metis length_content list.set_intros(1))
  then have "entry_size (prefix_length n) (content n ! (s + 1)) \<le> total_size (prefix_length n) (drop (s + 1) (content n))"
    by (rule entry_size_le_total)
  moreover have "fst (content n ! (s + 1)) = keys n ! (s + 1)" using i by (simp add: keys_def)
  ultimately show ?thesis
    using l prefix_of_le(2) [of "getLowerFenceKey n" "getUpperFenceKey n"] wf_prefix [OF wf]
    by (simp add: split_room_def entry_size_def)
qed

lemma split_left_fits:
  assumes wf: "wf_node n" and s: "separates n s sep" and room: "split_room n s sep"
  shows "slots_end (s + 1) + opt_len (getLowerFenceKey n) + length sep +
    total_size (prefix_of (getLowerFenceKey n) (Some sep)) (take (s + 1) (content n)) \<le> EFFECTIVE_PAGE_SIZE"
proof -
  have b: "above (getLowerFenceKey n) sep" "upto (getUpperFenceKey n) sep"
    using sep_between [OF wf s] by (simp_all add: between_def)
  have "total_size (prefix_of (getLowerFenceKey n) (Some sep)) (take (s + 1) (content n))
      \<le> total_size (prefix_length n) (take (s + 1) (content n))"
    using prefix_of_narrow(1) [OF b] by (intro total_size_mono) (simp add: wf_prefix [OF wf])
  moreover have "slots_end (s + 1) + SIZEOF_SLOT * (count n - (s + 1)) = slots_end (count n)"
    using s by (auto simp: slots_end_def separates_def)
  moreover note total_size_split [of "prefix_length n" "content n" "s + 1"]
  ultimately show ?thesis using wf_space [OF wf] room unfolding split_room_def by linarith
qed

lemma sep_entry_size:
  assumes wf: "wf_node n" and s: "separates n s sep"
  shows "length sep \<le> opt_len (getLowerFenceKey n) + entry_size (prefix_length n) (content n ! s)"
    "length sep \<le> opt_len (getUpperFenceKey n) + entry_size (prefix_length n) (content n ! s)"
proof -
  have "fst (content n ! s) = keys n ! s" using s by (simp add: keys_def separates_def)
  then show "length sep \<le> opt_len (getLowerFenceKey n) + entry_size (prefix_length n) (content n ! s)"
    "length sep \<le> opt_len (getUpperFenceKey n) + entry_size (prefix_length n) (content n ! s)"
    using s prefix_of_le [of "getLowerFenceKey n" "getUpperFenceKey n"] wf_prefix [OF wf]
    by (auto simp: separates_def entry_size_def)
qed

lemma split_right_fits:
  assumes wf: "wf_node n" and s: "separates n s sep"
  shows "slots_end (count n - (s + 1)) + length sep + opt_len (getUpperFenceKey n) +
    total_size (prefix_of (Some sep) (getUpperFenceKey n)) (drop (s + 1) (content n)) \<le> EFFECTIVE_PAGE_SIZE"
proof -
  have b: "above (getLowerFenceKey n) sep" "upto (getUpperFenceKey n) sep"
    using sep_between [OF wf s] by (simp_all add: between_def)
  have i: "s < count n" using s by (simp add: separates_def)
  have "total_size (prefix_of (Some sep) (getUpperFenceKey n)) (drop (s + 1) (content n))
      \<le> total_size (prefix_length n) (drop (s + 1) (content n))"
    using prefix_of_narrow(2) [OF b] by (intro total_size_mono) (simp add: wf_prefix [OF wf])
  moreover have "entry_size (prefix_length n) (content n ! s) \<le> total_size (prefix_length n) (take (s + 1) (content n))"
    using i by (intro entry_size_le_total) (simp add: in_set_conv_nth; fastforce)
  moreover have "slots_end (count n - (s + 1)) \<le> slots_end (count n)" by (simp add: slots_end_def)
  moreover note total_size_split [of "prefix_length n" "content n" "s + 1"] sep_entry_size(1) [OF wf s]
  ultimately show ?thesis using wf_space [OF wf] by linarith
qed

lemma split_inner_left_fits:
  assumes wf: "wf_node n" and s: "separates n s sep"
  shows "slots_end s + opt_len (getLowerFenceKey n) + length sep +
    total_size (prefix_of (getLowerFenceKey n) (Some sep)) (take s (content n)) \<le> EFFECTIVE_PAGE_SIZE"
proof -
  have b: "above (getLowerFenceKey n) sep" "upto (getUpperFenceKey n) sep"
    using sep_between [OF wf s] by (simp_all add: between_def)
  have i: "s < count n" using s by (simp add: separates_def)
  have "total_size (prefix_of (getLowerFenceKey n) (Some sep)) (take s (content n))
      \<le> total_size (prefix_length n) (take s (content n))"
    using prefix_of_narrow(1) [OF b] by (intro total_size_mono) (simp add: wf_prefix [OF wf])
  moreover have "entry_size (prefix_length n) (content n ! s) \<le> total_size (prefix_length n) (drop s (content n))"
    using i by (intro entry_size_le_total) (simp add: Cons_nth_drop_Suc [symmetric])
  moreover have "slots_end s \<le> slots_end (count n)" using i by (simp add: slots_end_def)
  moreover note total_size_split [of "prefix_length n" "content n" s] sep_entry_size(2) [OF wf s]
  ultimately show ?thesis using wf_space [OF wf] by linarith
qed

text \<open>A half of a page: fences, then a range of this page's entries.\<close>

lemma half_page:
  assumes wf: "wf_node n" and r: "i + c \<le> count n"
    and k: "\<And>e. e \<in> set (take c (drop i (content n))) \<Longrightarrow> between lo hi (fst e)"
    and fit: "slots_end c + opt_len lo + opt_len hi + total_size (prefix_of lo hi) (take c (drop i (content n)))
      \<le> EFFECTIVE_PAGE_SIZE"
  defines "h \<equiv> copyKeyValueRange n (setFences (new_node (is_leaf n)) lo hi) 0 i c"
  shows "built h (is_leaf n) lo hi (take c (drop i (content n)))" "count h = c"
proof -
  let ?t = "setFences (new_node (is_leaf n)) lo hi"
  have t: "built ?t (is_leaf n) lo hi []" by (rule built_fences) (use fit in \<open>simp add: slots_end_def\<close>)
  have c0: "count ?t = 0" using built_count [OF t] by simp
  have "built (copyKeyValueRange n ?t (count ?t) i c) (is_leaf n) lo hi ([] @ take c (drop i (content n))) \<and>
      upper (copyKeyValueRange n ?t (count ?t) i c) = upper ?t"
    by (rule built_copy [OF wf t r k]) (use fit c0 in simp_all)
  then show b: "built h (is_leaf n) lo hi (take c (drop i (content n)))" by (simp add: h_def c0)
  show "count h = c" using built_count [OF b] r by simp
qed

text \<open>Which side of the separator an entry is on.\<close>

lemma left_keys_between:
  assumes wf: "wf_node n" and s: "separates n s sep" and e: "e \<in> set (take (s + 1) (content n))"
  shows "between (getLowerFenceKey n) (Some sep) (fst e)"
proof -
  obtain j where j: "j \<le> s" "j < count n" "e = content n ! j"
    using e by (auto simp: in_set_conv_nth less_Suc_eq_le)
  have "keys n ! j \<le> keys n ! s"
    using wf j s by (cases "j = s") (auto simp: wf_node_def sorted_wrt_iff_nth_less separates_def less_imp_le)
  moreover have "keys n ! j = fst e" using j by (simp add: keys_def)
  moreover have "in_fences n (fst e)" using wf_content_in_fences [OF wf, of e] j by simp
  ultimately show ?thesis using s by (auto simp: between_def in_fences_def upto_def separates_def)
qed

lemma right_keys_between:
  assumes wf: "wf_node n" and s: "separates n s sep" and e: "e \<in> set (drop (s + 1) (content n))"
  shows "between (Some sep) (getUpperFenceKey n) (fst e)"
proof -
  obtain j' where j': "j' < count n - (s + 1)" "e = content n ! (s + 1 + j')" using e by (auto simp: in_set_conv_nth)
  define j where "j = s + 1 + j'"
  have j: "s + 1 \<le> j" "j < count n" "e = content n ! j" using j' by (auto simp: j_def)
  have "keys n ! (s + 1) \<le> keys n ! j"
    using wf j s by (cases "j = s + 1") (auto simp: wf_node_def sorted_wrt_iff_nth_less separates_def less_imp_le)
  moreover have "keys n ! j = fst e" using j by (simp add: keys_def)
  moreover have "in_fences n (fst e)" using wf_content_in_fences [OF wf, of e] j by simp
  ultimately show ?thesis using s by (auto simp: between_def in_fences_def above_def separates_def)
qed

lemma sorted_take_drop:
  assumes "wf_node n"
  shows "sorted_wrt (<) (map fst (take c (drop i (content n))))"
  using wf_sorted_keys [OF assms] by (simp add: sorted_wrt_take sorted_wrt_drop flip: take_map drop_map)

definition split_ok :: "btree_node \<Rightarrow> nat \<Rightarrow> bytes \<Rightarrow> btree_node \<Rightarrow> btree_node \<Rightarrow> bool" where
  "split_ok n s sep left right \<longleftrightarrow>
     wf_node left \<and> wf_node right \<and> is_leaf left = is_leaf n \<and> is_leaf right = is_leaf n \<and>
     content left = take (if is_leaf n then s + 1 else s) (content n) \<and> content right = drop (s + 1) (content n) \<and>
     getLowerFenceKey left = getLowerFenceKey n \<and> getUpperFenceKey left = Some sep \<and>
     getLowerFenceKey right = Some sep \<and> getUpperFenceKey right = getUpperFenceKey n \<and>
     (\<not> is_leaf n \<longrightarrow> upper left = getChild n s \<and> upper right = upper n)"

lemma node_split_spec:
  assumes wf: "wf_node n" and s: "separates n s sep" and room: "is_leaf n \<Longrightarrow> split_room n s sep"
  shows "case node_split n parent (new_node (is_leaf n)) swip s sep of (right, parent', left) \<Rightarrow>
    split_ok n s sep left right \<and> parent' = snd (node_insert parent sep (swip_bytes swip))"
proof -
  define c where "c = (if is_leaf n then s + 1 else s)"
  have sc: "s + 1 < count n" using s by (simp add: separates_def)
  define l where "l = copyKeyValueRange n (setFences (new_node (is_leaf n)) (getLowerFenceKey n) (Some sep)) 0 0 c"
  define r where "r = copyKeyValueRange n (setFences (new_node (is_leaf n)) (Some sep) (getUpperFenceKey n)) 0 (s + 1)
    (count n - (s + 1))"
  have kl: "between (getLowerFenceKey n) (Some sep) (fst e)" if "e \<in> set (take c (drop 0 (content n)))" for e
    using that left_keys_between [OF wf s, of e] set_take_subset_set_take [of s "s + 1" "content n"]
    by (auto simp: c_def split: if_splits)
  have L: "built l (is_leaf n) (getLowerFenceKey n) (Some sep) (take c (drop 0 (content n)))" "count l = c"
    using half_page [OF wf, of 0 c "getLowerFenceKey n" "Some sep"] kl sc split_left_fits [OF wf s] room
      split_inner_left_fits [OF wf s]
    by (auto simp: l_def c_def algebra_simps split: if_splits)
  have R: "built r (is_leaf n) (Some sep) (getUpperFenceKey n) (drop (s + 1) (content n))"
    using half_page [OF wf, of "s + 1" "count n - (s + 1)" "Some sep" "getUpperFenceKey n"]
      right_keys_between [OF wf s] sc split_right_fits [OF wf s]
    by (simp add: r_def)
  have u: "u16 (int (count n) - int (s + 1)) = count n - (s + 1)"
    using sc wf_count_bound [OF wf] by (intro u16_diff) (auto simp: slots_end_def)
  have eq: "node_split n parent (new_node (is_leaf n)) swip s sep =
    (if is_leaf n then (makeHint r, snd (node_insert parent sep (swip_bytes swip)), makeHint l)
     else (makeHint (r\<lparr>upper := upper n\<rparr>), snd (node_insert parent sep (swip_bytes swip)),
           makeHint (l\<lparr>upper := getChild n s\<rparr>)))"
    using L(2) u
    by (cases "is_leaf n") (simp_all add: node_split_def Let_def l_def r_def c_def algebra_simps)
  have LW: "wf_node (makeHint (l\<lparr>upper := v\<rparr>)) \<and> content (makeHint (l\<lparr>upper := v\<rparr>)) = take c (content n)"
      "wf_node (makeHint l) \<and> content (makeHint l) = take c (content n)" for v
    using built_wf [of "l\<lparr>upper := v\<rparr>" "is_leaf n" "getLowerFenceKey n" "Some sep"] built_wf [OF L(1)] L(1) kl
      sorted_take_drop [OF wf, of c 0] by simp_all
  have RW: "wf_node (makeHint (r\<lparr>upper := v\<rparr>)) \<and> content (makeHint (r\<lparr>upper := v\<rparr>)) = drop (s + 1) (content n)"
      "wf_node (makeHint r) \<and> content (makeHint r) = drop (s + 1) (content n)" for v
    using built_wf [of "r\<lparr>upper := v\<rparr>" "is_leaf n" "Some sep" "getUpperFenceKey n"] built_wf [OF R] R
      sorted_take_drop [OF wf, of "count n - (s + 1)" "s + 1"] right_keys_between [OF wf s] by simp_all
  show ?thesis
    using LW RW L(1) R unfolding eq split_ok_def by (auto simp: built_def c_def)
qed

section \<open>Merging\<close>

lemma entry_size_grow: "p' \<le> p \<Longrightarrow> entry_size p' e \<le> entry_size p e + (p - p')"
  by (simp add: entry_size_def)

lemma total_size_grow: "p' \<le> p \<Longrightarrow> total_size p' es \<le> total_size p es + (p - p') * length es"
proof (induction es)
  case (Cons e es)
  then show ?case using entry_size_grow [of p' p e] by simp
qed simp

text \<open>The space estimate of \<open>merge\<close> as a number that does not wrap.\<close>

definition merge_estimate :: "btree_node \<Rightarrow> btree_node \<Rightarrow> bytes \<Rightarrow> nat" where
  "merge_estimate n right sep =
     (let p = prefix_of (getLowerFenceKey n) (getUpperFenceKey right) in
      space_used n + space_used right + slots_end (count n + count right) +
      (prefix_length n - p) * count n + (prefix_length right - p) * count right +
      (if is_leaf n then 0 else SIZEOF_SLOT + (length sep - p) + 8))"

text \<open>The two pages are neighbours: the left one ends where the right one starts.\<close>

definition neighbours :: "btree_node \<Rightarrow> btree_node \<Rightarrow> bytes \<Rightarrow> bool" where
  "neighbours n right sep \<longleftrightarrow>
     wf_node n \<and> wf_node right \<and> is_leaf right = is_leaf n \<and>
     getUpperFenceKey n = Some sep \<and> getLowerFenceKey right = Some sep \<and>
     above (getLowerFenceKey n) sep \<and> upto (getUpperFenceKey right) sep \<and>
     (\<not> is_leaf n \<longrightarrow> (\<forall>k \<in> set (keys n). k < sep))"

definition merged_content :: "btree_node \<Rightarrow> btree_node \<Rightarrow> bytes \<Rightarrow> (bytes \<times> bytes) list" where
  "merged_content n right sep =
     content n @ (if is_leaf n then [] else [(sep, swip_bytes (upper n))]) @ content right"

lemma neighbours_prefix:
  assumes "neighbours n right sep"
  shows "prefix_of (getLowerFenceKey n) (getUpperFenceKey right) \<le> prefix_length n"
    "prefix_of (getLowerFenceKey n) (getUpperFenceKey right) \<le> prefix_length right"
    "prefix_of (getLowerFenceKey n) (getUpperFenceKey right) \<le> length sep"
proof -
  have b: "above (getLowerFenceKey n) sep" "upto (getUpperFenceKey right) sep" and
    p: "prefix_length n = prefix_of (getLowerFenceKey n) (Some sep)"
      "prefix_length right = prefix_of (Some sep) (getUpperFenceKey right)"
    using assms wf_prefix [of n] wf_prefix [of right] by (simp_all add: neighbours_def)
  show le: "prefix_of (getLowerFenceKey n) (getUpperFenceKey right) \<le> prefix_length n"
    "prefix_of (getLowerFenceKey n) (getUpperFenceKey right) \<le> prefix_length right"
    using prefix_of_narrow [OF b] p by simp_all
  show "prefix_of (getLowerFenceKey n) (getUpperFenceKey right) \<le> length sep"
    using le(1) prefix_of_le(2) [of "getLowerFenceKey n" "Some sep"] p by simp
qed

lemma merged_between:
  assumes nb: "neighbours n right sep" and e: "e \<in> set (merged_content n right sep)"
  shows "between (getLowerFenceKey n) (getUpperFenceKey right) (fst e)"
proof -
  have l: "between (getLowerFenceKey n) (Some sep) (fst e)" if "e \<in> set (content n)"
    using nb that wf_content_in_fences [of n e] by (simp add: neighbours_def in_fences_between)
  have r: "between (Some sep) (getUpperFenceKey right) (fst e)" if "e \<in> set (content right)"
    using nb that wf_content_in_fences [of right e] by (simp add: neighbours_def in_fences_between)
  have s: "above (getLowerFenceKey n) sep" "upto (getUpperFenceKey right) sep"
    using nb by (simp_all add: neighbours_def)
  from e consider "e \<in> set (content n)" | "fst e = sep" | "e \<in> set (content right)"
    by (auto simp: merged_content_def split: if_splits)
  then show ?thesis
  proof cases
    case 1
    then show ?thesis using l s(2) by (auto simp: between_def upto_def split: option.splits)
  next
    case 2
    then show ?thesis using s by (simp add: between_def)
  next
    case 3
    then show ?thesis using r s(1) by (auto simp: between_def above_def split: option.splits)
  qed
qed

lemma merged_sorted:
  assumes nb: "neighbours n right sep"
  shows "sorted_wrt (<) (map fst (merged_content n right sep))"
proof -
  have wf: "wf_node n" "wf_node right" using nb by (simp_all add: neighbours_def)
  have l: "fst e \<le> sep" "\<not> is_leaf n \<Longrightarrow> fst e < sep" if "e \<in> set (content n)" for e
    using nb that wf_content_in_fences [OF wf(1), of e] by (auto simp: neighbours_def in_fences_def upto_def keys_def)
  have r: "sep < fst e" if "e \<in> set (content right)" for e
    using nb that wf_content_in_fences [OF wf(2), of e] by (simp add: neighbours_def in_fences_def above_def)
  have lr: "fst a < fst b" if "a \<in> set (content n)" "b \<in> set (content right)" for a b
    using l(1) [OF that(1)] r [OF that(2)] by (rule le_less_trans)
  show ?thesis
    using wf_sorted_keys [OF wf(1)] wf_sorted_keys [OF wf(2)] l r lr
    by (auto simp: merged_content_def sorted_wrt_append)
qed

lemma merge_fits:
  assumes nb: "neighbours n right sep" and est: "merge_estimate n right sep \<le> EFFECTIVE_PAGE_SIZE"
  defines "p \<equiv> prefix_of (getLowerFenceKey n) (getUpperFenceKey right)"
  shows "slots_end (length (merged_content n right sep)) + opt_len (getLowerFenceKey n) +
    opt_len (getUpperFenceKey right) + total_size p (merged_content n right sep) \<le> EFFECTIVE_PAGE_SIZE"
proof -
  have wf: "wf_node n" "wf_node right" using nb by (simp_all add: neighbours_def)
  note np = neighbours_prefix [OF nb, folded p_def]
  have "total_size p (content n) \<le> total_size (prefix_length n) (content n) + (prefix_length n - p) * count n"
    "total_size p (content right) \<le> total_size (prefix_length right) (content right) + (prefix_length right - p) * count right"
    using total_size_grow [OF np(1), of "content n"] total_size_grow [OF np(2), of "content right"] by simp_all
  moreover have "length (swip_bytes w) = 8" for w by (simp add: swip_bytes_def)
  ultimately show ?thesis
    using est wf_space [OF wf(1)] wf_space [OF wf(2)]
    by (simp add: merge_estimate_def p_def [symmetric] merged_content_def slots_end_def entry_size_def Let_def
        split: if_splits)
qed

lemma u16_grow:
  assumes "p \<le> q" "(q - p) * c < 65536"
  shows "u16 ((int q - int p) * int c) = (q - p) * c"
  using u16_of_nat [OF assms(2)] assms(1) by (simp add: of_nat_diff)

lemma u16_sum: "a + b + c + d + e < 65536 \<Longrightarrow> u16 (int a + int b + int c + int d + int e) = a + b + c + d + e"
  using u16_of_nat [of "a + b + c + d + e"] by simp

lemma u16_sum6:
  "a + b + c + d + e + f < 65536 \<Longrightarrow> u16 (int a + int b + int c + int d + int e + int f) = a + b + c + d + e + f"
  using u16_of_nat [of "a + b + c + d + e + f"] by simp

text \<open>The page that \<open>merge\<close> builds, when the estimate says that it fits.\<close>

lemma merge_built:
  assumes nb: "neighbours n right sep" and est: "merge_estimate n right sep \<le> EFFECTIVE_PAGE_SIZE"
  defines "t0 \<equiv> setFences (new_node (is_leaf n)) (getLowerFenceKey n) (getUpperFenceKey right)"
  defines "t1 \<equiv> copyKeyValueRange n t0 0 0 (count n)"
  defines "t2 \<equiv> (storeKeyValue t1 (count n) sep (swip_bytes (upper n)))\<lparr>count := Suc (count n)\<rparr>"
  shows "count t1 = count n"
    "is_leaf n \<Longrightarrow> built (copyKeyValueRange right t1 (count n) 0 (count right)) (is_leaf n)
       (getLowerFenceKey n) (getUpperFenceKey right) (merged_content n right sep)"
    "\<not> is_leaf n \<Longrightarrow> built (copyKeyValueRange right t2 (Suc (count n)) 0 (count right)) (is_leaf n)
       (getLowerFenceKey n) (getUpperFenceKey right) (merged_content n right sep)"
proof -
  let ?lo = "getLowerFenceKey n" and ?hi = "getUpperFenceKey right" and ?m = "merged_content n right sep"
  have wf: "wf_node n" "wf_node right" using nb by (simp_all add: neighbours_def)
  note fit = merge_fits [OF nb est]
  have t0: "built t0 (is_leaf n) ?lo ?hi []" unfolding t0_def
    by (rule built_fences) (use fit in \<open>simp add: slots_end_def\<close>)
  have c0: "count t0 = 0" using built_count [OF t0] by simp
  have bn: "between ?lo ?hi (fst e)" if "e \<in> set (content n) \<or> e \<in> set (content right)" for e
    using merged_between [OF nb, of e] that by (auto simp: merged_content_def)
  have "built (copyKeyValueRange n t0 (count t0) 0 (count n)) (is_leaf n) ?lo ?hi ([] @ take (count n) (drop 0 (content n))) \<and>
      upper (copyKeyValueRange n t0 (count t0) 0 (count n)) = upper t0"
    by (rule built_copy [OF wf(1) t0])
      (use fit bn c0 in \<open>auto simp: merged_content_def slots_end_def split: if_splits\<close>)
  then have t1: "built t1 (is_leaf n) ?lo ?hi (content n)" by (simp add: t1_def c0)
  show c1: "count t1 = count n" using built_count [OF t1] by simp
  show "built (copyKeyValueRange right t1 (count n) 0 (count right)) (is_leaf n) ?lo ?hi ?m" if leaf: "is_leaf n"
    using built_copy [OF wf(2) t1, of 0 "count right"] fit bn leaf c1 by (simp add: merged_content_def)
  show "built (copyKeyValueRange right t2 (Suc (count n)) 0 (count right)) (is_leaf n) ?lo ?hi ?m" if inner: "\<not> is_leaf n"
  proof -
    have bs: "between ?lo ?hi sep" using nb by (simp add: neighbours_def between_def)
    have t2: "built t2 (is_leaf n) ?lo ?hi (content n @ [(sep, swip_bytes (upper n))])"
      using built_store [OF t1 bs, of "swip_bytes (upper n)"] fit inner c1
      by (simp add: t2_def merged_content_def slots_end_def)
    then show ?thesis
      using built_copy [OF wf(2) t2, of 0 "count right"] fit bn inner
      by (simp add: merged_content_def t2_def)
  qed
qed

lemma merge_tmp_prefix:
  assumes nb: "neighbours n right sep" and est: "merge_estimate n right sep < 65536"
  shows "prefix_length (setFences (new_node (is_leaf n)) (getLowerFenceKey n) (getUpperFenceKey right)) =
    prefix_of (getLowerFenceKey n) (getUpperFenceKey right)"
  by (simp add: setFences_def insertFence_def prefix_of_def Let_def split: option.splits prod.splits)

definition merge_ok :: "btree_node \<Rightarrow> btree_node \<Rightarrow> bytes \<Rightarrow> btree_node \<Rightarrow> bool" where
  "merge_ok n right sep r \<longleftrightarrow>
     wf_node r \<and> content r = merged_content n right sep \<and> is_leaf r = is_leaf n \<and>
     getLowerFenceKey r = getLowerFenceKey n \<and> getUpperFenceKey r = getUpperFenceKey right \<and>
     (\<not> is_leaf n \<longrightarrow> upper r = upper right)"

lemma node_merge_spec:
  assumes nb: "neighbours n right sep" and est: "merge_estimate n right sep < 65536"
    and sl: "\<not> is_leaf n \<Longrightarrow> wf_node parent \<and> slotId < count parent \<and> keys parent ! slotId = sep"
  shows "case node_merge n slotId parent right of (ok, parent', right') \<Rightarrow>
    (if merge_estimate n right sep \<le> EFFECTIVE_PAGE_SIZE
     then ok \<and> parent' = removeSlot parent slotId \<and> merge_ok n right sep right'
     else \<not> ok \<and> parent' = parent \<and> right' = right)"
proof -
  let ?p = "prefix_of (getLowerFenceKey n) (getUpperFenceKey right)"
  note tp = merge_tmp_prefix [OF nb est]
  note np = neighbours_prefix [OF nb]
  have g: "(prefix_length n - ?p) * count n < 65536" "(prefix_length right - ?p) * count right < 65536"
    using est by (simp_all add: merge_estimate_def Let_def)
  note gr = u16_grow [OF np(1) g(1)] u16_grow [OF np(2) g(2)]
  have wfm: "wf_node (makeHint r) \<and> content (makeHint r) = merged_content n right sep \<and> is_leaf (makeHint r) = is_leaf n \<and>
     getLowerFenceKey (makeHint r) = getLowerFenceKey n \<and> getUpperFenceKey (makeHint r) = getUpperFenceKey right"
    if "built r (is_leaf n) (getLowerFenceKey n) (getUpperFenceKey right) (merged_content n right sep)" for r
    using built_wf [OF that merged_sorted [OF nb] merged_between [OF nb]] that by (simp add: built_def)
  show ?thesis
  proof (cases "is_leaf n")
    case True
    have e: "merge_estimate n right sep = space_used n + space_used right + slots_end (count n + count right) +
        (prefix_length n - ?p) * count n + (prefix_length right - ?p) * count right"
      using True by (simp add: merge_estimate_def Let_def)
    note es = u16_sum [OF est [unfolded e], folded e]
    show ?thesis
    proof (cases "merge_estimate n right sep \<le> EFFECTIVE_PAGE_SIZE")
      case fits: True
      have r: "node_merge n slotId parent right = (True, removeSlot parent slotId, makeHint
          (copyKeyValueRange right (copyKeyValueRange n (setFences (new_node (is_leaf n))
            (getLowerFenceKey n) (getUpperFenceKey right)) 0 0 (count n)) (count n) 0 (count right)))"
        unfolding node_merge_def Let_def unfolding tp unfolding gr unfolding es using True fits by simp
      show ?thesis using fits wfm [OF merge_built(2) [OF nb fits True]] True unfolding r by (simp add: merge_ok_def)
    next
      case nofit: False
      then show ?thesis unfolding node_merge_def Let_def unfolding tp unfolding gr unfolding es using True by simp
    qed
  next
    case False
    have full: "getFullKeyLen parent slotId = length sep" "copyFullKey parent slotId = sep"
      using sl [OF False] wf_full_key_len [of parent slotId] keys_nth [of slotId parent]
      by (simp_all add: copyFullKey_def)
    have lb: "SIZEOF_SLOT + (length sep - ?p) + 8 < 65536" using est False by (simp add: merge_estimate_def Let_def)
    have sn: "spaceNeeded (setFences (new_node (is_leaf n)) (getLowerFenceKey n) (getUpperFenceKey right)) (length sep) 8 =
        SIZEOF_SLOT + (length sep - ?p) + 8"
      using np(3) lb u16_of_nat [of "SIZEOF_SLOT + (length sep - ?p) + 8"]
      by (simp add: spaceNeeded_def tp of_nat_diff algebra_simps)
    have e: "merge_estimate n right sep = space_used n + space_used right + slots_end (count n + count right) +
        (prefix_length n - ?p) * count n + (prefix_length right - ?p) * count right + (SIZEOF_SLOT + (length sep - ?p) + 8)"
      using False by (simp add: merge_estimate_def Let_def)
    note es = u16_sum6 [OF est [unfolded e], folded e]
    show ?thesis
    proof (cases "merge_estimate n right sep \<le> EFFECTIVE_PAGE_SIZE")
      case fits: True
      note B = merge_built [OF nb fits]
      have c: "u16 (int (count n) + 1) = Suc (count n)"
        using fits u16_of_nat [of "Suc (count n)"] by (simp add: e slots_end_def add.commute)
      have cs: "count (storeKeyValue t i k v) = count t" for t i k v by (simp add: storeKeyValue_def Let_def)
      have r: "node_merge n slotId parent right = (True, removeSlot parent slotId, makeHint
         ((copyKeyValueRange right ((storeKeyValue (copyKeyValueRange n (setFences (new_node (is_leaf n))
            (getLowerFenceKey n) (getUpperFenceKey right)) 0 0 (count n)) (count n) sep (swip_bytes (upper n)))
              \<lparr>count := Suc (count n)\<rparr>) (Suc (count n)) 0 (count right))\<lparr>upper := upper right\<rparr>))"
        unfolding node_merge_def Let_def unfolding tp unfolding gr full sn unfolding es
        using False fits B(1) by (simp add: c cs)
      let ?m = "copyKeyValueRange right ((storeKeyValue (copyKeyValueRange n (setFences (new_node (is_leaf n))
            (getLowerFenceKey n) (getUpperFenceKey right)) 0 0 (count n)) (count n) sep (swip_bytes (upper n)))
              \<lparr>count := Suc (count n)\<rparr>) (Suc (count n)) 0 (count right)"
      have "built (?m\<lparr>upper := upper right\<rparr>) (is_leaf n) (getLowerFenceKey n) (getUpperFenceKey right)
          (merged_content n right sep)" using B(3) [OF False] by simp
      from wfm [OF this] show ?thesis using fits False unfolding r by (simp add: merge_ok_def)
    next
      case nofit: False
      then show ?thesis
        unfolding node_merge_def Let_def unfolding tp unfolding gr full sn unfolding es using False by simp
    qed
  qed
qed

section \<open>Properties\<close>

text \<open>A leaf with three entries, for the witnesses.\<close>

definition sample_leaf :: btree_node where
  "sample_leaf = snd (node_insert (snd (node_insert (snd (node_insert (new_node True) [1] [])) [2] [])) [3] [])"

lemma sample_leaf_simps [simp]:
  "wf_node sample_leaf" "content sample_leaf = [([1], []), ([2], []), ([3], [])]" "is_leaf sample_leaf"
  "getLowerFenceKey sample_leaf = None" "getUpperFenceKey sample_leaf = None" "space_used sample_leaf = 3"
proof -
  let ?n0 = "new_node True"
  have f0: "getLowerFenceKey ?n0 = None" "getUpperFenceKey ?n0 = None" "space_used ?n0 = 0"
    by (simp_all add: new_node_def getLowerFenceKey_def getUpperFenceKey_def)
  note A = insert_no_fences [of ?n0 "[1]" "[]", OF wf_new_node f0(1,2)]
  define n1 where "n1 = snd (node_insert ?n0 [1] [])"
  have n1: "wf_node n1" "content n1 = [([1], [])]" "getLowerFenceKey n1 = None" "getUpperFenceKey n1 = None"
    "is_leaf n1" "space_used n1 = 1"
    using A f0 by (simp_all add: n1_def slots_end_def insert_at_def)
  have k1: "keys n1 = [[1]]" "count n1 = 1" using n1(2) length_content [of n1] by (simp_all add: keys_def)
  note B = insert_no_fences [of n1 "[2]" "[]", OF n1(1,3,4)]
  define n2 where "n2 = snd (node_insert n1 [2] [])"
  have n2: "wf_node n2" "content n2 = [([1], []), ([2], [])]" "getLowerFenceKey n2 = None" "getUpperFenceKey n2 = None"
    "is_leaf n2" "space_used n2 = 2"
    using B n1 k1 by (simp_all add: n2_def slots_end_def insert_at_def rank_def)
  have k2: "keys n2 = [[1], [2]]" "count n2 = 2" using n2(2) length_content [of n2] by (simp_all add: keys_def)
  note C = insert_no_fences [of n2 "[3]" "[]", OF n2(1,3,4)]
  have "sample_leaf = snd (node_insert n2 [3] [])" by (simp add: sample_leaf_def n2_def n1_def)
  then show "wf_node sample_leaf" "content sample_leaf = [([1], []), ([2], []), ([3], [])]" "is_leaf sample_leaf"
    "getLowerFenceKey sample_leaf = None" "getUpperFenceKey sample_leaf = None" "space_used sample_leaf = 3"
    using C n2 k2 by (simp_all add: slots_end_def insert_at_def rank_def)
qed

lemma sample_leaf_keys [simp]: "keys sample_leaf = [[1], [2], [3]]" "count sample_leaf = 3"
  using length_content [of sample_leaf] by (simp_all add: keys_def)

text \<open>C19. \<open>findSep\<close> on a page with more than two entries picks a slot with a right neighbour, and \<open>getSep\<close> builds a
  separator of the announced length that is at least the key of that slot and strictly below the next key, whether or not
  the separator was truncated; it is never longer than the slot's key.\<close>

theorem findSep_correct:
  assumes "wf_node n" "count n > 2"
  shows "let info = findSep n; s = sep_slot info; sep = getSep n info in
    s + 1 < count n \<and> keys n ! s \<le> sep \<and> sep < keys n ! (s + 1) \<and>
    length sep = sep_length info \<and> length sep \<le> length (keys n ! s)"
  using findSep_separates [OF assms] by (simp add: Let_def separates_def)

theorem findSep_correct_witness:
  "let info = findSep sample_leaf; s = sep_slot info in
   s < 2 \<and> [[1], [2], [3]] ! s \<le> getSep sample_leaf info \<and> getSep sample_leaf info < [[2], [3]] ! s"
  using findSep_correct [of sample_leaf] by (simp add: Let_def)

text \<open>C17. \<open>split\<close> at a separator builds two well-formed pages of the same kind that meet at the separator: a leaf's entries
  are divided after the slot; an inner page gives up the slot, whose child becomes the left page's rightmost child. The
  entry for the left page is inserted into the parent. For a leaf the separator key must be paid for by the entries that
  leave the left page (\<open>split_room\<close>).\<close>

theorem split_correct:
  assumes "wf_node n" "separates n s sep" "is_leaf n \<longrightarrow> split_room n s sep"
  shows "case node_split n parent (new_node (is_leaf n)) swip s sep of (right, parent', left) \<Rightarrow>
    wf_node left \<and> wf_node right \<and> is_leaf left = is_leaf n \<and> is_leaf right = is_leaf n \<and>
    content left = take (if is_leaf n then s + 1 else s) (content n) \<and> content right = drop (s + 1) (content n) \<and>
    getLowerFenceKey left = getLowerFenceKey n \<and> getUpperFenceKey left = Some sep \<and>
    getLowerFenceKey right = Some sep \<and> getUpperFenceKey right = getUpperFenceKey n \<and>
    (\<not> is_leaf n \<longrightarrow> upper left = getChild n s \<and> upper right = upper n) \<and>
    parent' = snd (node_insert parent sep (swip_bytes swip))"
  using node_split_spec [OF assms(1,2), of parent swip] assms(3) by (auto simp: split_ok_def split: prod.splits)

theorem split_correct_witness:
  "content (snd (snd (node_split sample_leaf (new_node False) (new_node True) 7 0 [1]))) = [([1], [])]"
proof -
  have s: "separates sample_leaf 0 [1]" by (simp add: separates_def)
  show ?thesis
    using split_correct [of sample_leaf 0 "[1]" "new_node False" 7] s split_room_short [OF s]
    by (simp split: prod.splits)
qed

text \<open>C18. \<open>merge\<close> of two neighbouring pages whose space estimate does not wrap around in 16 bits succeeds exactly when
  the estimate fits a page. Then the right page holds the entries of both (for inner pages with the parent's separator
  and the left page's rightmost child between them), is well-formed and spans both key ranges, and the parent has lost
  the left page's slot; otherwise nothing changes.\<close>

theorem merge_correct:
  assumes "neighbours n right sep" "merge_estimate n right sep < 65536"
    "\<not> is_leaf n \<longrightarrow> wf_node parent \<and> slotId < count parent \<and> keys parent ! slotId = sep"
  shows "case node_merge n slotId parent right of (ok, parent', right') \<Rightarrow>
    if merge_estimate n right sep \<le> EFFECTIVE_PAGE_SIZE
    then ok \<and> parent' = removeSlot parent slotId \<and> wf_node right' \<and> is_leaf right' = is_leaf n \<and>
      content right' = merged_content n right sep \<and>
      getLowerFenceKey right' = getLowerFenceKey n \<and> getUpperFenceKey right' = getUpperFenceKey right \<and>
      (\<not> is_leaf n \<longrightarrow> upper right' = upper right)
    else \<not> ok \<and> parent' = parent \<and> right' = right"
  using node_merge_spec [OF assms(1,2), of parent slotId] assms(3) by (auto simp: merge_ok_def split: prod.splits if_splits)

theorem merge_correct_witness:
  "\<exists>l r. content l = [([1], [])] \<and> content r = [([2], []), ([3], [])] \<and>
     content (snd (snd (node_merge l 0 (new_node False) r))) = [([1], []), ([2], []), ([3], [])]"
proof -
  have s: "separates sample_leaf 0 [1]" by (simp add: separates_def)
  obtain r p l where sp: "node_split sample_leaf (new_node False) (new_node (is_leaf sample_leaf)) 7 0 [1] = (r, p, l)"
    by (metis prod_cases3)
  have ok: "split_ok sample_leaf 0 [1] l r"
    using node_split_spec [OF _ s, of "new_node False" 7] split_room_short [OF s] sp by simp
  have c: "count l = 1" "count r = 2" using ok length_content [of l] length_content [of r] by (simp_all add: split_ok_def)
  have nb: "neighbours l r [1]"
    using ok by (simp add: split_ok_def neighbours_def above_def upto_def)
  have fl: "getLowerFenceKey l = None" "getUpperFenceKey l = Some [1]" "getLowerFenceKey r = Some [1]"
    "getUpperFenceKey r = None" "is_leaf l" "wf_node l" "wf_node r"
    "content l = [([1], [])]" "content r = [([2], []), ([3], [])]"
    using ok by (simp_all add: split_ok_def)
  have p0: "prefix_length l = 0" "prefix_length r = 0" using wf_prefix [OF fl(6)] wf_prefix [OF fl(7)] fl
    by (simp_all add: prefix_of_def)
  have est: "merge_estimate l r [1] \<le> EFFECTIVE_PAGE_SIZE"
    using wf_space(1,3,4) [OF fl(6)] wf_space(1,3,4) [OF fl(7)] c p0 fl
    by (simp add: merge_estimate_def Let_def slots_end_def entry_size_def)
  have "content (snd (snd (node_merge l 0 (new_node False) r))) = merged_content l r [1]"
    using merge_correct [OF nb, of "new_node False" 0] est fl(5) by (auto split: prod.splits)
  then show ?thesis using fl by (auto simp: merged_content_def)
qed

end
