(* ===== verification/BTreeGeneric.thy ===== *)
theory BTreeGeneric
  imports BTreeNodeSplit
begin

text \<open>
  The B-tree over buffer frames (storage/btree/core/BTreeGeneric.hpp and BTreeGeneric.cpp), run by one worker:
  descending to a leaf, finding a parent, splitting and merging. Frames are addressed by the 64-bit word that a hot swip
  holds; every page is resident. A page is allocated from the free list of the buffer manager, which jumps when it is
  empty. Latches, page GSNs, the log and profiling counters are not part of this state: they do not change what the
  operations compute when no other worker interferes. A \<open>partial_function\<close> has the value \<open>None\<close> when the code does not
  return.
\<close>

section \<open>State\<close>

record btree =
  bfs :: "u64 \<Rightarrow> btree_node"
  meta_node_bf :: u64
  height :: nat
  free_list :: "u64 list"
  bulk_insert :: bool

datatype OP_RESULT = OK | NOT_FOUND | DUPLICATE | ABORT_TX | NOT_ENOUGH_SPACE | OTHER

definition root_bf :: "btree \<Rightarrow> u64" where
  "root_bf b = upper (bfs b (meta_node_bf b))"

definition set_page :: "btree \<Rightarrow> u64 \<Rightarrow> btree_node \<Rightarrow> btree" where
  "set_page b w n = b\<lparr>bfs := (bfs b)(w := n)\<rparr>"

text \<open>\<open>BufferManager::allocatePage\<close> and \<open>reclaimPage\<close>, as far as frames are concerned.\<close>

definition allocatePage :: "btree \<Rightarrow> (u64 \<times> btree) option" where
  "allocatePage b = (case free_list b of [] \<Rightarrow> None | w # ws \<Rightarrow> Some (w, b\<lparr>free_list := ws\<rparr>))"

definition reclaimPage :: "btree \<Rightarrow> u64 \<Rightarrow> btree" where
  "reclaimPage b w = b\<lparr>free_list := w # free_list b\<rparr>"

text \<open>\<open>create\<close>: an empty leaf as the root, referred to by \<open>upper\<close> of the meta node.\<close>

definition create :: "btree \<Rightarrow> u64 \<Rightarrow> btree option" where
  "create b meta =
     (case allocatePage b of
        None \<Rightarrow> None
      | Some (w, b) \<Rightarrow>
          (let b = set_page b w (new_node True);
               b = b\<lparr>meta_node_bf := meta\<rparr> in
           Some (set_page b meta ((bfs b meta)\<lparr>upper := w\<rparr>))))"

section \<open>Descending\<close>

partial_function (option) findLeaf_loop :: "btree \<Rightarrow> bytes \<Rightarrow> u64 \<Rightarrow> u64 option" where
  "findLeaf_loop b key w =
     (if is_leaf (bfs b w) then Some w else findLeaf_loop b key (lookupInner (bfs b w) key))"

definition findLeafCanJump :: "btree \<Rightarrow> bytes \<Rightarrow> u64 option" where
  "findLeafCanJump b key = findLeaf_loop b key (root_bf b)"

text \<open>\<open>findParent\<close>: \<open>key\<close> is the upper fence of the page to find, absent for infinity. The result is the parent and the
  position of the page in it.\<close>

definition child_at :: "btree_node \<Rightarrow> int \<Rightarrow> u64" where
  "child_at n pos = (if pos = int (count n) then upper n else getChild n (nat pos))"

definition parent_pos :: "btree_node \<Rightarrow> bytes option \<Rightarrow> int" where
  "parent_pos n key = (case key of None \<Rightarrow> int (count n) | Some k \<Rightarrow> fst (lowerBound False n k))"

partial_function (option) findParent_loop ::
  "btree \<Rightarrow> u64 \<Rightarrow> bytes option \<Rightarrow> u64 \<Rightarrow> (u64 \<times> int) jmu option" where
  "findParent_loop b to_find key c =
     (if is_leaf (bfs b c) then Some Jump
      else
        (let pos = parent_pos (bfs b c) key; swip = child_at (bfs b c) pos in
         if swip = to_find then Some (Ret (c, pos)) else findParent_loop b to_find key swip))"

definition findParent :: "btree \<Rightarrow> u64 \<Rightarrow> (u64 \<times> int) jmu option" where
  "findParent b to_find =
     (if root_bf b = to_find then Some (Ret (meta_node_bf b, -2))
      else findParent_loop b to_find (getUpperFenceKey (bfs b to_find)) (root_bf b))"

section \<open>Splitting\<close>

definition full_sep_info :: "btree_node \<Rightarrow> nat \<Rightarrow> SeparatorInfo" where
  "full_sep_info n pos = \<lparr>sep_length = getFullKeyLen n pos, sep_slot = pos, sep_trunc = False\<rparr>"

definition choose_sep :: "bool \<Rightarrow> btree_node \<Rightarrow> int \<Rightarrow> SeparatorInfo" where
  "choose_sep bulk c favored_split_pos =
     (if favored_split_pos < 0 \<or> favored_split_pos \<ge> int (count c) - 1 then
        (if bulk then full_sep_info c (count c - 2) else findSep c)
      else full_sep_info c (nat favored_split_pos))"

text \<open>The root split: a new root above the old one. Both allocations come first; when the second one jumps, the guard of
  the new root gives its frame back.\<close>

definition split_root :: "btree \<Rightarrow> u64 \<Rightarrow> SeparatorInfo \<Rightarrow> bool \<times> btree" where
  "split_root b c sep_info =
     (case allocatePage b of
        None \<Rightarrow> (False, b)
      | Some (new_root, b1) \<Rightarrow>
          (case allocatePage b1 of
             None \<Rightarrow> (False, reclaimPage b1 new_root)
           | Some (new_left, b2) \<Rightarrow>
               (let meta = meta_node_bf b2;
                    n = bfs b2 c;
                    b2 = set_page b2 meta ((bfs b2 meta)\<lparr>upper := new_root\<rparr>);
                    sep_key = getSep n sep_info;
                    (right, root, left) = node_split n ((new_node False)\<lparr>upper := c\<rparr>) (new_node (is_leaf n))
                      new_left (sep_slot sep_info) sep_key;
                    b2 = set_page b2 new_root root;
                    b2 = set_page b2 new_left left;
                    b2 = set_page b2 c right in
                (True, b2\<lparr>height := height b2 + 1\<rparr>))))"

text \<open>The split below a parent that has the space.\<close>

definition split_child :: "btree \<Rightarrow> u64 \<Rightarrow> u64 \<Rightarrow> SeparatorInfo \<Rightarrow> bool \<times> btree" where
  "split_child b p c sep_info =
     (let b = set_page b p (snd (requestSpaceFor (bfs b p) (spaceNeeded (bfs b p) (sep_length sep_info) 8))) in
      case allocatePage b of
        None \<Rightarrow> (False, b)
      | Some (new_left, b) \<Rightarrow>
          (let n = bfs b c;
               sep_key = getSep n sep_info;
               (right, parent, left) = node_split n (bfs b p) (new_node (is_leaf n)) new_left (sep_slot sep_info) sep_key;
               b = set_page b p parent;
               b = set_page b new_left left in
           (True, set_page b c right)))"

text \<open>The first component of the result says whether \<open>trySplit\<close> returned or jumped.\<close>

partial_function (option) trySplit :: "btree \<Rightarrow> u64 \<Rightarrow> int \<Rightarrow> (bool \<times> btree) option" where
  "trySplit b to_split favored_split_pos =
     (case findParent b to_split of
        None \<Rightarrow> None
      | Some Jump \<Rightarrow> Some (False, b)
      | Some (Ret (p, _)) \<Rightarrow>
          (let c = bfs b to_split in
           if count c \<le> 2 then Some (True, b)
           else
             (let sep_info = choose_sep (bulk_insert b) c favored_split_pos in
              if p = meta_node_bf b then Some (split_root b to_split sep_info)
              else if hasEnoughSpaceFor (bfs b p) (spaceNeeded (bfs b p) (sep_length sep_info) 8)
              then Some (split_child b p to_split sep_info)
              else trySplit b p (-1))))"

section \<open>Merging\<close>

text \<open>\<open>merge_left\<close> and \<open>merge_right\<close> of \<open>tryMerge\<close>: whether a merge happened, and the state.\<close>

definition merge_pages :: "btree \<Rightarrow> u64 \<Rightarrow> nat \<Rightarrow> u64 \<Rightarrow> u64 \<Rightarrow> bool \<times> btree" where
  "merge_pages b p slotId l r =
     (let (ok, parent, right) = node_merge (bfs b l) slotId (bfs b p) (bfs b r);
          b = set_page b p parent;
          b = set_page b r right in
      if ok then (True, reclaimPage b l) else (False, b))"

definition merge_left :: "btree \<Rightarrow> u64 \<Rightarrow> u64 \<Rightarrow> int \<Rightarrow> bool \<times> btree" where
  "merge_left b p c pos =
     (let l = getChild (bfs b p) (nat (pos - 1)) in
      if freeSpaceAfterCompaction (bfs b l) < underFullSize then (False, b)
      else merge_pages b p (nat (pos - 1)) l c)"

definition merge_right :: "btree \<Rightarrow> u64 \<Rightarrow> u64 \<Rightarrow> int \<Rightarrow> bool \<times> btree" where
  "merge_right b p c pos =
     (let r = getChild (bfs b p) (nat (pos + 1)) in
      if freeSpaceAfterCompaction (bfs b r) < underFullSize then (False, b)
      else merge_pages b p (nat pos) c r)"

text \<open>The merge attempts of one level.\<close>

definition merge_level :: "btree \<Rightarrow> u64 \<Rightarrow> u64 \<Rightarrow> int \<Rightarrow> bool \<times> btree" where
  "merge_level b p c pos =
     (if count (bfs b p) > 2 then
        (let (m, b) = (if pos > 0 then merge_left b p c pos else (False, b)) in
         if \<not> m \<and> pos + 1 < int (count (bfs b p)) then merge_right b p c pos else (m, b))
      else (False, b))"

text \<open>\<open>tryMerge\<close> with \<open>swizzle_sibling\<close> (all pages are hot). The recursive call on the parent runs under \<open>jumpmuTry\<close>: its
  result is dropped.\<close>

partial_function (option) tryMerge :: "btree \<Rightarrow> u64 \<Rightarrow> (bool jmu \<times> btree) option" where
  "tryMerge b to_merge =
     (case findParent b to_merge of
        None \<Rightarrow> None
      | Some Jump \<Rightarrow> Some (Jump, b)
      | Some (Ret (p, pos)) \<Rightarrow>
          (if p = meta_node_bf b \<or> freeSpaceAfterCompaction (bfs b to_merge) < underFullSize then Some (Ret False, b)
           else if pos \<ge> int (count (bfs b p)) then Some (Ret False, b)
           else
             (let (merged, b) = merge_level b p to_merge pos in
              if freeSpaceAfterCompaction (bfs b p) \<ge> underFullSize then
                Option.bind (tryMerge b p) (\<lambda>(_, b). Some (Ret merged, b))
              else Some (Ret merged, b))))"

section \<open>Counting\<close>

text \<open>\<open>iterateAllPagesRec\<close>, with the two callbacks as functions and the depth it may still descend; a tree of height \<open>h\<close>
  needs depth \<open>h\<close>.\<close>

definition child_swips :: "btree_node \<Rightarrow> u64 list" where
  "child_swips n = map (getChild n) [0..<count n] @ [upper n]"

fun iterateAllPagesRec ::
  "nat \<Rightarrow> btree \<Rightarrow> (btree_node \<Rightarrow> nat) \<Rightarrow> (btree_node \<Rightarrow> nat) \<Rightarrow> u64 \<Rightarrow> nat option" where
  "iterateAllPagesRec 0 b inner leaf w = None"
| "iterateAllPagesRec (Suc d) b inner leaf w =
     (if is_leaf (bfs b w) then Some (leaf (bfs b w))
      else foldl (\<lambda>res c. Option.bind res (\<lambda>r. map_option ((+) r) (iterateAllPagesRec d b inner leaf c)))
        (Some (inner (bfs b w))) (child_swips (bfs b w)))"

definition iterateAllPages :: "btree \<Rightarrow> (btree_node \<Rightarrow> nat) \<Rightarrow> (btree_node \<Rightarrow> nat) \<Rightarrow> nat option" where
  "iterateAllPages b inner leaf = iterateAllPagesRec (height b) b inner leaf (root_bf b)"

definition countEntries :: "btree \<Rightarrow> nat option" where
  "countEntries b = iterateAllPages b (\<lambda>_. 0) count"

definition countPages :: "btree \<Rightarrow> nat option" where
  "countPages b = iterateAllPages b (\<lambda>_. 1) (\<lambda>_. 1)"

definition countInner :: "btree \<Rightarrow> nat option" where
  "countInner b = iterateAllPages b (\<lambda>_. 1) (\<lambda>_. 0)"

definition bytesFree :: "btree \<Rightarrow> nat option" where
  "bytesFree b = map_option (\<lambda>r. u32_of (int r)) (iterateAllPages b freeSpaceAfterCompaction freeSpaceAfterCompaction)"

end
