(* ===== verification/BTreeInv.thy ===== *)
theory BTreeInv
  imports BTreeGeneric
begin

text \<open>
  The invariant of the page-based B-tree. A \<open>ptree\<close> records which frames make up a (sub)tree; \<open>ok\<close> says that the pages
  in those frames form a search tree between two bounds: well-formed pages whose fences are the bounds, separators that
  are the bounds of the children, child swips that are the children's addresses, all leaves at the same depth. The
  contents of a tree are the entries of its leaves from left to right.
\<close>

section \<open>Trees of frames\<close>

datatype ptree = PLeaf u64 | PInner u64 "ptree list"

fun addr :: "ptree \<Rightarrow> u64" where
  "addr (PLeaf w) = w"
| "addr (PInner w ts) = w"

fun frames :: "ptree \<Rightarrow> u64 list" where
  "frames (PLeaf w) = [w]"
| "frames (PInner w ts) = w # concat (map frames ts)"

fun leaves :: "ptree \<Rightarrow> u64 list" where
  "leaves (PLeaf w) = [w]"
| "leaves (PInner w ts) = concat (map leaves ts)"

lemma addr_in_frames [simp]: "addr t \<in> set (frames t)"
  by (cases t) simp_all

lemma leaves_subset_frames: "set (leaves t) \<subseteq> set (frames t)"
  by (induction t) auto

text \<open>Keys and values of the size that the adapters store: keys of one to eight bytes, payloads of up to 4 KiB.\<close>

definition key_ok :: "bytes \<Rightarrow> bool" where
  "key_ok k \<longleftrightarrow> 0 < length k \<and> length k \<le> 8"

definition val_ok :: "bytes \<Rightarrow> bool" where
  "val_ok v \<longleftrightarrow> length v \<le> 4096"

definition below :: "bytes option \<Rightarrow> bytes \<Rightarrow> bool" where
  "below hi k \<longleftrightarrow> (case hi of Some u \<Rightarrow> k < u | None \<Rightarrow> True)"

definition page_fences :: "btree_node \<Rightarrow> bytes option \<Rightarrow> bytes option \<Rightarrow> bool" where
  "page_fences n lo hi \<longleftrightarrow> getLowerFenceKey n = lo \<and> getUpperFenceKey n = hi"

definition leaf_ok :: "btree_node \<Rightarrow> bytes option \<Rightarrow> bytes option \<Rightarrow> bool" where
  "leaf_ok n lo hi \<longleftrightarrow>
     wf_node n \<and> is_leaf n \<and> page_fences n lo hi \<and> (\<forall>e \<in> set (content n). key_ok (fst e) \<and> val_ok (snd e))"

definition inner_ok :: "btree_node \<Rightarrow> bytes option \<Rightarrow> bytes option \<Rightarrow> u64 list \<Rightarrow> bool" where
  "inner_ok n lo hi ws \<longleftrightarrow>
     wf_node n \<and> \<not> is_leaf n \<and> page_fences n lo hi \<and> (\<forall>k \<in> set (keys n). key_ok k \<and> below hi k) \<and>
     length ws = Suc (count n) \<and> map snd (content n) = map swip_bytes (butlast ws) \<and> upper n = last ws"

type_synonym store = "u64 \<Rightarrow> btree_node"

fun ok :: "store \<Rightarrow> nat \<Rightarrow> ptree \<Rightarrow> bytes option \<Rightarrow> bytes option \<Rightarrow> bool"
  and oks :: "store \<Rightarrow> nat \<Rightarrow> ptree list \<Rightarrow> bytes option \<Rightarrow> bytes list \<Rightarrow> bytes option \<Rightarrow> bool" where
  "ok st h (PLeaf w) lo hi = (h = 1 \<and> leaf_ok (st w) lo hi)"
| "ok st h (PInner w ts) lo hi =
     (h > 1 \<and> inner_ok (st w) lo hi (map addr ts) \<and> oks st (h - 1) ts lo (keys (st w)) hi)"
| "oks st h [] lo ks hi = False"
| "oks st h (t # ts) lo [] hi = (ts = [] \<and> ok st h t lo hi)"
| "oks st h (t # ts) lo (k # ks) hi = (ok st h t lo (Some k) \<and> oks st h ts (Some k) ks hi)"

definition lb :: "bytes option \<Rightarrow> bytes list \<Rightarrow> nat \<Rightarrow> bytes option" where
  "lb lo ks i = (lo # map Some ks) ! i"

definition ub :: "bytes list \<Rightarrow> bytes option \<Rightarrow> nat \<Rightarrow> bytes option" where
  "ub ks hi i = (map Some ks @ [hi]) ! i"

lemma lb_simps [simp]: "lb lo ks 0 = lo" "lb lo (k # ks) (Suc i) = lb (Some k) ks i"
  by (simp_all add: lb_def)

lemma lb_Suc: "i < length ks \<Longrightarrow> lb lo ks (Suc i) = Some (ks ! i)"
  by (simp add: lb_def)

lemma ub_simps [simp]: "ub [] hi 0 = hi" "ub (k # ks) hi 0 = Some k" "ub (k # ks) hi (Suc i) = ub ks hi i"
  by (simp_all add: ub_def)

lemma ub_less: "i < length ks \<Longrightarrow> ub ks hi i = Some (ks ! i)"
  by (simp add: ub_def nth_append)

lemma ub_last: "ub ks hi (length ks) = hi"
  by (simp add: ub_def nth_append)

lemma oks_nth:
  "oks st h ts lo ks hi \<longleftrightarrow>
     length ts = Suc (length ks) \<and> (\<forall>i < length ts. ok st h (ts ! i) (lb lo ks i) (ub ks hi i))"
proof (induction ks arbitrary: ts lo)
  case Nil
  then show ?case by (cases ts) auto
next
  case (Cons k ks)
  show ?case
  proof (cases ts)
    case (Cons t ts')
    then show ?thesis using Cons.IH [of ts' "Some k"] by (simp add: All_less_Suc2) blast
  qed simp
qed

lemma ok_frame: "(\<And>w. w \<in> set (frames t) \<Longrightarrow> st' w = st w) \<Longrightarrow> ok st' h t lo hi = ok st h t lo hi"
  and oks_frame: "(\<And>t w. t \<in> set ts \<Longrightarrow> w \<in> set (frames t) \<Longrightarrow> st' w = st w) \<Longrightarrow> oks st' h ts lo ks hi = oks st h ts lo ks hi"
proof (induction st h t lo hi and st h ts lo ks hi rule: ok_oks.induct)
  case (2 st h w ts lo hi)
  have "st' w = st w" using 2(2) by simp
  moreover have "oks st' (h - 1) ts lo (keys (st w)) hi = oks st (h - 1) ts lo (keys (st w)) hi"
    using 2 by (intro 2(1)) auto
  ultimately show ?case by simp
qed auto

section \<open>Subtrees\<close>

text \<open>\<open>sub st h t lo hi h' p l u\<close>: \<open>p\<close> is a subtree of \<open>t\<close>, of height \<open>h'\<close> and with bounds \<open>l\<close>, \<open>u\<close>.\<close>

inductive sub ::
  "store \<Rightarrow> nat \<Rightarrow> ptree \<Rightarrow> bytes option \<Rightarrow> bytes option \<Rightarrow> nat \<Rightarrow> ptree \<Rightarrow> bytes option \<Rightarrow> bytes option \<Rightarrow> bool"
  for st :: store where
  sub_refl: "sub st h' p l u h' p l u"
| sub_step: "i < length ts \<Longrightarrow> sub st h (ts ! i) (lb lo (keys (st w)) i) (ub (keys (st w)) hi i) h' p l u \<Longrightarrow>
    sub st (Suc h) (PInner w ts) lo hi h' p l u"

lemma ok_child:
  assumes "ok st (Suc h) (PInner w ts) lo hi" "i < length ts"
  shows "ok st h (ts ! i) (lb lo (keys (st w)) i) (ub (keys (st w)) hi i)"
  using assms by (simp add: oks_nth)

lemma sub_ok: "sub st h t lo hi h' p l u \<Longrightarrow> ok st h t lo hi \<Longrightarrow> ok st h' p l u"
  by (induction rule: sub.induct) (auto simp: oks_nth)

lemma sub_frames: "sub st h t lo hi h' p l u \<Longrightarrow> set (frames p) \<subseteq> set (frames t)"
  by (induction rule: sub.induct) fastforce+

lemma sub_trans:
  "sub st h t lo hi h1 q l1 u1 \<Longrightarrow> sub st h1 q l1 u1 h2 p l u \<Longrightarrow> sub st h t lo hi h2 p l u"
  by (induction rule: sub.induct) (auto intro: sub.intros)

lemma sub_child:
  assumes "sub st h t lo hi (Suc h') (PInner w ts) l u" "i < length ts"
  shows "sub st h t lo hi h' (ts ! i) (lb l (keys (st w)) i) (ub (keys (st w)) u i)"
  using sub_trans [OF assms(1) sub_step [OF assms(2) sub_refl]] .

lemma distinct_children:
  assumes d: "distinct (frames (PInner w ts))" and i: "i < length ts"
  shows "distinct (frames (ts ! i))" "w \<notin> set (frames (ts ! i))"
    "j < length ts \<Longrightarrow> j \<noteq> i \<Longrightarrow> set (frames (ts ! i)) \<inter> set (frames (ts ! j)) = {}"
proof -
  have c: "distinct (concat (map frames ts))" using d by simp
  have "frames (ts ! i) \<in> set (map frames ts)" using i by simp
  then show "distinct (frames (ts ! i))" "w \<notin> set (frames (ts ! i))" using c d by (auto simp: distinct_concat_iff)
  have "[] \<notin> set (map frames ts)" using addr_in_frames by (auto simp del: addr_in_frames) (metis emptyE set_empty)
  then have "distinct (map frames ts)" using c by (metis distinct_concat_iff removeAll_id)
  then have "frames (ts ! i) \<noteq> frames (ts ! j)" if "j < length ts" "j \<noteq> i"
    using that i by (metis length_map nth_eq_iff_index_eq nth_map)
  then show "set (frames (ts ! i)) \<inter> set (frames (ts ! j)) = {}" if "j < length ts" "j \<noteq> i"
    using that i c by (auto simp: distinct_concat_iff)
qed

lemma frames_child: "i < length ts \<Longrightarrow> set (frames (ts ! i)) \<subseteq> set (frames (PInner w ts))"
  by (auto dest: nth_mem)

lemma leaves_split: "i < length ts \<Longrightarrow>
  concat (map leaves ts) = concat (map leaves (take i ts)) @ leaves (ts ! i) @ concat (map leaves (drop (Suc i) ts))"
  by (metis append_Cons append_assoc append_Nil concat.simps(2) concat_append id_take_nth_drop list.simps(9) map_append)

lemma distinct_concat_update:
  assumes d: "distinct (concat xss)" and i: "i < length xss" and y: "distinct ys"
    and disj: "set ys \<inter> (set (concat xss) - set (xss ! i)) = {}"
  shows "distinct (concat (xss[i := ys]))" "set (concat (xss[i := ys])) = set (concat xss) - set (xss ! i) \<union> set ys"
proof -
  have x: "concat xss = concat (take i xss) @ xss ! i @ concat (drop (Suc i) xss)"
    by (metis append_Cons append_Nil append_assoc concat.simps(2) concat_append i id_take_nth_drop)
  have u: "concat (xss[i := ys]) = concat (take i xss) @ ys @ concat (drop (Suc i) xss)"
    using i by (simp add: upd_conv_take_nth_drop)
  have dx: "distinct (concat (take i xss) @ xss ! i @ concat (drop (Suc i) xss))" using d x by argo
  have s: "set (concat xss) = set (concat (take i xss) @ xss ! i @ concat (drop (Suc i) xss))" using x by argo
  show "distinct (concat (xss[i := ys]))"
    using dx disj y unfolding u s set_append distinct_append by blast
  show "set (concat (xss[i := ys])) = set (concat xss) - set (xss ! i) \<union> set ys"
    using dx unfolding u s set_append distinct_append by blast
qed

lemma siblings_outside:
  assumes d: "distinct (frames (PInner w ts))" and i: "i < length ts"
  shows "set (concat (map leaves (take i ts))) \<union> set (concat (map leaves (drop (Suc i) ts))) \<subseteq>
    set (frames (PInner w ts)) - set (frames (ts ! i))"
proof -
  have out: "x \<in> set (frames (PInner w ts)) - set (frames (ts ! i))" if "j < length ts" "j \<noteq> i" "x \<in> set (leaves (ts ! j))" for j x
    using distinct_children(3) [OF d i that(1,2)] that leaves_subset_frames [of "ts ! j"] frames_child [OF that(1), of w]
    by auto
  have pos: "\<exists>j < length ts. j \<noteq> i \<and> t = ts ! j" if t: "t \<in> set (take i ts) \<union> set (drop (Suc i) ts)" for t
  proof (cases "t \<in> set (take i ts)")
    case True
    then obtain j where "j < i" "j < length ts" "t = ts ! j" by (auto simp: in_set_conv_nth)
    then show ?thesis by auto
  next
    case False
    then obtain j where "j < length ts - Suc i" "t = ts ! (Suc i + j)" using t by (auto simp: in_set_conv_nth)
    then show ?thesis by (intro exI [of _ "Suc i + j"]) auto
  qed
  show ?thesis
  proof
    fix x
    assume "x \<in> set (concat (map leaves (take i ts))) \<union> set (concat (map leaves (drop (Suc i) ts)))"
    then obtain t where t: "t \<in> set (take i ts) \<union> set (drop (Suc i) ts)" "x \<in> set (leaves t)" by auto
    then show "x \<in> set (frames (PInner w ts)) - set (frames (ts ! i))" using pos [OF t(1)] out by blast
  qed
qed

text \<open>Replacing a subtree by another one with the same root frame and the same bounds.\<close>

definition replaced :: "ptree \<Rightarrow> ptree \<Rightarrow> ptree \<Rightarrow> ptree \<Rightarrow> bool" where
  "replaced t p p' t' \<longleftrightarrow>
     addr t' = addr t \<and> distinct (frames t') \<and> set (frames t') = set (frames t) - set (frames p) \<union> set (frames p') \<and>
     (\<exists>L R. leaves t = L @ leaves p @ R \<and> leaves t' = L @ leaves p' @ R \<and>
        set L \<union> set R \<subseteq> set (frames t) - set (frames p))"

lemma sub_replace:
  assumes "sub st h t lo hi h' p l u" "ok st h t lo hi" "distinct (frames t)"
    and new: "ok st' h' p' l u" "addr p' = addr p" "distinct (frames p')"
    and same: "\<And>w. w \<in> set (frames t) \<Longrightarrow> w \<notin> set (frames p) \<Longrightarrow> st' w = st w"
    and fresh: "set (frames p') \<inter> (set (frames t) - set (frames p)) = {}"
  shows "\<exists>t'. ok st' h t' lo hi \<and> replaced t p p' t' \<and> sub st' h t' lo hi h' p' l u"
  using assms
proof (induction rule: sub.induct)
  case (sub_refl h' p l u)
  have "replaced p p p' p'"
    unfolding replaced_def using sub_refl.prems by (auto intro: exI [where x = "[]"])
  then show ?case using sub_refl.prems(3) sub.sub_refl by blast
next
  case (sub_step i ts h lo w hi h' p l u)
  let ?c = "ts ! i" and ?ks = "keys (st w)"
  note D = distinct_children [OF sub_step.prems(2) sub_step.hyps(1)]
  have pc: "set (frames p) \<subseteq> set (frames ?c)" by (rule sub_frames [OF sub_step.hyps(2)])
  have "\<exists>c'. ok st' h c' (lb lo ?ks i) (ub ?ks hi i) \<and> replaced ?c p p' c' \<and>
      sub st' h c' (lb lo ?ks i) (ub ?ks hi i) h' p' l u"
  proof (rule sub_step.IH)
    show "ok st h ?c (lb lo ?ks i) (ub ?ks hi i)" by (rule ok_child [OF sub_step.prems(1) sub_step.hyps(1)])
    show "st' x = st x" if "x \<in> set (frames ?c)" "x \<notin> set (frames p)" for x
      using that frames_child [OF sub_step.hyps(1), of w] by (intro sub_step.prems) auto
    show "set (frames p') \<inter> (set (frames ?c) - set (frames p)) = {}"
      using sub_step.prems(7) frames_child [OF sub_step.hyps(1), of w] by auto
  qed (use sub_step.prems D in auto)
  then obtain c' where c': "ok st' h c' (lb lo ?ks i) (ub ?ks hi i)" "replaced ?c p p' c'"
      "sub st' h c' (lb lo ?ks i) (ub ?ks hi i) h' p' l u" by blast
  let ?t' = "PInner w (ts[i := c'])"
  have w: "w \<notin> set (frames p)" using D(2) pc by auto
  have stw: "st' w = st w" using w by (intro sub_step.prems) auto
  have ac: "addr c' = addr ?c" using c'(2) by (simp add: replaced_def)
  have ma: "map addr (ts[i := c']) = map addr ts" using ac sub_step.hyps(1) by (simp add: map_update list_update_same_conv)
  have O: "inner_ok (st w) lo hi (map addr ts)" "oks st h ts lo ?ks hi" "h > 0" using sub_step.prems(1) by simp_all
  have "ok st' h (ts[i := c'] ! j) (lb lo ?ks j) (ub ?ks hi j)" if j: "j < length ts" for j
  proof (cases "j = i")
    case False
    have "ok st h (ts ! j) (lb lo ?ks j) (ub ?ks hi j)" using O(2) j by (simp add: oks_nth)
    moreover have "st' x = st x" if "x \<in> set (frames (ts ! j))" for x
      using that D(3) [OF j False] pc frames_child [OF j, of w] by (intro sub_step.prems) auto
    ultimately show ?thesis using False ok_frame [of "ts ! j" st' st] by simp
  qed (use c' sub_step.hyps(1) in simp)
  then have okt: "ok st' (Suc h) ?t' lo hi" using O stw ma by (simp add: oks_nth)
  have fc: "set (frames c') = set (frames ?c) - set (frames p) \<union> set (frames p')" "distinct (frames c')"
    using c'(2) by (simp_all add: replaced_def)
  have cd: "set (frames c') \<inter> (set (concat (map frames ts)) - set (map frames ts ! i)) = {}"
  proof -
    have "set (concat (map frames ts)) \<subseteq> set (frames (PInner w ts))" by auto
    moreover have "set (frames p') \<inter> (set (frames (PInner w ts)) - set (frames p)) = {}" by (rule sub_step.prems(7))
    ultimately show ?thesis using fc(1) pc sub_step.hyps(1) by auto
  qed
  note U = distinct_concat_update [OF _ _ fc(2) cd]
  have fr: "frames ?t' = w # concat ((map frames ts)[i := frames c'])" by (simp add: map_update)
  have dc: "distinct (concat (map frames ts))" "w \<notin> set (concat (map frames ts))" using sub_step.prems(2) by simp_all
  have il: "i < length (map frames ts)" using sub_step.hyps(1) by simp
  note U = U [OF dc(1) il]
  have wp: "w \<notin> set (frames p')" using sub_step.prems(7) w by auto
  have D1: "distinct (frames ?t')" using U dc fr wp fc D(2) by auto
  have D2: "set (frames ?t') = set (frames (PInner w ts)) - set (frames p) \<union> set (frames p')"
  proof -
    have "set (frames ?t') = insert w (set (concat (map frames ts)) - set (frames ?c) \<union> set (frames c'))"
      unfolding fr using U(2) sub_step.hyps(1) by simp
    moreover have "set (frames ?c) \<subseteq> set (concat (map frames ts))" using sub_step.hyps(1) by (auto dest: nth_mem)
    moreover have "set (frames p) \<inter> (set (concat (map frames ts)) - set (frames ?c)) = {}" using pc by auto
    ultimately show ?thesis using fc(1) pc w by auto
  qed
  obtain L R where LR: "leaves ?c = L @ leaves p @ R" "leaves c' = L @ leaves p' @ R"
      "set L \<union> set R \<subseteq> set (frames ?c) - set (frames p)"
    using c'(2) by (auto simp: replaced_def)
  have "leaves (PInner w ts) = (concat (map leaves (take i ts)) @ L) @ leaves p @ (R @ concat (map leaves (drop (Suc i) ts)))"
    "leaves ?t' = (concat (map leaves (take i ts)) @ L) @ leaves p' @ (R @ concat (map leaves (drop (Suc i) ts)))"
    using leaves_split [of i ts] leaves_split [of i "ts[i := c']"] sub_step.hyps(1) LR by simp_all
  moreover have "set (concat (map leaves (take i ts)) @ L) \<union> set (R @ concat (map leaves (drop (Suc i) ts))) \<subseteq>
      set (frames (PInner w ts)) - set (frames p)"
    using LR(3) siblings_outside [OF sub_step.prems(2) sub_step.hyps(1)] pc frames_child [OF sub_step.hyps(1), of w]
    by auto
  ultimately have "\<exists>L R. leaves (PInner w ts) = L @ leaves p @ R \<and> leaves ?t' = L @ leaves p' @ R \<and>
      set L \<union> set R \<subseteq> set (frames (PInner w ts)) - set (frames p)" by blast
  with D1 D2 have "replaced (PInner w ts) p p' ?t'" unfolding replaced_def by simp
  moreover have "sub st' (Suc h) ?t' lo hi h' p' l u"
    by (rule sub.sub_step [of i]) (use c'(3) stw sub_step.hyps(1) in simp_all)
  ultimately show ?case using okt by blast
qed

section \<open>Bounds and contents\<close>

definition rng :: "bytes option \<Rightarrow> bytes option \<Rightarrow> bool" where
  "rng lo hi \<longleftrightarrow> (case (lo, hi) of (Some a, Some b) \<Rightarrow> a < b | _ \<Rightarrow> True)"

lemma rng_None [simp]: "rng None hi" "rng lo None"
  by (simp_all add: rng_def split: option.splits)

lemma rng_Some: "rng lo (Some k) \<longleftrightarrow> above lo k" "rng (Some k) hi \<longleftrightarrow> below hi k"
  by (auto simp: rng_def above_def below_def split: option.splits)

lemma inner_keys:
  assumes "inner_ok n lo hi ws" "i < count n"
  shows "above lo (keys n ! i)" "below hi (keys n ! i)" "upto hi (keys n ! i)" "key_ok (keys n ! i)"
proof -
  have k: "keys n ! i \<in> set (keys n)" using assms(2) by simp
  then show b: "below hi (keys n ! i)" "key_ok (keys n ! i)" using assms(1) by (simp_all add: inner_ok_def)
  have "in_fences n (keys n ! i)" using k assms(1) by (simp add: inner_ok_def wf_node_def)
  then show "above lo (keys n ! i)" "upto hi (keys n ! i)"
    using assms(1) by (simp_all add: inner_ok_def page_fences_def in_fences_def)
qed

lemma inner_sorted: "inner_ok n lo hi ws \<Longrightarrow> i < j \<Longrightarrow> j < count n \<Longrightarrow> keys n ! i < keys n ! j"
  by (auto simp: inner_ok_def wf_node_def sorted_wrt_iff_nth_less)

text \<open>A bound of a child, compared with the bounds of the page.\<close>

lemma rng_child:
  assumes n: "inner_ok n lo hi ws" and r: "rng lo hi" and i: "i \<le> count n"
  shows "rng (lb lo (keys n) i) (ub (keys n) hi i)"
proof (cases i)
  case 0
  then show ?thesis using inner_keys(1) [OF n, of 0] r
      ub_last [of "keys n" hi] by (cases "count n = 0") (simp_all add: ub_less rng_Some)
next
  case (Suc j)
  then have l: "lb lo (keys n) i = Some (keys n ! j)" "j < count n" using i by (simp_all add: lb_Suc)
  show ?thesis
  proof (cases "i = count n")
    case True
    then show ?thesis using l ub_last [of "keys n" hi] inner_keys(2) [OF n l(2)] by (simp add: rng_Some)
  next
    case False
    then show ?thesis using l inner_sorted [OF n, of j i] Suc i by (simp add: rng_def ub_less)
  qed
qed

text \<open>The relation \<open>within l u lo hi\<close>: the interval of a subtree lies in that of the tree.\<close>

definition within :: "bytes option \<Rightarrow> bytes option \<Rightarrow> bytes option \<Rightarrow> bytes option \<Rightarrow> bool" where
  "within l u lo hi \<longleftrightarrow> (\<forall>k. above l k \<longrightarrow> above lo k) \<and> (\<forall>k. upto u k \<longrightarrow> upto hi k) \<and> (u = None \<longrightarrow> hi = None) \<and>
     (\<forall>k. u = Some k \<longrightarrow> rng lo hi \<longrightarrow> above lo k)"

lemma above_trans: "above (Some a) k \<Longrightarrow> above lo a \<Longrightarrow> above lo k"
  by (auto simp: above_def split: option.splits)

lemma upto_trans: "upto (Some a) k \<Longrightarrow> upto hi a \<Longrightarrow> upto hi k"
  by (auto simp: upto_def split: option.splits)

lemma within_child:
  assumes n: "inner_ok n lo hi ws" and i: "i \<le> count n"
  shows "within (lb lo (keys n) i) (ub (keys n) hi i) lo hi"
proof -
  have a: "above lo k" if "above (lb lo (keys n) i) k" for k
  proof (cases i)
    case (Suc j)
    then show ?thesis using that i inner_keys(1) [OF n, of j] above_trans by (simp add: lb_Suc)
  qed (use that in simp)
  show ?thesis
  proof (cases "i = count n")
    case True
    then have "ub (keys n) hi i = hi" using ub_last [of "keys n" hi] by simp
    then show ?thesis using a by (simp add: within_def rng_Some)
  next
    case False
    then have u: "ub (keys n) hi i = Some (keys n ! i)" "i < count n" using i by (simp_all add: ub_less)
    show ?thesis unfolding within_def u(1) using a inner_keys [OF n u(2)] upto_trans by auto
  qed
qed

lemma sub_within:
  "sub st h t lo hi h' p l u \<Longrightarrow> ok st h t lo hi \<Longrightarrow> rng lo hi \<Longrightarrow> within l u lo hi \<and> rng l u"
proof (induction rule: sub.induct)
  case (sub_refl h' p l u)
  then show ?case by (simp add: within_def rng_Some)
next
  case (sub_step i ts h lo w hi h' p l u)
  let ?l = "lb lo (keys (st w)) i" and ?u = "ub (keys (st w)) hi i"
  have n: "inner_ok (st w) lo hi (map addr ts)" using sub_step.prems(1) by simp
  have ic: "i \<le> count (st w)" using n sub_step.hyps(1) by (simp add: inner_ok_def)
  have r: "rng ?l ?u" by (rule rng_child [OF n sub_step.prems(2) ic])
  have c: "ok st h (ts ! i) ?l ?u" by (rule ok_child [OF sub_step.prems(1) sub_step.hyps(1)])
  have 1: "within l u ?l ?u \<and> rng l u" by (rule sub_step.IH [OF c r])
  have 2: "within ?l ?u lo hi" by (rule within_child [OF n ic])
  have "above lo k" if "u = Some k" for k using 1 2 r that by (auto simp: within_def)
  then show ?case using 1 2 by (auto simp: within_def)
qed

text \<open>The child to which a search for a key goes: the one whose interval contains it.\<close>

lemma rank_child:
  assumes n: "inner_ok n lo hi ws" and k: "between lo hi k"
  shows "rank (keys n) k \<le> count n" "between (lb lo (keys n) (rank (keys n) k)) (ub (keys n) hi (rank (keys n) k)) k"
proof -
  have s: "sorted_wrt (<) (keys n)" using n by (simp add: inner_ok_def wf_node_def)
  let ?i = "rank (keys n) k"
  show le: "?i \<le> count n" using rank_le [of "keys n" k] by simp
  have "above (lb lo (keys n) ?i) k"
  proof (cases ?i)
    case 0
    then show ?thesis using k by (simp add: between_def)
  next
    case (Suc j)
    then show ?thesis using rank_nth(1) [OF s, of j k] le by (simp add: lb_Suc above_def)
  qed
  moreover have "upto (ub (keys n) hi ?i) k"
  proof (cases "?i = count n")
    case True
    then show ?thesis using k ub_last [of "keys n" hi] by (simp add: between_def)
  next
    case False
    then show ?thesis using rank_nth(2) [OF s, of k ?i] le by (simp add: ub_less upto_def)
  qed
  ultimately show "between (lb lo (keys n) ?i) (ub (keys n) hi ?i) k" by (simp add: between_def)
qed

text \<open>And only there.\<close>

lemma rank_unique:
  assumes n: "inner_ok n lo hi ws" and k: "between (lb lo (keys n) i) (ub (keys n) hi i) k" and i: "i \<le> count n"
  shows "rank (keys n) k = i"
proof -
  have s: "sorted_wrt (<) (keys n)" using n by (simp add: inner_ok_def wf_node_def)
  show ?thesis
  proof (rule rankI [OF s])
    show "i \<le> length (keys n)" using i by simp
    show "keys n ! j < k" if ji: "j < i" for j
    proof -
      obtain i' where i': "i = Suc i'" using ji by (cases i) auto
      then have "keys n ! i' < k" using k i by (simp add: between_def above_def lb_Suc)
      moreover have "keys n ! j \<le> keys n ! i'"
        using inner_sorted [OF n, of j i'] ji i i' by (cases "j = i'") (auto intro: less_imp_le)
      ultimately show ?thesis by (rule order.strict_trans1 [rotated])
    qed
    show "k \<le> keys n ! j" if "i \<le> j" "j < length (keys n)" for j
    proof -
      have "k \<le> keys n ! i" using k that by (simp add: between_def upto_def ub_less)
      moreover have "keys n ! i \<le> keys n ! j"
        using inner_sorted [OF n, of i j] that by (cases "i = j") (auto intro: less_imp_le)
      ultimately show ?thesis by (rule order.trans)
    qed
  qed
qed

lemma inner_child:
  assumes n: "inner_ok n lo hi ws" and i: "i \<le> count n"
  shows "child_at n (int i) = ws ! i"
proof (cases "i = count n")
  case True
  have "length ws = Suc (count n)" using n by (simp add: inner_ok_def)
  then have "ws ! i = last ws" using True by (metis diff_Suc_1 last_conv_nth length_0_conv nat.distinct(1))
  then show ?thesis using True n by (simp add: child_at_def inner_ok_def)
next
  case False
  then have ic: "i < count n" using i by simp
  have l: "length ws = Suc (count n)" using n by (simp add: inner_ok_def)
  have "map snd (content n) ! i = map swip_bytes (butlast ws) ! i" using n by (simp add: inner_ok_def)
  then have "snd (content n ! i) = swip_bytes (ws ! i)" using ic l by (simp add: nth_butlast)
  then have pl: "getPayload n i = swip_bytes (ws ! i)" using content_nth [OF ic] by simp
  then have "length (getPayload n i) = 8" by (simp add: swip_bytes_def)
  then have "s_payload_len (slot n i) = 8" by (simp add: getPayload_def)
  then have "getChild n i = swip_of_bytes (getPayload n i)" by (simp add: getChild_def getPayload_def)
  then show ?thesis using pl False by (simp add: child_at_def swip_round_trip)
qed

lemma lookupInner_child:
  assumes n: "inner_ok n lo hi ws"
  shows "lookupInner n k = ws ! rank (keys n) k"
proof -
  have "wf_node n" using n by (simp add: inner_ok_def)
  from lowerBound_spec [OF this, of k] have "lookupInner n k = child_at n (int (rank (keys n) k))"
    by (simp add: lookupInner_def child_at_def)
  then show ?thesis using inner_child [OF n, of "rank (keys n) k"] rank_le [of "keys n" k] by simp
qed

definition flat :: "store \<Rightarrow> ptree \<Rightarrow> (bytes \<times> bytes) list" where
  "flat st t = concat (map (\<lambda>w. content (st w)) (leaves t))"

lemma flat_leaf [simp]: "flat st (PLeaf w) = content (st w)"
  by (simp add: flat_def)

lemma flat_inner: "flat st (PInner w ts) = concat (map (flat st) ts)"
  by (induction ts) (simp_all add: flat_def)

lemma flat_between: "ok st h t lo hi \<Longrightarrow> rng lo hi \<Longrightarrow> e \<in> set (flat st t) \<Longrightarrow> between lo hi (fst e)"
proof (induction t arbitrary: h lo hi)
  case (PLeaf w)
  then show ?case using wf_content_in_fences [of "st w" e]
    by (auto simp: leaf_ok_def page_fences_def in_fences_between)
next
  case (PInner w ts)
  have n: "inner_ok (st w) lo hi (map addr ts)" using PInner.prems(1) by simp
  obtain i where i: "i < length ts" "e \<in> set (flat st (ts ! i))"
    using PInner.prems(3) by (auto simp: flat_inner in_set_conv_nth [of _ ts])
  have ic: "i \<le> count (st w)" using n i by (simp add: inner_ok_def)
  obtain h' where h': "h = Suc h'" using PInner.prems(1) by (cases h) auto
  have "ok st h' (ts ! i) (lb lo (keys (st w)) i) (ub (keys (st w)) hi i)"
    using PInner.prems(1) i(1) unfolding h' by (rule ok_child)
  then have "between (lb lo (keys (st w)) i) (ub (keys (st w)) hi i) (fst e)"
    using i rng_child [OF n PInner.prems(2) ic] by (intro PInner.IH) auto
  then show ?case using within_child [OF n ic] by (simp add: between_def within_def)
qed

lemma lb_le_ub:
  assumes n: "inner_ok n lo hi ws" and ij: "i < j" "j \<le> count n"
  shows "upto (ub (keys n) hi i) x \<Longrightarrow> above (lb lo (keys n) j) y \<Longrightarrow> x < y"
proof -
  assume x: "upto (ub (keys n) hi i) x" and y: "above (lb lo (keys n) j) y"
  obtain j' where j': "j = Suc j'" using ij by (cases j) auto
  have "x \<le> keys n ! i" using x ij by (simp add: ub_less upto_def)
  also have "keys n ! i \<le> keys n ! j'"
    using inner_sorted [OF n, of i j'] ij j' by (cases "i = j'") (auto intro: less_imp_le)
  also have "keys n ! j' < y" using y ij j' by (simp add: lb_Suc above_def)
  finally show "x < y" .
qed

lemma sorted_concat:
  assumes "\<And>i. i < length xss \<Longrightarrow> sorted_wrt (<) (xss ! i)"
    and "\<And>i j x y. i < j \<Longrightarrow> j < length xss \<Longrightarrow> x \<in> set (xss ! i) \<Longrightarrow> y \<in> set (xss ! j) \<Longrightarrow> (x :: 'a::linorder) < y"
  shows "sorted_wrt (<) (concat xss)"
  using assms
proof (induction xss)
  case (Cons xs xss)
  have "sorted_wrt (<) (concat xss)"
  proof (rule Cons.IH)
    show "sorted_wrt (<) (xss ! i)" if "i < length xss" for i using Cons.prems(1) [of "Suc i"] that by simp
    show "x < y" if "i < j" "j < length xss" "x \<in> set (xss ! i)" "y \<in> set (xss ! j)" for i j x y
      using Cons.prems(2) [of "Suc i" "Suc j" x y] that by simp
  qed
  moreover have "x < y" if x: "x \<in> set xs" and y: "y \<in> set (concat xss)" for x y
  proof -
    obtain j where "j < length xss" "y \<in> set (xss ! j)" using y by (auto simp: in_set_conv_nth [of _ xss])
    then show ?thesis using Cons.prems(2) [of 0 "Suc j" x y] x by simp
  qed
  ultimately show ?case using Cons.prems(1) [of 0] by (simp add: sorted_wrt_append)
qed simp

lemma flat_sorted: "ok st h t lo hi \<Longrightarrow> rng lo hi \<Longrightarrow> sorted_wrt (<) (map fst (flat st t))"
proof (induction t arbitrary: h lo hi)
  case (PLeaf w)
  then show ?case by (simp add: leaf_ok_def wf_sorted_keys)
next
  case (PInner w ts)
  have n: "inner_ok (st w) lo hi (map addr ts)" using PInner.prems(1) by simp
  have lt: "length ts = Suc (count (st w))" using n by (simp add: inner_ok_def)
  obtain h' where h': "h = Suc h'" using PInner.prems(1) by (cases h) auto
  have c: "ok st h' (ts ! i) (lb lo (keys (st w)) i) (ub (keys (st w)) hi i)"
    "rng (lb lo (keys (st w)) i) (ub (keys (st w)) hi i)" if "i < length ts" for i
    using PInner.prems(1) that h' rng_child [OF n PInner.prems(2), of i] lt ok_child [of st h' w ts lo hi i] by auto
  have "sorted_wrt (<) (concat (map (\<lambda>t. map fst (flat st t)) ts))"
  proof (rule sorted_concat)
    show "sorted_wrt (<) (map (\<lambda>t. map fst (flat st t)) ts ! i)" if "i < length (map (\<lambda>t. map fst (flat st t)) ts)" for i
      using that c [of i] PInner.IH [of "ts ! i"] by simp
    show "x < y" if ij: "i < j" "j < length (map (\<lambda>t. map fst (flat st t)) ts)" and
      x: "x \<in> set (map (\<lambda>t. map fst (flat st t)) ts ! i)" and y: "y \<in> set (map (\<lambda>t. map fst (flat st t)) ts ! j)" for i j x y
    proof -
      have "between (lb lo (keys (st w)) i) (ub (keys (st w)) hi i) x" "between (lb lo (keys (st w)) j) (ub (keys (st w)) hi j) y"
        using x y ij flat_between [OF c(1) c(2), of i] flat_between [OF c(1) c(2), of j] by auto
      then show ?thesis using lb_le_ub [OF n ij(1), of x y] ij lt by (simp add: between_def)
    qed
  qed
  then show ?case by (simp add: flat_inner map_concat comp_def)
qed

text \<open>The entries of a tree around those of a subtree.\<close>

definition upto_lo :: "bytes option \<Rightarrow> bytes \<Rightarrow> bool" where
  "upto_lo l k \<longleftrightarrow> (case l of None \<Rightarrow> False | Some x \<Rightarrow> k \<le> x)"

definition above_hi :: "bytes option \<Rightarrow> bytes \<Rightarrow> bool" where
  "above_hi u k \<longleftrightarrow> (case u of None \<Rightarrow> False | Some x \<Rightarrow> x < k)"

lemma upto_lo_above: "upto_lo l k \<longleftrightarrow> \<not> above l k"
  by (auto simp: upto_lo_def above_def split: option.splits)

lemma above_hi_upto: "above_hi u k \<longleftrightarrow> \<not> upto u k"
  by (auto simp: above_hi_def upto_def split: option.splits)

lemma flat_split: "i < length ts \<Longrightarrow>
  flat st (PInner w ts) = concat (map (flat st) (take i ts)) @ flat st (ts ! i) @ concat (map (flat st) (drop (Suc i) ts))"
  by (metis append_Cons append_Nil append_assoc concat.simps(2) concat_append flat_inner id_take_nth_drop list.simps(9) map_append)

lemma sub_leaves: "sub st h t lo hi h' p l u \<Longrightarrow> \<exists>L R. leaves t = L @ leaves p @ R"
proof (induction rule: sub.induct)
  case (sub_refl h' p l u)
  show ?case by (rule exI [of _ "[]"], rule exI [of _ "[]"]) simp
next
  case (sub_step i ts h lo w hi h' p l u)
  then obtain L R where "leaves (ts ! i) = L @ leaves p @ R" by blast
  then have "leaves (PInner w ts) =
      (concat (map leaves (take i ts)) @ L) @ leaves p @ (R @ concat (map leaves (drop (Suc i) ts)))"
    using leaves_split [OF sub_step.hyps(1)] by simp
  then show ?case by blast
qed

text \<open>No key between the bounds of a subtree occurs outside of it.\<close>

lemma sub_outside:
  "sub st h t lo hi h' p l u \<Longrightarrow> ok st h t lo hi \<Longrightarrow> rng lo hi \<Longrightarrow> e \<in> set (flat st t) \<Longrightarrow> between l u (fst e) \<Longrightarrow>
     e \<in> set (flat st p)"
proof (induction rule: sub.induct)
  case (sub_step i ts h lo w hi h' p l u)
  have n: "inner_ok (st w) lo hi (map addr ts)" using sub_step.prems(1) by simp
  have lt: "length ts = Suc (count (st w))" using n by (simp add: inner_ok_def)
  let ?l = "\<lambda>j. lb lo (keys (st w)) j" and ?u = "\<lambda>j. ub (keys (st w)) hi j"
  have c: "ok st h (ts ! j) (?l j) (?u j)" "rng (?l j) (?u j)" if "j < length ts" for j
    using that ok_child [OF sub_step.prems(1) that] rng_child [OF n sub_step.prems(2), of j] lt by simp_all
  obtain j where j: "j < length ts" "e \<in> set (flat st (ts ! j))"
    using sub_step.prems(3) by (auto simp: flat_inner in_set_conv_nth [of _ ts])
  have bj: "between (?l j) (?u j) (fst e)" by (rule flat_between [OF c(1) c(2) j(2)]) (use j in simp_all)
  have "within l u (?l i) (?u i)"
    using sub_within [OF sub_step.hyps(2) c(1) c(2)] sub_step.hyps(1) by blast
  then have bi: "between (?l i) (?u i) (fst e)" using sub_step.prems(4) by (simp add: between_def within_def)
  have "j = i" using rank_unique [OF n bi] rank_unique [OF n bj] sub_step.hyps(1) j(1) lt by simp
  then show ?case using sub_step.IH c sub_step.hyps(1) j(2) sub_step.prems(4) by blast
qed

end
