(* ===== verification/BTreeFind.thy ===== *)
theory BTreeFind
  imports BTreeInv
begin

text \<open>
  Descending a tree: \<open>findLeafCanJump\<close> reaches the one leaf whose fences enclose the key, and \<open>findParent\<close> reaches the
  parent of a page together with the page's position in it.
\<close>

section \<open>The whole tree\<close>

text \<open>\<open>btree_inv b t\<close>: the frames of \<open>t\<close> hold a search tree below the meta node; no frame is used twice, and none of them is
  the meta node or on the free list.\<close>

definition btree_inv :: "btree \<Rightarrow> ptree \<Rightarrow> bool" where
  "btree_inv b t \<longleftrightarrow>
     ok (bfs b) (height b) t None None \<and> addr t = root_bf b \<and>
     distinct (meta_node_bf b # frames t @ free_list b)"

definition entries :: "btree \<Rightarrow> ptree \<Rightarrow> (bytes \<times> bytes) list" where
  "entries b t = flat (bfs b) t"

lemma btree_invD:
  assumes "btree_inv b t"
  shows "ok (bfs b) (height b) t None None" "addr t = root_bf b" "distinct (frames t)" "distinct (free_list b)"
    "meta_node_bf b \<notin> set (frames t)" "meta_node_bf b \<notin> set (free_list b)"
    "set (frames t) \<inter> set (free_list b) = {}"
  using assms by (auto simp: btree_inv_def)

section \<open>Finding a leaf\<close>

lemma between_None [simp]: "between None None k"
  by (simp add: between_def above_def upto_def)

lemma findLeaf_loop_ok:
  "ok (bfs b) h t lo hi \<Longrightarrow> between lo hi k \<Longrightarrow>
     \<exists>w l u. findLeaf_loop b k (addr t) = Some w \<and> sub (bfs b) h t lo hi 1 (PLeaf w) l u \<and> between l u k"
proof (induction t arbitrary: h lo hi)
  case (PLeaf w)
  have "findLeaf_loop b k w = Some w"
    by (subst findLeaf_loop.simps) (use PLeaf in \<open>simp add: leaf_ok_def\<close>)
  moreover have "h = 1" using PLeaf by simp
  ultimately show ?case using PLeaf.prems sub_refl by fastforce
next
  case (PInner w ts)
  let ?n = "bfs b w"
  have n: "inner_ok ?n lo hi (map addr ts)" using PInner.prems(1) by simp
  obtain h' where h': "h = Suc h'" using PInner.prems(1) by (cases h) auto
  define i where "i = rank (keys ?n) k"
  note R = rank_child [OF n PInner.prems(2), folded i_def]
  have i: "i < length ts" using R(1) n by (simp add: inner_ok_def)
  have c: "ok (bfs b) h' (ts ! i) (lb lo (keys ?n) i) (ub (keys ?n) hi i)"
    using PInner.prems(1) i unfolding h' by (rule ok_child)
  obtain x l u where x: "findLeaf_loop b k (addr (ts ! i)) = Some x"
    "sub (bfs b) h' (ts ! i) (lb lo (keys ?n) i) (ub (keys ?n) hi i) 1 (PLeaf x) l u" "between l u k"
    using PInner.IH [OF nth_mem [OF i] c R(2)] by blast
  have "lookupInner ?n k = addr (ts ! i)" using lookupInner_child [OF n, of k] i by (simp add: i_def)
  then have "findLeaf_loop b k w = Some x"
    by (subst findLeaf_loop.simps) (use n x(1) in \<open>simp add: inner_ok_def\<close>)
  moreover have "sub (bfs b) h (PInner w ts) lo hi 1 (PLeaf x) l u" unfolding h' by (rule sub_step [OF i x(2)])
  ultimately show ?case using x(3) by auto
qed

text \<open>A leaf of the tree that is responsible for a key.\<close>

definition leaf_for :: "btree \<Rightarrow> ptree \<Rightarrow> bytes \<Rightarrow> u64 \<Rightarrow> bytes option \<Rightarrow> bytes option \<Rightarrow> bool" where
  "leaf_for b t k w l u \<longleftrightarrow> sub (bfs b) (height b) t None None 1 (PLeaf w) l u \<and> between l u k"

lemma findLeaf_ok:
  assumes "btree_inv b t"
  shows "\<exists>w l u. findLeafCanJump b k = Some w \<and> leaf_for b t k w l u"
  using findLeaf_loop_ok [OF btree_invD(1) [OF assms] between_None, of k] btree_invD(2) [OF assms]
  by (simp add: findLeafCanJump_def leaf_for_def)

lemma leaf_for_facts:
  assumes inv: "btree_inv b t" and l: "leaf_for b t k w l u"
  shows "leaf_ok (bfs b w) l u" "w \<in> set (frames t)" "between l u k" "rng l u"
    "in_fences (bfs b w) x = between l u x"
    "e \<in> set (entries b t) \<Longrightarrow> between l u (fst e) \<Longrightarrow> e \<in> set (content (bfs b w))"
    "set (content (bfs b w)) \<subseteq> set (entries b t)"
proof -
  have s: "sub (bfs b) (height b) t None None 1 (PLeaf w) l u" using l by (simp add: leaf_for_def)
  show lo: "leaf_ok (bfs b w) l u" using sub_ok [OF s btree_invD(1) [OF inv]] by simp
  show "w \<in> set (frames t)" using sub_frames [OF s] by simp
  show "between l u k" using l by (simp add: leaf_for_def)
  show "rng l u" using sub_within [OF s btree_invD(1) [OF inv]] by simp
  show "in_fences (bfs b w) x = between l u x" using lo by (simp add: leaf_ok_def page_fences_def in_fences_between)
  show "e \<in> set (entries b t) \<Longrightarrow> between l u (fst e) \<Longrightarrow> e \<in> set (content (bfs b w))"
    using sub_outside [OF s btree_invD(1) [OF inv]] by (simp add: entries_def)
  show "set (content (bfs b w)) \<subseteq> set (entries b t)"
    using sub_leaves [OF s] by (auto simp: entries_def flat_def)
qed

lemma entries_sorted: "btree_inv b t \<Longrightarrow> sorted_wrt (<) (map fst (entries b t))"
  using flat_sorted [OF btree_invD(1), of b t] by (simp add: entries_def)

lemma entries_distinct: "btree_inv b t \<Longrightarrow> distinct (map fst (entries b t))"
  by (rule sorted_wrt_less_distinct [OF entries_sorted])

text \<open>A lookup in the leaf answers for the tree.\<close>

lemma leaf_map_of:
  assumes inv: "btree_inv b t" and l: "leaf_for b t k w l u"
  shows "map_of (entries b t) k = map_of (content (bfs b w)) k"
proof -
  note F = leaf_for_facts [OF inv l]
  have d: "distinct (map fst (content (bfs b w)))"
    using F(1) by (simp add: leaf_ok_def wf_sorted_keys sorted_wrt_less_distinct)
  show ?thesis
  proof (cases "map_of (content (bfs b w)) k")
    case None
    have "k \<notin> fst ` set (entries b t)"
    proof
      assume "k \<in> fst ` set (entries b t)"
      then obtain e where e: "e \<in> set (entries b t)" "fst e = k" by auto
      then have "e \<in> set (content (bfs b w))" using F(3,6) by simp
      then show False using None e(2) by (metis imageI map_of_eq_None_iff)
    qed
    then show ?thesis using None by (metis map_of_eq_None_iff)
  next
    case (Some v)
    then have "(k, v) \<in> set (entries b t)" using F(7) map_of_SomeD by fastforce
    then show ?thesis using Some entries_distinct [OF inv] by simp
  qed
qed

section \<open>Finding the parent\<close>

lemma sub_addr_in: "sub st h t lo hi h' p l u \<Longrightarrow> addr p \<in> set (frames t)"
  using sub_frames addr_in_frames by blast

lemma parent_pos_child:
  assumes n: "inner_ok n lo hi ws" and j: "j \<le> count n" and r: "rng lo hi"
  shows "parent_pos n (ub (keys n) hi j) = int j"
proof -
  have wf: "wf_node n" using n by (simp add: inner_ok_def)
  show ?thesis
  proof (cases "ub (keys n) hi j")
    case None
    then have "j = count n" using j ub_less [of j "keys n" hi] by (cases "j < count n") auto
    then show ?thesis using None by (simp add: parent_pos_def)
  next
    case (Some k)
    have "between (lb lo (keys n) j) (ub (keys n) hi j) k"
      using rng_child [OF n r j] by (simp add: Some rng_Some between_def upto_def)
    from rank_unique [OF n this j] show ?thesis using Some lowerBound_spec [OF wf, of k] by (simp add: parent_pos_def)
  qed
qed

lemma parent_pos_within:
  assumes n: "inner_ok n lo hi ws" and i: "i \<le> count n" and r: "rng lo hi"
    and w: "within l u (lb lo (keys n) i) (ub (keys n) hi i)"
  shows "parent_pos n u = int i"
proof (cases u)
  case None
  then have "ub (keys n) hi i = None" using w by (simp add: within_def)
  then show ?thesis using parent_pos_child [OF n i r] None by simp
next
  case (Some k)
  have wf: "wf_node n" using n by (simp add: inner_ok_def)
  have "between (lb lo (keys n) i) (ub (keys n) hi i) k"
    using w rng_child [OF n r i] by (auto simp: within_def Some between_def upto_def)
  from rank_unique [OF n this i] show ?thesis using Some lowerBound_spec [OF wf, of k] by (simp add: parent_pos_def)
qed

lemma findParent_loop_ok:
  assumes "sub (bfs b) h t lo hi (Suc h') (PInner wp ts) l u" "ok (bfs b) h t lo hi" "distinct (frames t)" "rng lo hi"
    and j: "j < length ts" and key: "key = ub (keys (bfs b wp)) u j"
  shows "findParent_loop b (addr (ts ! j)) key (addr t) = Some (Ret (wp, int j))"
  using assms
proof (induction h t lo hi "Suc h'" "PInner wp ts" l u rule: sub.induct)
  case (sub_refl l u)
  have n: "inner_ok (bfs b wp) l u (map addr ts)" using sub_refl.prems(1) by simp
  have jc: "j \<le> count (bfs b wp)" using j n by (simp add: inner_ok_def)
  have "parent_pos (bfs b wp) key = int j" using parent_pos_child [OF n jc] sub_refl.prems by simp
  moreover have "child_at (bfs b wp) (int j) = addr (ts ! j)" using inner_child [OF n jc] j by simp
  ultimately show ?case
    by (subst findParent_loop.simps) (use n in \<open>simp add: inner_ok_def\<close>)
next
  case (sub_step i ts' h lo w hi l u)
  let ?n = "bfs b w" and ?c = "ts' ! i"
  have n: "inner_ok ?n lo hi (map addr ts')" using sub_step.prems(1) by simp
  have ic: "i \<le> count ?n" using sub_step.hyps(1) n by (simp add: inner_ok_def)
  have c: "ok (bfs b) h ?c (lb lo (keys ?n) i) (ub (keys ?n) hi i)"
    by (rule ok_child [OF sub_step.prems(1) sub_step.hyps(1)])
  have r: "rng (lb lo (keys ?n) i) (ub (keys ?n) hi i)" by (rule rng_child [OF n sub_step.prems(3) ic])
  have d: "distinct (frames ?c)" by (rule distinct_children(1) [OF sub_step.prems(2) sub_step.hyps(1)])
  have sj: "sub (bfs b) h ?c (lb lo (keys ?n) i) (ub (keys ?n) hi i) h' (ts ! j) (lb l (keys (bfs b wp)) j)
      (ub (keys (bfs b wp)) u j)"
    by (rule sub_child [OF sub_step.hyps(2) sub_step.prems(4)])
  have "parent_pos ?n key = int i"
    using parent_pos_within [OF n ic sub_step.prems(3)] sub_within [OF sj c r] sub_step.prems(5) by metis
  moreover have ch: "child_at ?n (int i) = addr ?c" using inner_child [OF n ic] sub_step.hyps(1) by simp
  moreover have "addr ?c \<noteq> addr (ts ! j)"
  proof -
    have "addr ?c \<notin> set (frames (ts ! j))"
    proof (cases ?c)
      case (PLeaf x)
      then have "PInner wp ts = PLeaf x" using sub_step.hyps(2) by (auto elim: sub.cases)
      then show ?thesis by simp
    next
      case (PInner x xs)
      have "set (frames (ts ! j)) \<subseteq> set (concat (map frames xs))"
      proof -
        have "sub (bfs b) h (PInner x xs) (lb lo (keys ?n) i) (ub (keys ?n) hi i) (Suc h') (PInner wp ts) l u"
          using sub_step.hyps(2) PInner by simp
        then show ?thesis
        proof cases
          case sub_refl
          then show ?thesis using sub_step.prems(4) by (auto dest: nth_mem)
        next
          case (sub_step k h2)
          then have "set (frames (PInner wp ts)) \<subseteq> set (frames (xs ! k))" by (blast dest: sub_frames)
          moreover have "set (frames (xs ! k)) \<subseteq> set (concat (map frames xs))" using sub_step by (auto dest: nth_mem)
          ultimately show ?thesis using frames_child [OF j, of wp] by blast
        qed
      qed
      moreover have "x \<notin> set (concat (map frames xs))" using d PInner by simp
      ultimately show ?thesis using PInner by auto
    qed
    then show ?thesis using addr_in_frames by metis
  qed
  moreover have "findParent_loop b (addr (ts ! j)) key (addr ?c) = Some (Ret (wp, int j))"
    by (rule sub_step.hyps(3)) (use c d r sub_step.prems in auto)
  ultimately show ?case
    by (subst findParent_loop.simps) (use n in \<open>simp add: inner_ok_def\<close>)
qed

lemma ok_fences: "ok st h t lo hi \<Longrightarrow> getLowerFenceKey (st (addr t)) = lo \<and> getUpperFenceKey (st (addr t)) = hi"
  by (cases t) (simp_all add: leaf_ok_def inner_ok_def page_fences_def)

lemma findParent_ok:
  assumes inv: "btree_inv b t" and p: "sub (bfs b) (height b) t None None (Suc h') (PInner wp ts) l u" and j: "j < length ts"
  shows "findParent b (addr (ts ! j)) = Some (Ret (wp, int j))"
proof -
  note I = btree_invD [OF inv]
  have c: "sub (bfs b) (height b) t None None h' (ts ! j) (lb l (keys (bfs b wp)) j) (ub (keys (bfs b wp)) u j)"
    by (rule sub_child [OF p j])
  have f: "getUpperFenceKey (bfs b (addr (ts ! j))) = ub (keys (bfs b wp)) u j"
    using ok_fences [OF sub_ok [OF c I(1)]] by simp
  have "addr t \<noteq> addr (ts ! j)"
  proof (cases t)
    case (PLeaf x)
    then show ?thesis using p by (auto elim: sub.cases)
  next
    case (PInner x xs)
    have "set (frames (ts ! j)) \<subseteq> set (concat (map frames xs))"
      using p unfolding PInner
    proof cases
      case sub_refl
      then show ?thesis using j by (auto dest: nth_mem)
    next
      case (sub_step k h2)
      then have "set (frames (PInner wp ts)) \<subseteq> set (frames (xs ! k))" by (blast dest: sub_frames)
      moreover have "set (frames (xs ! k)) \<subseteq> set (concat (map frames xs))" using sub_step by (auto dest: nth_mem)
      ultimately show ?thesis using frames_child [OF j, of wp] by blast
    qed
    moreover have "x \<notin> set (concat (map frames xs))" using I(3) PInner by simp
    ultimately show ?thesis using PInner addr_in_frames by (metis addr.simps(2) subsetD)
  qed
  then show ?thesis
    using findParent_loop_ok [OF p I(1) I(3) _ j refl] I(2) f by (simp add: findParent_def)
qed

end
