(* ===== verification/BTreeSplit.thy ===== *)
theory BTreeSplit
  imports BTreeFind
begin

text \<open>
  Splitting pages of the tree (\<open>BTreeGeneric::trySplit\<close>): whatever page it ends up splitting, and also when the buffer
  manager has no free frame and the call jumps, the tree keeps its invariant and its entries.
\<close>

section \<open>Replacing a subtree\<close>

lemma flat_cong: "(\<And>w. w \<in> set (frames t) \<Longrightarrow> st' w = st w) \<Longrightarrow> flat st' t = flat st t"
  using leaves_subset_frames [of t] unfolding flat_def by (intro arg_cong [of _ _ concat] map_cong) auto

lemma replaced_flat:
  assumes r: "replaced t p p' t'" and same: "\<And>w. w \<in> set (frames t) \<Longrightarrow> w \<notin> set (frames p) \<Longrightarrow> st' w = st w"
  shows "\<exists>A B. flat st t = A @ flat st p @ B \<and> flat st' t' = A @ flat st' p' @ B"
proof -
  obtain L R where LR: "leaves t = L @ leaves p @ R" "leaves t' = L @ leaves p' @ R"
      "set L \<union> set R \<subseteq> set (frames t) - set (frames p)"
    using r by (auto simp: replaced_def)
  let ?c = "\<lambda>st xs. concat (map (\<lambda>w. content (st w)) xs)"
  have "st' w = st w" if "w \<in> set L \<union> set R" for w using that LR(3) same by blast
  then have "?c st' L = ?c st L" "?c st' R = ?c st R" by (auto intro!: arg_cong [of _ _ concat])
  then have "flat st t = ?c st L @ flat st p @ ?c st R \<and> flat st' t' = ?c st L @ flat st' p' @ ?c st R"
    by (simp add: flat_def LR)
  then show ?thesis by blast
qed

definition tree_step :: "btree \<Rightarrow> ptree \<Rightarrow> btree \<Rightarrow> bool" where
  "tree_step b p b' \<longleftrightarrow>
     meta_node_bf b' = meta_node_bf b \<and> height b' = height b \<and> root_bf b' = root_bf b \<and>
     (\<forall>w. w \<notin> set (frames p) \<longrightarrow> w \<notin> set (free_list b) \<longrightarrow> bfs b' w = bfs b w)"

text \<open>A change that stays inside a subtree and the free list.\<close>

lemma btree_replace:
  assumes inv: "btree_inv b t" and s: "sub (bfs b) (height b) t None None h' p l u" and st: "tree_step b p b'"
    and p': "ok (bfs b') h' p' l u" "addr p' = addr p"
    and d: "distinct (frames p' @ free_list b')"
    and fr: "set (frames p') \<union> set (free_list b') \<subseteq> set (frames p) \<union> set (free_list b)"
  shows "\<exists>t' A B. btree_inv b' t' \<and> entries b t = A @ flat (bfs b) p @ B \<and> entries b' t' = A @ flat (bfs b') p' @ B \<and>
    sub (bfs b') (height b') t' None None h' p' l u"
proof -
  note I = btree_invD [OF inv]
  note S = st [unfolded tree_step_def]
  have pt: "set (frames p) \<subseteq> set (frames t)" by (rule sub_frames [OF s])
  have same: "bfs b' w = bfs b w" if "w \<in> set (frames t)" "w \<notin> set (frames p)" for w
    using S that I(7) by auto
  have dis: "set (frames p') \<inter> (set (frames t) - set (frames p)) = {}" using fr I(7) by auto
  obtain t' where t': "ok (bfs b') (height b) t' None None" "replaced t p p' t'"
      "sub (bfs b') (height b) t' None None h' p' l u"
    using sub_replace [OF s I(1,3) p' _ same dis] d by auto
  obtain A B where AB: "flat (bfs b) t = A @ flat (bfs b) p @ B" "flat (bfs b') t' = A @ flat (bfs b') p' @ B"
    using replaced_flat [OF t'(2), of "bfs b'" "bfs b"] same by blast
  have f: "set (frames t') = set (frames t) - set (frames p) \<union> set (frames p')" "distinct (frames t')" "addr t' = addr t"
    using t'(2) by (simp_all add: replaced_def)
  have "distinct (meta_node_bf b' # frames t' @ free_list b')"
    using f I fr pt d S by (auto 4 3)
  then have "btree_inv b' t'" using t'(1) f(3) S I(2) by (simp add: btree_inv_def)
  then show ?thesis using AB t'(3) S unfolding entries_def by metis
qed

text \<open>In particular a change of one leaf.\<close>

lemma btree_leaf_update:
  assumes inv: "btree_inv b t" and s: "sub (bfs b) (height b) t None None 1 (PLeaf w) l u" and n: "leaf_ok n l u"
  shows "\<exists>t' A B. btree_inv (set_page b w n) t' \<and> entries b t = A @ content (bfs b w) @ B \<and>
    entries (set_page b w n) t' = A @ content n @ B \<and>
    sub (bfs (set_page b w n)) (height b) t' None None 1 (PLeaf w) l u"
proof -
  note I = btree_invD [OF inv]
  have w: "w \<in> set (frames t)" using sub_frames [OF s] by simp
  have "meta_node_bf b \<noteq> w" using I(5) w by auto
  then have st: "tree_step b (PLeaf w) (set_page b w n)" by (simp add: tree_step_def set_page_def root_bf_def)
  have "w \<notin> set (free_list b)" using w I(7) by auto
  then show ?thesis
    using btree_replace [OF inv s st, of "PLeaf w"] n I(4) by (simp add: set_page_def)
qed

section \<open>The two halves of a page\<close>

lemma oks_append:
  assumes "length xs = Suc (length ks1)"
  shows "oks st h (xs @ ys) lo (ks1 @ k # ks2) hi \<longleftrightarrow> oks st h xs lo ks1 (Some k) \<and> oks st h ys (Some k) ks2 hi"
  using assms
proof (induction ks1 arbitrary: xs lo)
  case Nil
  then show ?case by (cases xs) auto
next
  case (Cons a ks1)
  then show ?case by (cases xs) auto
qed

lemma oks_insert:
  assumes "oks st h (xs @ c # ys) lo ks hi" "j = length xs"
    and "ok st' h cl (lb lo ks j) (Some sep)" "ok st' h cr (Some sep) (ub ks hi j)"
    and same: "\<And>t w. t \<in> set xs \<union> set ys \<Longrightarrow> w \<in> set (frames t) \<Longrightarrow> st' w = st w"
  shows "oks st' h (xs @ cl # cr # ys) lo (insert_at j sep ks) hi"
  using assms
proof (induction xs arbitrary: lo ks j)
  case Nil
  have "oks st' h ys lo ks hi = oks st h ys lo ks hi" for lo ks hi using Nil.prems(5) by (intro oks_frame) auto
  then show ?case using Nil.prems by (cases ks) (auto simp: insert_at_def)
next
  case (Cons x xs)
  obtain k ks' where ks: "ks = k # ks'" using Cons.prems(1) by (cases ks) auto
  have "ok st' h x lo (Some k) = ok st h x lo (Some k)" using Cons.prems(5) by (intro ok_frame) auto
  moreover have "oks st' h (xs @ cl # cr # ys) (Some k) (insert_at (length xs) sep ks') hi"
    by (rule Cons.IH) (use Cons.prems ks in auto)
  ultimately show ?case using Cons.prems(1,2) ks by (simp add: insert_at_def)
qed

lemma separates_key_ok:
  assumes "separates n s sep" "key_ok (keys n ! s)"
  shows "key_ok sep"
proof -
  have "sep \<noteq> []" using assms by (auto simp: separates_def key_ok_def)
  then show ?thesis using assms by (auto simp: separates_def key_ok_def)
qed

text \<open>The trees of the two halves; the left one gets the new frame \<open>wl\<close>.\<close>

fun left_half :: "u64 \<Rightarrow> nat \<Rightarrow> ptree \<Rightarrow> ptree" where
  "left_half wl s (PLeaf w) = PLeaf wl"
| "left_half wl s (PInner w ts) = PInner wl (take (s + 1) ts)"

fun right_half :: "nat \<Rightarrow> ptree \<Rightarrow> ptree" where
  "right_half s (PLeaf w) = PLeaf w"
| "right_half s (PInner w ts) = PInner w (drop (s + 1) ts)"

lemma half_frames:
  "addr (left_half wl s c) = wl" "addr (right_half s c) = addr c"
  "set (frames (left_half wl s c)) \<union> set (frames (right_half s c)) = insert wl (set (frames c))"
  "distinct (frames c) \<Longrightarrow> wl \<notin> set (frames c) \<Longrightarrow> distinct (frames (left_half wl s c) @ frames (right_half s c))"
proof -
  have "concat (map frames ts) = concat (map frames (take (s + 1) ts)) @ concat (map frames (drop (s + 1) ts))" for ts
    by (metis append_take_drop_id concat_append map_append)
  then have x: "set (concat (map frames ts)) = set (concat (map frames (take (s + 1) ts))) \<union> set (concat (map frames (drop (s + 1) ts)))"
    "distinct (concat (map frames ts)) = distinct (concat (map frames (take (s + 1) ts)) @ concat (map frames (drop (s + 1) ts)))" for ts
    by (metis set_append, metis)
  show "addr (left_half wl s c) = wl" "addr (right_half s c) = addr c" by (cases c; simp)+
  show "set (frames (left_half wl s c)) \<union> set (frames (right_half s c)) = insert wl (set (frames c))"
  proof (cases c)
    case (PInner w ts)
    show ?thesis using x(1) [of ts] by (simp only: PInner left_half.simps right_half.simps frames.simps list.set) blast
  qed auto
  show "distinct (frames (left_half wl s c) @ frames (right_half s c))" if "distinct (frames c)" "wl \<notin> set (frames c)"
  proof (cases c)
    case (PInner w ts)
    show ?thesis using x [of ts] that
      by (simp only: PInner left_half.simps right_half.simps frames.simps list.set distinct.simps distinct_append) blast
  qed (use that in simp)
qed

lemma leaf_halves:
  assumes c: "leaf_ok n l u" and s: "separates n s sep" and so: "split_ok n s sep left right"
  shows "leaf_ok left l (Some sep)" "leaf_ok right (Some sep) u" "content left @ content right = content n"
  using assms set_take_subset [of "s + 1" "content n"] set_drop_subset [of "s + 1" "content n"]
  by (auto simp: leaf_ok_def split_ok_def page_fences_def)

lemma inner_halves:
  assumes n: "inner_ok n l u ws" and s: "separates n s (keys n ! s)" and so: "split_ok n s (keys n ! s) left right"
  shows "inner_ok left l (Some (keys n ! s)) (take (s + 1) ws)" "inner_ok right (Some (keys n ! s)) u (drop (s + 1) ws)"
    "keys left = take s (keys n)" "keys right = drop (s + 1) (keys n)"
proof -
  have sc: "s + 1 < count n" using s by (simp add: separates_def)
  have nl: "\<not> is_leaf n" "length ws = Suc (count n)" using n by (simp_all add: inner_ok_def)
  have cs: "content left = take s (content n)" "content right = drop (s + 1) (content n)" using so nl by (simp_all add: split_ok_def)
  then show k: "keys left = take s (keys n)" "keys right = drop (s + 1) (keys n)"
    by (simp_all add: keys_def take_map drop_map)
  have cnt: "count left = s" "count right = count n - (s + 1)"
    using cs length_content [of left] length_content [of right] sc by simp_all
  have up: "upper left = ws ! s" "upper right = last ws"
    using so nl n inner_child [OF n, of s] sc by (simp_all add: split_ok_def inner_ok_def child_at_def)
  have sn: "map snd (content n) = map swip_bytes (butlast ws)" using n by (simp add: inner_ok_def)
  have "map snd (content left) = map swip_bytes (butlast (take (s + 1) ws))"
  proof -
    have "map snd (take s (content n)) = map swip_bytes (take s (butlast ws))" using sn by (metis take_map)
    then show ?thesis using nl sc unfolding cs by (simp add: butlast_take take_butlast)
  qed
  moreover have "map snd (content right) = map swip_bytes (butlast (drop (s + 1) ws))"
  proof -
    have "map snd (drop (s + 1) (content n)) = map swip_bytes (drop (s + 1) (butlast ws))" using sn by (metis drop_map)
    then show ?thesis unfolding cs by (simp add: drop_butlast)
  qed
  moreover have "k < keys n ! s" if "k \<in> set (take s (keys n))" for k
    using that inner_sorted [OF n] sc by (auto simp: in_set_conv_nth)
  moreover have "last (take (s + 1) ws) = ws ! s" using nl sc by (simp add: take_Suc_conv_app_nth)
  moreover have "last (drop (s + 1) ws) = last ws" using nl sc by simp
  ultimately show "inner_ok left l (Some (keys n ! s)) (take (s + 1) ws)" "inner_ok right (Some (keys n ! s)) u (drop (s + 1) ws)"
    using n so k cnt up nl sc set_take_subset [of s "keys n"] set_drop_subset [of "s + 1" "keys n"]
    by (auto simp: inner_ok_def split_ok_def page_fences_def below_def)
qed

lemma page_halves:
  assumes c: "ok st h c l u" and d: "distinct (frames c)" "wl \<notin> set (frames c)"
    and s: "separates (st (addr c)) s sep" and full: "\<not> is_leaf (st (addr c)) \<Longrightarrow> sep = keys (st (addr c)) ! s"
    and so: "split_ok (st (addr c)) s sep (st' wl) (st' (addr c))"
    and same: "\<And>w. w \<in> set (frames c) \<Longrightarrow> w \<noteq> addr c \<Longrightarrow> st' w = st w"
  shows "ok st' h (left_half wl s c) l (Some sep)" "ok st' h (right_half s c) (Some sep) u"
    "flat st' (left_half wl s c) @ flat st' (right_half s c) = flat st c"
proof -
  have "ok st' h (left_half wl s c) l (Some sep) \<and> ok st' h (right_half s c) (Some sep) u \<and>
    flat st' (left_half wl s c) @ flat st' (right_half s c) = flat st c"
  proof (cases c)
    case (PLeaf w)
    then show ?thesis using leaf_halves [of "st w" l u s sep "st' wl" "st' w"] c s so by simp
  next
    case (PInner w ts)
    let ?n = "st w"
    have n: "inner_ok ?n l u (map addr ts)" "h > 1" "oks st (h - 1) ts l (keys ?n) u" using c PInner by simp_all
    have sep: "sep = keys ?n ! s" using full n PInner by (simp add: inner_ok_def)
    have sc: "s < count ?n" using s PInner by (simp add: separates_def)
    have lt: "length ts = Suc (count ?n)" using n by (simp add: inner_ok_def)
    note H = inner_halves [OF n(1), of s "st' wl" "st' w"]
    note H = H [OF s [unfolded sep PInner addr.simps] so [unfolded sep PInner addr.simps]]
    have dts: "w \<notin> set (concat (map frames ts))" using d PInner by simp
    have in_ts: "st' x = st x" if "t \<in> set ts" "x \<in> set (frames t)" for t x
    proof (rule same)
      show "x \<in> set (frames c)" "x \<noteq> addr c" using that dts PInner by auto
    qed
    have fr: "oks st' h' ts' lo ks hi = oks st h' ts' lo ks hi" if "set ts' \<subseteq> set ts" for h' ts' lo ks hi
      using that in_ts by (intro oks_frame) blast
    have "map (flat st') ts = map (flat st) ts" using in_ts by (auto intro: flat_cong)
    then have fl: "concat (map (flat st') (take (s + 1) ts)) @ concat (map (flat st') (drop (s + 1) ts)) =
        concat (map (flat st) ts)"
      by (metis append_take_drop_id concat_append map_append)
    have "oks st (h - 1) (take (s + 1) ts @ drop (s + 1) ts) l (take s (keys ?n) @ keys ?n ! s # drop (s + 1) (keys ?n)) u"
      using n(3) sc id_take_nth_drop [of s "keys ?n"] by simp
    moreover have la: "length (take (s + 1) ts) = Suc (length (take s (keys ?n)))" using sc lt by simp
    ultimately have "oks st (h - 1) (take (s + 1) ts) l (take s (keys ?n)) (Some (keys ?n ! s))"
      "oks st (h - 1) (drop (s + 1) ts) (Some (keys ?n ! s)) (drop (s + 1) (keys ?n)) u"
      unfolding oks_append [OF la] by simp_all
    then show ?thesis
      using H n fr [OF set_take_subset [of "s + 1" ts]] fr [OF set_drop_subset [of "s + 1" ts]] sep PInner fl
      by (simp add: flat_inner take_map drop_map)
  qed
  then show "ok st' h (left_half wl s c) l (Some sep)" "ok st' h (right_half s c) (Some sep) u"
    "flat st' (left_half wl s c) @ flat st' (right_half s c) = flat st c" by simp_all
qed

section \<open>The parent's new entry\<close>

lemma butlast_insert_at: "j < length ws \<Longrightarrow> butlast (insert_at j w ws) = insert_at j w (butlast ws)"
  by (simp add: insert_at_def butlast_append take_butlast drop_butlast)

lemma last_insert_at: "j < length ws \<Longrightarrow> last (insert_at j w ws) = last ws"
  by (simp add: insert_at_def)

lemma length_swip_bytes [simp]: "length (swip_bytes w) = 8"
  by (simp add: swip_bytes_def be_bytes_def)

lemma inner_insert:
  fixes w :: u64
  assumes P: "inner_ok P l u ws" and j: "j \<le> count P"
    and sep: "between (lb l (keys P) j) (ub (keys P) u j) sep" "below (ub (keys P) u j) sep" "key_ok sep"
    and ci: "canInsert P (length sep) 8"
  defines "P' \<equiv> snd (node_insert P sep (swip_bytes w))"
  shows "inner_ok P' l u (insert_at j w ws)" "keys P' = insert_at j sep (keys P)"
proof -
  have wf: "wf_node P" and nl: "\<not> is_leaf P" and lw: "length ws = Suc (count P)" using P by (simp_all add: inner_ok_def)
  have r: "rank (keys P) sep = j" by (rule rank_unique [OF P sep(1) j])
  have w: "within (lb l (keys P) j) (ub (keys P) u j) l u" by (rule within_child [OF P j])
  have bt: "between l u sep" using w sep(1) by (auto simp: within_def between_def)
  have bl: "below u sep"
  proof (cases "j < count P")
    case True
    then have "sep < keys P ! j" using sep(2) by (simp add: ub_less below_def)
    then show ?thesis using inner_keys(2) [OF P True] by (auto simp: below_def split: option.splits)
  next
    case False
    then show ?thesis using sep(2) j ub_last [of "keys P" u] by simp
  qed
  have new: "sep \<notin> set (keys P)"
  proof
    assume m: "sep \<in> set (keys P)"
    have "sorted_wrt (<) (keys P)" using wf by (simp add: wf_node_def)
    then have "keys P ! j = sep" "j < count P" using m rank_mem [of "keys P" sep] r by simp_all
    then show False using sep(2) by (simp add: ub_less below_def)
  qed
  have f: "in_fences P sep" using P bt by (simp add: inner_ok_def page_fences_def in_fences_between)
  have sm: "small (length sep) (length (swip_bytes w))" using sep(3) by (auto simp: small_def key_ok_def)
  have ci': "canInsert P (length sep) (length (swip_bytes w))" using ci by simp
  note S = node_insert_spec [OF wf f new ci' sm, unfolded r, folded P'_def]
  show k: "keys P' = insert_at j sep (keys P)" by (simp add: keys_def S map_insert_at)
  have c: "count P' = Suc (count P)" using S(3) length_content [of P'] j by (simp add: insert_at_def)
  have "set (keys P') = insert sep (set (keys P))" using set_insert_at [of j sep "keys P"] k by simp
  moreover have "map snd (content P') = map swip_bytes (butlast (insert_at j w ws))"
    using P j lw by (simp add: S(3) map_insert_at inner_ok_def butlast_insert_at)
  moreover have "length (insert_at j w ws) = Suc (count P')" using lw c j by (simp add: insert_at_def)
  ultimately show "inner_ok P' l u (insert_at j w ws)"
    using P S nl lw j bl sep(3) by (auto simp: inner_ok_def page_fences_def last_insert_at)
qed

lemma separator_bounds:
  assumes c: "ok st h c l u" and s: "separates (st (addr c)) s sep"
  shows "between l u sep" "below u sep" "key_ok sep" "wf_node (st (addr c))"
proof -
  let ?n = "st (addr c)"
  show wf: "wf_node ?n" using c by (cases c) (auto simp: leaf_ok_def inner_ok_def)
  have f: "getLowerFenceKey ?n = l" "getUpperFenceKey ?n = u" using ok_fences [OF c] by simp_all
  show "between l u sep" using sep_between [OF wf s] f by simp
  have i: "s < count ?n" "s + 1 < count ?n" using s by (simp_all add: separates_def)
  have "in_fences ?n (keys ?n ! (s + 1))" using wf i(2) by (auto simp: wf_node_def)
  then show "below u sep" using s f
    by (auto simp: in_fences_def upto_def below_def separates_def split: option.splits)
  have "key_ok (keys ?n ! s)"
  proof (cases c)
    case (PLeaf w)
    then have "content ?n ! s \<in> set (content ?n)" using i by simp
    then show ?thesis using c PLeaf i by (auto simp: leaf_ok_def keys_def)
  next
    case (PInner w ts)
    then show ?thesis using c i inner_keys(4) [of ?n l u "map addr ts" s] by simp
  qed
  then show "key_ok sep" by (rule separates_key_ok [OF s])
qed

section \<open>Separators\<close>

definition sep_good :: "btree_node \<Rightarrow> SeparatorInfo \<Rightarrow> bool" where
  "sep_good n si \<longleftrightarrow>
     separates n (sep_slot si) (getSep n si) \<and> length (getSep n si) = sep_length si \<and>
     (\<not> is_leaf n \<longrightarrow> getSep n si = keys n ! sep_slot si)"

lemma full_sep_good:
  assumes "wf_node n" "s + 1 < count n"
  shows "sep_good n (full_sep_info n s)"
  using full_key_separates [OF assms] getSep_full [OF assms(1), of s] wf_full_key_len [OF assms(1), of s] assms(2)
  by (simp add: sep_good_def full_sep_info_def)

lemma choose_sep_good:
  assumes wf: "wf_node n" and c: "count n > 2"
  shows "sep_good n (choose_sep bulk n fav)"
proof -
  have "sep_good n (findSep n)"
    using findSep_separates [OF wf c] full_sep_good [OF wf, of "count n div 2"] c
    by (cases "is_leaf n") (simp_all add: sep_good_def findSep_def full_sep_info_def)
  moreover have "sep_good n (full_sep_info n (count n - 2))" using c by (intro full_sep_good [OF wf]) simp
  moreover have "sep_good n (full_sep_info n (nat fav))" if "\<not> (fav < 0 \<or> fav \<ge> int (count n) - 1)"
    using that by (intro full_sep_good [OF wf]) auto
  ultimately show ?thesis by (simp add: choose_sep_def)
qed

lemma sep_good_room:
  assumes "sep_good n si" "key_ok (getSep n si)"
  shows "split_room n (sep_slot si) (getSep n si)"
  using assms by (intro split_room_short) (auto simp: sep_good_def key_ok_def)

text \<open>The pages that a split of \<open>c\<close> writes.\<close>

lemma split_pages:
  assumes c: "ok st h c l u" and g: "sep_good (st (addr c)) si"
  obtains right left where
    "node_split (st (addr c)) parent (new_node (is_leaf (st (addr c)))) wl (sep_slot si) (getSep (st (addr c)) si) =
      (right, snd (node_insert parent (getSep (st (addr c)) si) (swip_bytes wl)), left)"
    "split_ok (st (addr c)) (sep_slot si) (getSep (st (addr c)) si) left right"
proof -
  let ?n = "st (addr c)" and ?sep = "getSep (st (addr c)) si"
  have s: "separates ?n (sep_slot si) ?sep" using g by (simp add: sep_good_def)
  note B = separator_bounds [OF c s]
  have "split_room ?n (sep_slot si) ?sep" by (rule sep_good_room [OF g B(3)])
  from node_split_spec [OF B(4) s this, of parent wl] show thesis using that by (auto split: prod.splits)
qed

section \<open>The split below a parent\<close>

lemma inner_same_node:
  assumes "inner_ok P l u ws" "wf_node P'" "same_node P P'"
  shows "inner_ok P' l u ws" "keys P' = keys P"
proof -
  show k: "keys P' = keys P" using assms(3) by (simp add: same_node_def keys_def)
  have "count P' = count P" using assms(3) length_content [of P] length_content [of P'] by (simp add: same_node_def)
  then show "inner_ok P' l u ws" using assms k by (auto simp: inner_ok_def page_fences_def same_node_def)
qed

lemma canInsert_same_node:
  assumes "same_node P P'" "wf_node P" "wf_node P'" "canInsert P kl pl"
  shows "canInsert P' kl pl"
proof -
  have "count P' = count P" using assms(1) length_content [of P] length_content [of P'] by (simp add: same_node_def)
  then have eq: "freeSpaceAfterCompaction P' = freeSpaceAfterCompaction P" "spaceNeeded P' kl pl = spaceNeeded P kl pl"
    using assms by (simp_all add: freeSpaceAfterCompaction_def spaceNeeded_def same_node_def)
  have "freeSpace P \<le> freeSpaceAfterCompaction P"
    using wf_freeSpace [OF assms(2)] wf_freeSpaceAfterCompaction [OF assms(2)] assms(2)
    by (auto simp: wf_node_def layout_def)
  then show ?thesis using assms(4) eq by (auto simp: canInsert_def hasEnoughSpaceFor_def)
qed

lemma sub_distinct: "sub st h t lo hi h' p l u \<Longrightarrow> distinct (frames t) \<Longrightarrow> distinct (frames p)"
proof (induction rule: sub.induct)
  case (sub_step i ts h lo w hi h' p l u)
  then show ?case using distinct_children(1) by blast
qed

lemma split_child_ok:
  assumes inv: "btree_inv b t" and p: "sub (bfs b) (height b) t None None (Suc h') (PInner wp ts) l u"
    and j: "j < length ts" and g: "sep_good (bfs b (addr (ts ! j))) si"
    and sp: "hasEnoughSpaceFor (bfs b wp) (spaceNeeded (bfs b wp) (sep_length si) 8)"
  defines "r \<equiv> split_child b wp (addr (ts ! j)) si"
  shows "\<exists>t'. btree_inv (snd r) t' \<and> entries (snd r) t' = entries b t" "fst r \<longleftrightarrow> free_list b \<noteq> []"
    "free_list (snd r) = tl (free_list b)" "bulk_insert (snd r) = bulk_insert b"
proof -
  let ?c = "ts ! j" and ?P = "bfs b wp" and ?ks = "keys (bfs b wp)"
  let ?n = "bfs b (addr ?c)"
  let ?sep = "getSep ?n si"
  define P1 where "P1 = snd (requestSpaceFor ?P (spaceNeeded ?P (sep_length si) 8))"
  define b1 where "b1 = set_page b wp P1"
  note I = btree_invD [OF inv]
  have okp: "ok (bfs b) (Suc h') (PInner wp ts) l u" by (rule sub_ok [OF p I(1)])
  have inP: "inner_ok ?P l u (map addr ts)" and okc: "oks (bfs b) h' ts l ?ks u" using okp by simp_all
  have wfP: "wf_node ?P" using inP by (simp add: inner_ok_def)
  note R = requestSpaceFor_spec [OF wfP sp, folded P1_def]
  note P1 = inner_same_node [OF inP R(2,3)]
  have dp: "distinct (frames (PInner wp ts))" by (rule sub_distinct [OF p I(3)])
  note D = distinct_children [OF dp j]
  have pt: "set (frames (PInner wp ts)) \<subseteq> set (frames t)" by (rule sub_frames [OF p])
  have meta: "meta_node_bf b \<notin> set (frames (PInner wp ts))" using I(5) pt by blast
  have ch: "oks (bfs b1) h' ts l ?ks u = oks (bfs b) h' ts l ?ks u"
    using dp by (intro oks_frame) (auto simp: b1_def set_page_def)
  have c: "ok (bfs b) h' ?c (lb l ?ks j) (ub ?ks u j)" using okc j by (simp add: oks_nth)
  have cb: "ok (bfs b1) h' ?c (lb l ?ks j) (ub ?ks u j)" using okc j ch by (simp add: oks_nth)
  have ac: "addr ?c \<noteq> wp" using D(2) by auto
  show "fst r \<longleftrightarrow> free_list b \<noteq> []" "free_list (snd r) = tl (free_list b)" "bulk_insert (snd r) = bulk_insert b"
    by (auto simp: r_def split_child_def allocatePage_def set_page_def Let_def split: list.splits prod.splits)
  show "\<exists>t'. btree_inv (snd r) t' \<and> entries (snd r) t' = entries b t"
  proof (cases "free_list b")
    case Nil
    then have r: "snd r = b1"
      by (simp add: r_def split_child_def allocatePage_def b1_def P1_def set_page_def)
    have st: "tree_step b (PInner wp ts) b1" using meta by (auto simp: tree_step_def b1_def set_page_def root_bf_def)
    have "flat (bfs b1) (PInner wp ts) = flat (bfs b) (PInner wp ts)"
      using dp by (auto simp: flat_inner b1_def set_page_def intro!: arg_cong [of _ _ concat] flat_cong)
    then show ?thesis
      using btree_replace [OF inv p st, of "PInner wp ts"] P1 ch okc okp dp Nil unfolding r
      by (auto simp: b1_def set_page_def)
  next
    case (Cons wl fl)
    obtain right left where S:
      "node_split ?n P1 (new_node (is_leaf ?n)) wl (sep_slot si) ?sep = (right, snd (node_insert P1 ?sep (swip_bytes wl)), left)"
      "split_ok ?n (sep_slot si) ?sep left right"
      using split_pages [OF c g] by blast
    define P2 where "P2 = snd (node_insert P1 ?sep (swip_bytes wl))"
    have r: "snd r = b\<lparr>bfs := (bfs b)(wp := P2, wl := left, addr ?c := right), free_list := fl\<rparr>"
      using Cons S ac by (simp add: r_def split_child_def allocatePage_def set_page_def P1_def [symmetric] P2_def Let_def)
    let ?st = "(bfs b)(wp := P2, wl := left, addr ?c := right)"
    have wl: "wl \<notin> set (frames t)" "wl \<noteq> meta_node_bf b" "wl \<notin> set fl" using I Cons by auto
    have "addr ?c \<in> set (frames t)" using pt frames_child [OF j, of wp] addr_in_frames [of ?c] by blast
    then have wlp: "wl \<noteq> wp" "wl \<notin> set (frames ?c)" "wl \<noteq> addr ?c"
      using wl(1) pt frames_child [OF j, of wp] addr_in_frames [of ?c] by auto
    have sepg: "separates ?n (sep_slot si) ?sep" "\<not> is_leaf ?n \<Longrightarrow> ?sep = keys ?n ! sep_slot si" "length ?sep = sep_length si"
      using g by (auto simp: sep_good_def)
    note B = separator_bounds [OF c sepg(1)]
    have jc: "j \<le> count P1" using j inP P1 by (simp add: inner_ok_def)
    have ci: "canInsert P1 (length ?sep) 8"
      using canInsert_same_node [OF R(3) wfP R(2)] sp sepg(3) by (simp add: canInsert_def)
    note Q = inner_insert [OF P1(1) jc _ _ B(3) ci, of wl, folded P2_def, unfolded P1(2), OF B(1,2)]
    let ?L = "left_half wl (sep_slot si) ?c" and ?R = "right_half (sep_slot si) ?c"
    let ?p' = "PInner wp (take j ts @ ?L # ?R # drop (Suc j) ts)"
    have stn: "?st wl = left" "?st (addr ?c) = right" "?st wp = P2" using wlp ac by simp_all
    have same: "?st x = bfs b x" if "x \<in> set (frames ?c)" "x \<noteq> addr ?c" for x
      using that wlp D(2) by auto
    have H: "ok ?st h' ?L (lb l ?ks j) (Some ?sep)" "ok ?st h' ?R (Some ?sep) (ub ?ks u j)"
      "flat ?st ?L @ flat ?st ?R = flat (bfs b) ?c"
      by (rule page_halves [OF c D(1) wlp(2) sepg(1,2)]; use S(2) stn same in auto)+
    have ts: "ts = take j ts @ ?c # drop (Suc j) ts" using id_take_nth_drop [OF j] .
    note dts = dp [unfolded frames.simps, folded ts]
    have dts: "distinct (wp # concat (map frames (take j ts)) @ frames ?c @ concat (map frames (drop (Suc j) ts)))"
      using dp ts by (metis concat.simps(2) concat_append frames.simps(2) list.simps(9) map_append)
    have fts: "set (frames (PInner wp ts)) = insert wp (set (concat (map frames (take j ts))) \<union> set (frames ?c) \<union>
        set (concat (map frames (drop (Suc j) ts))))"
      using ts by (metis Un_assoc concat.simps(2) concat_append frames.simps(2) list.simps(15,9) map_append set_append)
    have sib: "?st x = bfs b x" if "y \<in> set (take j ts) \<union> set (drop (Suc j) ts)" "x \<in> set (frames y)" for x y
    proof -
      have "x \<in> set (concat (map frames (take j ts))) \<union> set (concat (map frames (drop (Suc j) ts)))" using that by auto
      then have "x \<noteq> wp" "x \<notin> set (frames ?c)" "x \<in> set (frames (PInner wp ts))" using dts unfolding fts by auto
      then show ?thesis using wl(1) pt by auto
    qed
    have oks': "oks ?st h' (take j ts @ ?L # ?R # drop (Suc j) ts) l (insert_at j ?sep ?ks) u"
      by (rule oks_insert [of "bfs b" h' "take j ts" ?c]) (use okc ts j H(1,2) sib in auto)
    have "map addr (take j ts @ ?L # ?R # drop (Suc j) ts) = insert_at j wl (map addr ts)"
      using Cons_nth_drop_Suc [of j "map addr ts"] j by (simp add: half_frames insert_at_def take_map drop_map)
    then have okp': "ok ?st (Suc h') ?p' l u" using oks' Q stn(3) okp by simp
    let ?b = "b\<lparr>bfs := ?st, free_list := fl\<rparr>"
    note hf = half_frames(3) [of wl "sep_slot si" ?c] half_frames(4) [OF D(1) wlp(2), of "sep_slot si"]
    have fp': "frames ?p' = wp # concat (map frames (take j ts)) @ (frames ?L @ frames ?R) @ concat (map frames (drop (Suc j) ts))"
      by simp
    have sf': "set (frames ?p') = insert wl (set (frames (PInner wp ts)))"
      using hf(1) unfolding fp' fts by auto
    have wlf: "wl \<notin> set (concat (map frames (take j ts))) \<union> set (concat (map frames (drop (Suc j) ts)))" "wl \<noteq> wp"
      using wl(1) pt unfolding fts by auto
    have "distinct (frames ?p')"
      unfolding fp' using dts hf wlf by (simp only: distinct.simps distinct_append set_append) auto
    moreover have "set (frames ?p') \<inter> set fl = {}" using sf' wl(3) pt I(7) Cons by auto
    ultimately have d': "distinct (frames ?p' @ free_list ?b)" using I(4) Cons by (simp del: frames.simps)
    have st: "tree_step b (PInner wp ts) ?b"
    proof -
      have "addr ?c \<in> set (frames (PInner wp ts))" "wp \<in> set (frames (PInner wp ts))"
        using subsetD [OF frames_child [OF j, of wp] addr_in_frames [of ?c]] by simp_all
      then show ?thesis using meta wl(2) Cons by (auto simp: tree_step_def root_bf_def simp del: frames.simps)
    qed
    have mm: "map (flat ?st) (take j ts) = map (flat (bfs b)) (take j ts)"
      "map (flat ?st) (drop (Suc j) ts) = map (flat (bfs b)) (drop (Suc j) ts)"
      using sib by (auto intro!: flat_cong simp del: fun_upd_apply)
    have "flat ?st ?p' = concat (map (flat (bfs b)) (take j ts)) @ flat (bfs b) ?c @ concat (map (flat (bfs b)) (drop (Suc j) ts))"
      by (simp only: flat_inner map_append list.map concat_append concat.simps mm H(3) [symmetric] append_assoc)
    also have "\<dots> = flat (bfs b) (PInner wp ts)" using flat_split [OF j] by simp
    finally have fl: "flat ?st ?p' = flat (bfs b) (PInner wp ts)" .
    show ?thesis
      using btree_replace [OF inv p st, of ?p'] okp' d' sf' Cons fl unfolding r by (auto simp del: fun_upd_apply frames.simps)
  qed
qed

section \<open>The root split\<close>

lemma upper_frame [simp]:
  "content (n\<lparr>upper := w\<rparr>) = content n" "keys (n\<lparr>upper := w\<rparr>) = keys n" "wf_node (n\<lparr>upper := w\<rparr>) = wf_node n"
proof -
  have s: "slots (n\<lparr>upper := w\<rparr>) = slots n" by (simp add: slots_def)
  then show c: "content (n\<lparr>upper := w\<rparr>) = content n" by (simp add: content_def)
  then show k: "keys (n\<lparr>upper := w\<rparr>) = keys n" by (simp add: keys_def)
  show "wf_node (n\<lparr>upper := w\<rparr>) = wf_node n" using s c k by (simp add: wf_node_def hint_ok_def)
qed

lemma new_root_ok:
  fixes wc wl :: u64
  assumes sep: "key_ok sep"
  defines "P \<equiv> snd (node_insert ((new_node False)\<lparr>upper := wc\<rparr>) sep (swip_bytes wl))"
  shows "inner_ok P None None [wl, wc]" "keys P = [sep]"
proof -
  let ?n = "(new_node False)\<lparr>upper := wc\<rparr>"
  have f: "getLowerFenceKey (new_node False) = None" "getUpperFenceKey (new_node False) = None"
    by (simp_all add: new_node_def getLowerFenceKey_def getUpperFenceKey_def)
  have n: "inner_ok ?n None None [wc]" using f wf_new_node [of False] by (simp add: inner_ok_def page_fences_def)
  have sm: "small (length sep) 8" using sep by (auto simp: small_def key_ok_def)
  have "freeSpaceAfterCompaction ?n = 16260"
    by (simp add: freeSpaceAfterCompaction_def new_node_def slots_end_def u16_def)
  then have ci: "canInsert ?n (length sep) 8"
    using spaceNeeded_small [OF sm, of ?n] sep by (auto simp: canInsert_def hasEnoughSpaceFor_def key_ok_def)
  have b: "between (lb None (keys ?n) 0) (ub (keys ?n) None 0) sep" "below (ub (keys ?n) None 0) sep"
    by (simp_all add: below_def between_def above_def upto_def)
  show "inner_ok P None None [wl, wc]" "keys P = [sep]"
    using inner_insert [OF n _ b sep ci, of wl, folded P_def] by (simp_all add: insert_at_def)
qed

lemma split_root_ok:
  assumes inv: "btree_inv b t" and g: "sep_good (bfs b (addr t)) si"
  defines "r \<equiv> split_root b (addr t) si"
  shows "\<exists>t'. btree_inv (snd r) t' \<and> entries (snd r) t' = entries b t" "fst r \<longleftrightarrow> length (free_list b) \<ge> 2"
    "fst r \<Longrightarrow> free_list (snd r) = tl (tl (free_list b))" "\<not> fst r \<Longrightarrow> snd r = b" "bulk_insert (snd r) = bulk_insert b"
proof -
  note I = btree_invD [OF inv]
  let ?n = "bfs b (addr t)"
  let ?sep = "getSep ?n si"
  have at: "addr t \<noteq> meta_node_bf b" using I(5) addr_in_frames [of t] by metis
  have small: "r = (False, b)" if "\<not> length (free_list b) \<ge> 2"
    using that by (cases "free_list b"; cases "tl (free_list b)")
      (simp_all add: r_def split_root_def allocatePage_def reclaimPage_def)
  show "fst r \<longleftrightarrow> length (free_list b) \<ge> 2" "fst r \<Longrightarrow> free_list (snd r) = tl (tl (free_list b))"
      "\<not> fst r \<Longrightarrow> snd r = b" "bulk_insert (snd r) = bulk_insert b"
    by (auto simp: r_def split_root_def allocatePage_def reclaimPage_def set_page_def Let_def split: list.splits prod.splits)
  show "\<exists>t'. btree_inv (snd r) t' \<and> entries (snd r) t' = entries b t"
  proof (cases "length (free_list b) \<ge> 2")
    case True
    then obtain wr wl fl where fl: "free_list b = wr # wl # fl"
      by (cases "free_list b"; cases "tl (free_list b)") auto
    let ?P0 = "(new_node False)\<lparr>upper := addr t\<rparr>"
    obtain right left where S:
      "node_split ?n ?P0 (new_node (is_leaf ?n)) wl (sep_slot si) ?sep = (right, snd (node_insert ?P0 ?sep (swip_bytes wl)), left)"
      "split_ok ?n (sep_slot si) ?sep left right"
      using split_pages [OF I(1) g] by blast
    define P where "P = snd (node_insert ?P0 ?sep (swip_bytes wl))"
    let ?m = "meta_node_bf b"
    define st where "st = (bfs b)(?m := (bfs b ?m)\<lparr>upper := wr\<rparr>, wr := P, wl := left, addr t := right)"
    have r: "snd r = b\<lparr>bfs := st, free_list := fl, height := height b + 1\<rparr>"
      using fl S at by (simp add: r_def split_root_def allocatePage_def set_page_def P_def st_def Let_def)
    have w: "wr \<notin> set (frames t)" "wl \<notin> set (frames t)" "wr \<noteq> wl" "wr \<noteq> ?m" "wl \<noteq> ?m" using I fl by auto
    then have wt: "wr \<noteq> addr t" "wl \<noteq> addr t" using addr_in_frames [of t] by metis+
    have stn: "st wl = left" "st (addr t) = right" "st wr = P" "st ?m = (bfs b ?m)\<lparr>upper := wr\<rparr>"
      using w wt at by (simp_all add: st_def)
    have sepg: "separates ?n (sep_slot si) ?sep" "\<not> is_leaf ?n \<Longrightarrow> ?sep = keys ?n ! sep_slot si"
      using g by (auto simp: sep_good_def)
    have same: "st x = bfs b x" if "x \<in> set (frames t)" "x \<noteq> addr t" for x
      using that w I(5) by (auto simp: st_def)
    let ?L = "left_half wl (sep_slot si) t" and ?R = "right_half (sep_slot si) t"
    have H: "ok st (height b) ?L None (Some ?sep)" "ok st (height b) ?R (Some ?sep) None"
      "flat st ?L @ flat st ?R = flat (bfs b) t"
      by (rule page_halves [OF I(1,3) w(2) sepg]; use S(2) stn same in auto)+
    note N = new_root_ok [OF separator_bounds(3) [OF I(1) sepg(1)], of "addr t" wl, folded P_def]
    let ?t = "PInner wr [?L, ?R]"
    have "height b > 0" using I(1) by (cases t) auto
    then have "ok st (height b + 1) ?t None None" using H(1,2) N stn(3) by (simp add: half_frames)
    moreover have "distinct (?m # frames ?t @ fl)"
      using half_frames(3) [of wl "sep_slot si" t] half_frames(4) [OF I(3) w(2), of "sep_slot si"] w I fl by auto
    ultimately have "btree_inv (snd r) ?t" using stn(4) by (simp add: btree_inv_def r root_bf_def)
    moreover have "entries (snd r) ?t = entries b t" using H(3) by (simp add: entries_def r flat_inner)
    ultimately show ?thesis by blast
  next
    case False
    then show ?thesis using small inv by auto
  qed
qed

section \<open>trySplit\<close>

text \<open>A page of the tree is the root, or it has a parent.\<close>

lemma sub_height: "sub st h t lo hi h' p l u \<Longrightarrow> h' \<le> h"
  by (induction rule: sub.induct) simp_all

lemma sub_parent:
  "sub st h t lo hi h' p l u \<Longrightarrow>
     (p = t \<and> h' = h) \<or>
     (\<exists>w ts j l' u'. sub st h t lo hi (Suc h') (PInner w ts) l' u' \<and> j < length ts \<and> ts ! j = p)"
proof (induction rule: sub.induct)
  case (sub_step i ts h lo w hi h' p l u)
  from sub_step.IH show ?case
  proof
    assume p: "p = ts ! i \<and> h' = h"
    have "sub st (Suc h) (PInner w ts) lo hi (Suc h) (PInner w ts) lo hi" by (rule sub_refl)
    then show ?thesis using p sub_step.hyps(1) by blast
  next
    assume "\<exists>w' ts' j l' u'. sub st h (ts ! i) (lb lo (keys (st w)) i) (ub (keys (st w)) hi i) (Suc h') (PInner w' ts') l' u' \<and>
      j < length ts' \<and> ts' ! j = p"
    then show ?thesis using sub.sub_step [OF sub_step.hyps(1)] by blast
  qed
qed simp

text \<open>An inner page that has no space for a separator has many entries.\<close>

lemma full_inner_count:
  assumes P: "inner_ok P l u ws" and r: "rng l u" and lu: "opt_len l \<le> 8" "opt_len u \<le> 8"
    and k: "length sep \<le> 8" and full: "\<not> hasEnoughSpaceFor P (spaceNeeded P (length sep) 8)"
    and pl: "prefix_length P \<le> length sep"
  shows "count P > 2"
proof -
  have wf: "wf_node P" using P by (simp add: inner_ok_def)
  have sm: "small (length sep) 8" using k by (simp add: small_def)
  have sn: "spaceNeeded P (length sep) 8 \<le> SIZEOF_SLOT + 16" using spaceNeeded_small [OF sm pl] k by simp
  have f: "getLowerFenceKey P = l" "getUpperFenceKey P = u" using P by (simp_all add: inner_ok_def page_fences_def)
  have e: "entry_size (prefix_length P) e \<le> 16" if "e \<in> set (content P)" for e
  proof -
    have "length (fst e) \<le> 8" using P that by (auto simp: inner_ok_def keys_def key_ok_def)
    moreover have "snd e \<in> set (map snd (content P))" using that by simp
    moreover have "map snd (content P) = map swip_bytes (butlast ws)" using P by (simp add: inner_ok_def)
    ultimately have "length (fst e) \<le> 8" "length (snd e) = 8" by auto
    then show ?thesis by (simp add: entry_size_def)
  qed
  have "total_size (prefix_length P) (content P) \<le> 16 * count P"
    using sum_list_mono [of "content P" "entry_size (prefix_length P)" "\<lambda>_. 16"] e by (simp add: sum_list_triv mult.commute)
  then have "space_used P \<le> 16 + 16 * count P" using wf_space [OF wf] f lu by simp
  then show ?thesis using full sn wf_freeSpaceAfterCompaction [OF wf]
    by (auto simp: hasEnoughSpaceFor_def slots_end_def)
qed

lemma fence_lengths: "sub st h t lo hi h' p l u \<Longrightarrow> ok st h t lo hi \<Longrightarrow> opt_len lo \<le> 8 \<Longrightarrow> opt_len hi \<le> 8 \<Longrightarrow>
   opt_len l \<le> 8 \<and> opt_len u \<le> 8"
proof (induction rule: sub.induct)
  case (sub_step i ts h lo w hi h' p l u)
  have n: "inner_ok (st w) lo hi (map addr ts)" using sub_step.prems by simp
  have i: "i \<le> count (st w)" using n sub_step.hyps(1) by (simp add: inner_ok_def)
  have k: "length (keys (st w) ! j) \<le> 8" if "j < count (st w)" for j
    using inner_keys(4) [OF n that] by (simp add: key_ok_def)
  have "opt_len (lb lo (keys (st w)) i) \<le> 8"
    using sub_step.prems k i by (cases i) (auto simp: lb_Suc)
  moreover have "opt_len (ub (keys (st w)) hi i) \<le> 8"
    using sub_step.prems k i ub_last [of "keys (st w)" hi] by (cases "i = count (st w)") (auto simp: ub_less)
  ultimately show ?case using sub_step.IH ok_child [OF sub_step.prems(1) sub_step.hyps(1)] by blast
qed simp

lemma page_prefix_le:
  assumes "sub st h t lo hi h' p l u" "ok st h t lo hi" "between l u k" 
  shows "prefix_length (st (addr p)) \<le> length k"
proof -
  have p: "ok st h' p l u" by (rule sub_ok [OF assms(1,2)])
  have wf: "wf_node (st (addr p))" using p by (cases p) (auto simp: leaf_ok_def inner_ok_def)
  have "in_fences (st (addr p)) k" using ok_fences [OF p] assms(3) by (simp add: in_fences_between)
  then show ?thesis using in_fences_has_prefix [of "st (addr p)" k] wf by (simp add: wf_node_def has_prefix_def)
qed

lemma parent_full_count:
  assumes inv: "btree_inv b t" and P: "sub (bfs b) (height b) t None None (Suc h') (PInner w ts) l u" and j: "j < length ts"
    and g: "sep_good (bfs b (addr (ts ! j))) si"
    and full: "\<not> hasEnoughSpaceFor (bfs b w) (spaceNeeded (bfs b w) (sep_length si) 8)"
  shows "count (bfs b w) > 2"
proof -
  note I = btree_invD [OF inv]
  let ?n = "bfs b (addr (ts ! j))" and ?ks = "keys (bfs b w)"
  have P': "ok (bfs b) (Suc h') (PInner w ts) l u" by (rule sub_ok [OF P I(1)])
  then have n: "inner_ok (bfs b w) l u (map addr ts)" by simp
  have c: "ok (bfs b) h' (ts ! j) (lb l ?ks j) (ub ?ks u j)" by (rule ok_child [OF P' j])
  have s: "separates ?n (sep_slot si) (getSep ?n si)" "length (getSep ?n si) = sep_length si" using g by (auto simp: sep_good_def)
  note B = separator_bounds [OF c s(1)]
  have "j \<le> count (bfs b w)" using j n by (simp add: inner_ok_def)
  then have "between l u (getSep ?n si)" using within_child [OF n] B(1) by (auto simp: within_def between_def)
  then have pl: "prefix_length (bfs b w) \<le> length (getSep ?n si)" using page_prefix_le [OF P I(1)] by simp
  have "rng l u" using sub_within [OF P I(1)] by simp
  then show ?thesis
    using full_inner_count [OF n _ _ _ _ _ pl] fence_lengths [OF P I(1)] B(3) full s(2) by (auto simp: key_ok_def)
qed

lemma trySplit_ok:
  assumes "btree_inv b t" "sub (bfs b) (height b) t None None h' p l u" 
  shows "\<exists>r b' t'. trySplit b (addr p) fav = Some (r, b') \<and> btree_inv b' t' \<and> entries b' t' = entries b t \<and>
    bulk_insert b' = bulk_insert b \<and>
    (if count (bfs b (addr p)) \<le> 2 then r \<and> b' = b
     else if r then length (free_list b') < length (free_list b) else length (free_list b') < 2)"
  using assms
proof (induction "height b - h'" arbitrary: h' p l u fav rule: less_induct)
  case less
  note inv = less.prems(1) and p = less.prems(2)
  note I = btree_invD [OF inv]
  let ?n = "bfs b (addr p)"
  let ?si = "choose_sep (bulk_insert b) ?n fav"
  have okp: "ok (bfs b) h' p l u" by (rule sub_ok [OF p I(1)])
  have wf: "wf_node ?n" using okp by (cases p) (auto simp: leaf_ok_def inner_ok_def)
  have g: "sep_good ?n ?si" if "\<not> count ?n \<le> 2" using choose_sep_good [OF wf] that by simp
  show ?case
  proof (cases "p = t")
    case True
    then have fp: "findParent b (addr p) = Some (Ret (meta_node_bf b, -2))" using I(2) by (simp add: findParent_def)
    show ?thesis
    proof (cases "count ?n \<le> 2")
      case True
      then show ?thesis using fp inv by (subst trySplit.simps) auto
    next
      case False
      have "trySplit b (addr p) fav = Some (split_root b (addr t) ?si)"
        using False fp \<open>p = t\<close> by (subst trySplit.simps) simp
      moreover note split_root_ok [OF inv g [OF False, unfolded \<open>p = t\<close>]]
      ultimately show ?thesis using False \<open>p = t\<close> by (cases "split_root b (addr t) ?si") auto
    qed
  next
    case np: False
    then obtain w ts j l' u' where P: "sub (bfs b) (height b) t None None (Suc h') (PInner w ts) l' u'" "j < length ts" "ts ! j = p"
      using sub_parent [OF p] by blast
    have fp: "findParent b (addr p) = Some (Ret (w, int j))" using findParent_ok [OF inv P(1,2)] P(3) by simp
    have w: "w \<noteq> meta_node_bf b" using sub_frames [OF P(1)] I(5) by auto
    have inP: "inner_ok (bfs b w) l' u' (map addr ts)" using sub_ok [OF P(1) I(1)] by simp
    let ?sp = "hasEnoughSpaceFor (bfs b w) (spaceNeeded (bfs b w) (sep_length ?si) 8)"
    show ?thesis
    proof (cases "count ?n \<le> 2")
      case True
      then show ?thesis using fp inv by (subst trySplit.simps) auto
    next
      case False
      show ?thesis
      proof (cases ?sp)
        case True
        have "trySplit b (addr p) fav = Some (split_child b w (addr p) ?si)"
          using False True fp w by (subst trySplit.simps) simp
        moreover note split_child_ok [OF inv P(1,2) _ True, unfolded P(3), OF g [OF False]]
        ultimately show ?thesis using False by (cases "split_child b w (addr p) ?si"; cases "free_list b") auto
      next
        case full: False
        have "trySplit b (addr p) fav = trySplit b w (-1)"
          using False full fp w by (subst trySplit.simps) simp
        moreover have "count (bfs b w) > 2"
          by (rule parent_full_count [OF inv P(1,2)]) (use g [OF False] P(3) full in simp_all)
        moreover have "height b - Suc h' < height b - h'" using sub_height [OF P(1)] by simp
        note less.hyps [OF this inv P(1), of "-1"]
        ultimately show ?thesis using False by simp
      qed
    qed
  qed
qed

end
