(* ===== verification/BTreeMerge.thy ===== *)
theory BTreeMerge
  imports BTreeSplit
begin

text \<open>
  Merging pages of the tree (\<open>BTreeGeneric::tryMerge\<close>): a page that is less than forty percent full is merged with a
  neighbour that is, and the parent is tried next. The tree keeps its invariant and its entries.
\<close>

section \<open>The merged page\<close>

fun merge_trees :: "ptree \<Rightarrow> ptree \<Rightarrow> ptree" where
  "merge_trees (PInner _ xs) (PInner w ys) = PInner w (xs @ ys)"
| "merge_trees _ r = r"

lemma addr_merge_trees [simp]: "addr (merge_trees l r) = addr r"
  by (cases l; cases r) auto

lemma merge_trees_frames:
  "set (frames (merge_trees l r)) \<subseteq> set (frames l) \<union> set (frames r)"
  "distinct (frames l @ frames r) \<Longrightarrow> distinct (frames (merge_trees l r))"
  "distinct (frames l @ frames r) \<Longrightarrow> addr l \<notin> set (frames (merge_trees l r))"
  by (cases l; cases r; auto)+

lemma oks_remove:
  assumes "oks st h (xs @ L # R # ys) lo ks hi" "j = length xs" "ok st' h M (lb lo ks j) (ub ks hi (Suc j))"
    and same: "\<And>t w. t \<in> set xs \<union> set ys \<Longrightarrow> w \<in> set (frames t) \<Longrightarrow> st' w = st w"
  shows "oks st' h (xs @ M # ys) lo (remove_at j ks) hi"
  using assms
proof (induction xs arbitrary: lo ks j)
  case Nil
  have e: "oks st' h ys lo ks hi = oks st h ys lo ks hi" for lo ks hi using Nil.prems(4) by (intro oks_frame) auto
  obtain k ks' where ks: "ks = k # ks'" using Nil.prems(1) by (cases ks) auto
  show ?case using Nil.prems e unfolding ks by (cases ks') (auto simp: remove_at_def)
next
  case (Cons x xs)
  obtain k ks' where ks: "ks = k # ks'" using Cons.prems(1) by (cases ks) auto
  have "ok st' h x lo (Some k) = ok st h x lo (Some k)" using Cons.prems(4) by (intro ok_frame) auto
  moreover have "oks st' h (xs @ M # ys) (Some k) (remove_at (length xs) ks') hi"
    by (rule Cons.IH) (use Cons.prems ks in auto)
  ultimately show ?case using Cons.prems(1,2) ks by (simp add: remove_at_def)
qed

lemma merged_leaf:
  assumes "leaf_ok n l (Some sep)" "leaf_ok n' (Some sep) u" "merge_ok n n' sep m"
  shows "leaf_ok m l u" "content m = content n @ content n'"
  using assms by (auto simp: leaf_ok_def merge_ok_def merged_content_def page_fences_def)

lemma merged_inner:
  assumes n: "inner_ok n l (Some sep) ws" and n': "inner_ok n' (Some sep) u ws'" and m: "merge_ok n n' sep m"
    and s: "key_ok sep" "below u sep"
  shows "inner_ok m l u (ws @ ws')" "keys m = keys n @ sep # keys n'"
proof -
  have nl: "\<not> is_leaf n" "length ws = Suc (count n)" "length ws' = Suc (count n')" "upper n = last ws" "upper n' = last ws'"
    "map snd (content n) = map swip_bytes (butlast ws)" "map snd (content n') = map swip_bytes (butlast ws')"
    using n n' by (simp_all add: inner_ok_def)
  have ne: "ws \<noteq> []" "ws' \<noteq> []" using nl by auto
  have c: "content m = content n @ (sep, swip_bytes (last ws)) # content n'"
    using m nl by (simp add: merge_ok_def merged_content_def)
  show k: "keys m = keys n @ sep # keys n'" by (simp add: keys_def c)
  have "count m = Suc (count n + count n')" using c length_content [of m] by simp
  moreover have "map snd (content m) = map swip_bytes (butlast (ws @ ws'))"
  proof -
    have "butlast (ws @ ws') = butlast ws @ last ws # butlast ws'" using ne by (simp add: butlast_append)
    then show ?thesis by (simp add: c nl(6,7))
  qed
  moreover have "below u k" if "k \<in> set (keys n)" for k
  proof -
    have "k < sep" using that n by (auto simp: inner_ok_def below_def)
    then show ?thesis using s(2) by (auto simp: below_def split: option.splits)
  qed
  ultimately show "inner_ok m l u (ws @ ws')"
    using n n' m k s ne nl(5) by (auto simp: inner_ok_def merge_ok_def page_fences_def)
qed

lemma merged_page:
  assumes L: "ok st h L l (Some sep)" and R: "ok st h R (Some sep) u" and d: "distinct (frames L @ frames R)"
    and m: "merge_ok (st (addr L)) (st (addr R)) sep (st' (addr R))" and s: "key_ok sep" "below u sep"
    and same: "\<And>w. w \<in> set (frames L) \<union> set (frames R) \<Longrightarrow> w \<noteq> addr L \<Longrightarrow> w \<noteq> addr R \<Longrightarrow> st' w = st w"
  shows "ok st' h (merge_trees L R) l u \<and> flat st' (merge_trees L R) = flat st L @ flat st R"
proof (cases L)
  case (PLeaf w)
  then obtain w' where R': "R = PLeaf w'" using L R by (cases R) auto
  show ?thesis using merged_leaf [of "st w" l sep "st w'" u "st' w'"] L R m PLeaf R' by simp
next
  case (PInner w ts)
  then obtain w' ts' where R': "R = PInner w' ts'" using L R by (cases R) auto
  have n: "inner_ok (st w) l (Some sep) (map addr ts)" "oks st (h - 1) ts l (keys (st w)) (Some sep)" "h > 1"
    "inner_ok (st w') (Some sep) u (map addr ts')" "oks st (h - 1) ts' (Some sep) (keys (st w')) u"
    using L R PInner R' by simp_all
  note M = merged_inner [OF n(1,4) _ s, of "st' w'"]
  have M: "inner_ok (st' w') l u (map addr (ts @ ts'))" "keys (st' w') = keys (st w) @ sep # keys (st w')"
    using M m PInner R' by simp_all
  have x: "st' y = st y" if "t \<in> set (ts @ ts')" "y \<in> set (frames t)" for t y
    by (rule same) (use that d PInner R' in auto)
  have "length ts = Suc (length (keys (st w)))" using n(1) by (simp add: inner_ok_def)
  from oks_append [OF this, of st "h - 1" ts' l sep "keys (st w')" u]
  have "oks st (h - 1) (ts @ ts') l (keys (st' w')) u" using n(2,5) M(2) by simp
  moreover have "oks st' (h - 1) (ts @ ts') l (keys (st' w')) u = oks st (h - 1) (ts @ ts') l (keys (st' w')) u"
    by (rule oks_frame) (use x in blast)
  moreover have "concat (map (flat st') (ts @ ts')) = concat (map (flat st) (ts @ ts'))"
    by (intro arg_cong [of _ _ concat] map_cong refl flat_cong) (use x in blast)
  ultimately show ?thesis using M(1) n(3) PInner R' by (simp add: flat_inner)
qed

section \<open>Merging two children\<close>

lemma butlast_remove_at: "Suc j < length ws \<Longrightarrow> butlast (remove_at j ws) = remove_at j (butlast ws)"
  by (simp add: remove_at_def butlast_append take_butlast drop_butlast)

lemma last_remove_at: "Suc j < length ws \<Longrightarrow> last (remove_at j ws) = last ws"
  by (simp add: remove_at_def)

lemma inner_remove:
  assumes P: "inner_ok P l u ws" and j: "j < count P"
  shows "inner_ok (removeSlot P j) l u (remove_at j ws)" "keys (removeSlot P j) = remove_at j (keys P)"
proof -
  have wf: "wf_node P" using P by (simp add: inner_ok_def)
  note S = removeSlot_spec [OF wf j]
  show k: "keys (removeSlot P j) = remove_at j (keys P)" by (simp add: keys_def S(2) map_remove_at)
  have "count (removeSlot P j) = count P - 1" using S(2) length_content [of "removeSlot P j"] j by simp
  moreover have "map snd (content (removeSlot P j)) = map swip_bytes (butlast (remove_at j ws))"
    using P j by (simp add: S(2) map_remove_at inner_ok_def butlast_remove_at)
  ultimately show "inner_ok (removeSlot P j) l u (remove_at j ws)"
    using P S j k set_remove_at_subset [of j "keys P"]
    by (auto simp: inner_ok_def page_fences_def last_remove_at)
qed

text \<open>Two underfull pages with short keys: the estimate of \<open>merge\<close> stays far below 64 KiB.\<close>

lemma underfull_estimate:
  assumes wf: "wf_node n" "wf_node r" and len: "opt_len (getLowerFenceKey n) \<le> 8" "opt_len (getLowerFenceKey r) \<le> 8" "length sep \<le> 8"
    and u: "freeSpaceAfterCompaction n \<ge> underFullSize" "freeSpaceAfterCompaction r \<ge> underFullSize"
  shows "merge_estimate n r sep < 65536"
proof -
  have p: "prefix_length n \<le> 8" "prefix_length r \<le> 8"
    using prefix_of_le(1) [of "getLowerFenceKey n" "getUpperFenceKey n"] prefix_of_le(1) [of "getLowerFenceKey r" "getUpperFenceKey r"]
      wf_prefix [OF wf(1)] wf_prefix [OF wf(2)] len by simp_all
  have b: "slots_end (count n) + space_used n \<le> 6541" "slots_end (count r) + space_used r \<le> 6541"
    using u wf_freeSpaceAfterCompaction [OF wf(1)] wf_freeSpaceAfterCompaction [OF wf(2)] by simp_all
  define q where "q = prefix_of (getLowerFenceKey n) (getUpperFenceKey r)"
  define A B where "A = (prefix_length n - q) * count n" and "B = (prefix_length r - q) * count r"
  have "A \<le> 8 * count n" "B \<le> 8 * count r" using p unfolding A_def B_def by (intro mult_le_mono1; simp)+
  moreover have "merge_estimate n r sep \<le> space_used n + space_used r + slots_end (count n + count r) + A + B + 26"
    using len(3) by (auto simp: merge_estimate_def Let_def q_def A_def B_def)
  ultimately show ?thesis using b by (simp add: slots_end_def)
qed

lemma merge_children:
  assumes inv: "btree_inv b t" and P: "sub (bfs b) (height b) t None None (Suc h') (PInner w ts) l u"
    and j: "Suc j < length ts"
    and u: "freeSpaceAfterCompaction (bfs b (addr (ts ! j))) \<ge> underFullSize"
      "freeSpaceAfterCompaction (bfs b (addr (ts ! Suc j))) \<ge> underFullSize"
  shows "case node_merge (bfs b (addr (ts ! j))) j (bfs b w) (bfs b (addr (ts ! Suc j))) of (m, P', r) \<Rightarrow>
    (m \<and> P' = removeSlot (bfs b w) j \<and> merge_ok (bfs b (addr (ts ! j))) (bfs b (addr (ts ! Suc j))) (keys (bfs b w) ! j) r) \<or>
    (\<not> m \<and> P' = bfs b w \<and> r = bfs b (addr (ts ! Suc j)))"
proof -
  note I = btree_invD [OF inv]
  let ?P = "bfs b w" and ?n = "bfs b (addr (ts ! j))" and ?r = "bfs b (addr (ts ! Suc j))"
  let ?ks = "keys ?P"
  have okP: "ok (bfs b) (Suc h') (PInner w ts) l u" by (rule sub_ok [OF P I(1)])
  then have n: "inner_ok ?P l u (map addr ts)" by simp
  have jc: "j < count ?P" "Suc j \<le> count ?P" using j n by (simp_all add: inner_ok_def)
  have L: "ok (bfs b) h' (ts ! j) (lb l ?ks j) (Some (?ks ! j))"
    using ok_child [OF okP, of j] j jc by (simp add: ub_less)
  have R: "ok (bfs b) h' (ts ! Suc j) (Some (?ks ! j)) (ub ?ks u (Suc j))"
    using ok_child [OF okP, of "Suc j"] j jc by (simp add: lb_Suc)
  have wf: "wf_node ?n" "wf_node ?r" using L R by (cases "ts ! j"; cases "ts ! Suc j"; auto simp: leaf_ok_def inner_ok_def)+
  have f: "getLowerFenceKey ?n = lb l ?ks j" "getUpperFenceKey ?n = Some (?ks ! j)"
    "getLowerFenceKey ?r = Some (?ks ! j)" "getUpperFenceKey ?r = ub ?ks u (Suc j)"
    using ok_fences [OF L] ok_fences [OF R] by simp_all
  have r: "rng l u" using sub_within [OF P I(1)] by simp
  have k: "key_ok (?ks ! j)" by (rule inner_keys(4) [OF n jc(1)])
  have "rng (lb l ?ks j) (ub ?ks u j)" "rng (lb l ?ks (Suc j)) (ub ?ks u (Suc j))"
    using rng_child [OF n r] jc by simp_all
  then have ab: "above (lb l ?ks j) (?ks ! j)" "below (ub ?ks u (Suc j)) (?ks ! j)"
    using jc by (simp_all add: ub_less lb_Suc rng_Some)
  have nb: "neighbours ?n ?r (?ks ! j)"
    using L R wf f ab by (cases "ts ! j"; cases "ts ! Suc j")
      (auto simp: neighbours_def leaf_ok_def inner_ok_def below_def upto_def split: option.splits)
  have len: "opt_len (lb l ?ks j) \<le> 8"
    using fence_lengths [OF sub_child [OF P, of j] I(1)] j by simp
  have est: "merge_estimate ?n ?r (?ks ! j) < 65536"
    by (rule underfull_estimate [OF wf]) (use f len k u in \<open>auto simp: key_ok_def\<close>)
  have "wf_node ?P" using n by (simp add: inner_ok_def)
  then show ?thesis using node_merge_spec [OF nb est, of ?P j] jc by (auto split: prod.splits if_splits)
qed


lemma distinct_shrink:
  "distinct (w # A @ X @ B) \<Longrightarrow> distinct Y \<Longrightarrow> set Y \<subseteq> set X \<Longrightarrow> z \<in> set X \<Longrightarrow> z \<notin> set Y \<Longrightarrow>
     distinct ((w # A @ Y @ B) @ [z])"
  by auto

text \<open>A successful merge of the children \<open>j\<close> and \<open>j + 1\<close>: the parent loses slot \<open>j\<close>, the left child's frame is free.\<close>

lemma merge_success:
  assumes inv: "btree_inv b t" and P: "sub (bfs b) (height b) t None None (Suc h') (PInner w ts) l u"
    and j: "Suc j < length ts"
    and mo: "merge_ok (bfs b (addr (ts ! j))) (bfs b (addr (ts ! Suc j))) (keys (bfs b w) ! j) n'"
  defines "b' \<equiv> b\<lparr>bfs := (bfs b)(w := removeSlot (bfs b w) j, addr (ts ! Suc j) := n'),
    free_list := addr (ts ! j) # free_list b\<rparr>"
  shows "\<exists>t' ts'. btree_inv b' t' \<and> entries b' t' = entries b t \<and>
      sub (bfs b') (height b') t' None None (Suc h') (PInner w ts') l u"
proof -
  note I = btree_invD [OF inv]
  let ?P = "bfs b w" and ?L = "ts ! j" and ?R = "ts ! Suc j" and ?ks = "keys (bfs b w)"
  let ?M = "merge_trees ?L ?R" and ?xs = "take j ts" and ?ys = "drop (Suc (Suc j)) ts"
  let ?p' = "PInner w (?xs @ ?M # ?ys)" and ?A = "concat (map frames (take j ts))"
    and ?B = "concat (map frames (drop (Suc (Suc j)) ts))"
  have okP: "ok (bfs b) (Suc h') (PInner w ts) l u" by (rule sub_ok [OF P I(1)])
  then have n: "inner_ok ?P l u (map addr ts)" and okc: "oks (bfs b) h' ts l ?ks u" by simp_all
  have jc: "j < count ?P" "Suc j \<le> count ?P" using j n by (simp_all add: inner_ok_def)
  have L: "ok (bfs b) h' ?L (lb l ?ks j) (Some (?ks ! j))" using ok_child [OF okP, of j] j jc by (simp add: ub_less)
  have R: "ok (bfs b) h' ?R (Some (?ks ! j)) (ub ?ks u (Suc j))" using ok_child [OF okP, of "Suc j"] j jc by (simp add: lb_Suc)
  have dp: "distinct (frames (PInner w ts))" by (rule sub_distinct [OF P I(3)])
  have ts: "ts = ?xs @ ?L # ?R # ?ys"
    using id_take_nth_drop [of j ts] Cons_nth_drop_Suc [of "Suc j" ts] j by simp
  have fts: "frames (PInner w ts) = w # ?A @ (frames ?L @ frames ?R) @ ?B"
    using arg_cong [OF ts, of "\<lambda>ts. w # concat (map frames ts)"] by simp
  have pt: "set (frames (PInner w ts)) \<subseteq> set (frames t)" by (rule sub_frames [OF P])
  note dts = dp [unfolded fts]
  have dLR: "distinct (frames ?L @ frames ?R)" using dts by auto
  note M = merge_trees_frames(1) [of ?L ?R] merge_trees_frames(2,3) [OF dLR]
  have aL: "addr ?L \<in> set (frames ?L)" "addr ?R \<in> set (frames ?R)" by simp_all
  have ne: "addr ?R \<noteq> w" "addr ?L \<noteq> w" "addr ?R \<noteq> addr ?L" using dts aL by (auto simp del: addr_in_frames)
  let ?st = "(bfs b)(w := removeSlot (bfs b w) j, addr (ts ! Suc j) := n')"
  have sib: "?st x = bfs b x" if "y \<in> set ?xs \<union> set ?ys" "x \<in> set (frames y)" for x y
  proof -
    have "x \<in> set ?A \<union> set ?B" using that by auto
    then show ?thesis using dts aL by (auto simp del: addr_in_frames)
  qed
  have r: "rng l u" using sub_within [OF P I(1)] by simp
  have bel: "below (ub ?ks u (Suc j)) (?ks ! j)" using rng_child [OF n r jc(2)] jc by (simp add: lb_Suc rng_Some)
  have MP: "ok ?st h' ?M (lb l ?ks j) (ub ?ks u (Suc j)) \<and> flat ?st ?M = flat (bfs b) ?L @ flat (bfs b) ?R"
    by (rule merged_page [OF L R dLR _ inner_keys(4) [OF n jc(1)] bel]) (use mo dts ne in auto)
  have oks': "oks ?st h' (?xs @ ?M # ?ys) l (remove_at j ?ks) u"
    by (rule oks_remove [of "bfs b" h' ?xs ?L ?R]) (use okc ts j MP sib in auto)
  have "map addr (?xs @ ?M # ?ys) = remove_at j (map addr ts)"
    using Cons_nth_drop_Suc [of "Suc j" "map addr ts"] j by (simp add: remove_at_def take_map drop_map)
  then have okp': "ok (bfs b') (Suc h') ?p' l u" using oks' inner_remove [OF n jc(1)] okP ne by (simp add: b'_def)
  have fp': "frames ?p' = w # ?A @ frames ?M @ ?B" by simp
  have d': "distinct (frames ?p' @ free_list b')"
  proof -
    have "distinct (frames ?p' @ [addr ?L])" unfolding fp' by (rule distinct_shrink [OF dts M(2)]) (use M aL in auto)
    moreover have "set (frames ?p' @ [addr ?L]) \<subseteq> set (frames (PInner w ts))"
      unfolding fp' fts using M(1) aL by (auto simp del: addr_in_frames)
    then have "set (frames ?p' @ [addr ?L]) \<inter> set (free_list b) = {}" using pt I(7) by blast
    ultimately show ?thesis using I(4) by (simp add: b'_def del: frames.simps)
  qed
  have fr: "set (frames ?p') \<union> set (free_list b') \<subseteq> set (frames (PInner w ts)) \<union> set (free_list b)"
    using M(1) unfolding fp' fts by (auto simp: b'_def)
  have st: "tree_step b (PInner w ts) b'"
  proof -
    have "addr ?R \<in> set (frames (PInner w ts))" "w \<in> set (frames (PInner w ts))" using aL(2) by (simp_all only: fts) auto
    then show ?thesis using I(5) pt by (auto simp: tree_step_def root_bf_def b'_def simp del: frames.simps)
  qed
  have mm: "map (flat ?st) ?xs = map (flat (bfs b)) ?xs" "map (flat ?st) ?ys = map (flat (bfs b)) ?ys"
    using sib by (auto intro!: flat_cong simp del: fun_upd_apply)
  have "flat ?st ?p' = flat (bfs b) (PInner w ts)"
    using arg_cong [OF ts, of "\<lambda>ts. concat (map (flat (bfs b)) ts)"] MP
    by (simp only: flat_inner map_append list.map concat_append concat.simps mm append_assoc)
  then show ?thesis
    using btree_replace [OF inv P st okp' _ d' fr] by (auto simp: b'_def simp del: fun_upd_apply frames.simps)
qed

lemma merge_pages_ok:
  assumes inv: "btree_inv b t" and P: "sub (bfs b) (height b) t None None (Suc h') (PInner w ts) l u"
    and j: "Suc j < length ts"
    and und: "freeSpaceAfterCompaction (bfs b (addr (ts ! j))) \<ge> underFullSize"
      "freeSpaceAfterCompaction (bfs b (addr (ts ! Suc j))) \<ge> underFullSize"
  defines "r \<equiv> merge_pages b w j (addr (ts ! j)) (addr (ts ! Suc j))"
  shows "\<exists>t' ts'. btree_inv (snd r) t' \<and> entries (snd r) t' = entries b t \<and>
      sub (bfs (snd r)) (height (snd r)) t' None None (Suc h') (PInner w ts') l u"
    "\<not> fst r \<Longrightarrow> snd r = b" "height (snd r) = height b" "bulk_insert (snd r) = bulk_insert b"
proof -
  note I = btree_invD [OF inv]
  let ?P = "bfs b w" and ?L = "ts ! j" and ?R = "ts ! Suc j"
  let ?n = "bfs b (addr ?L)" and ?r = "bfs b (addr ?R)" and ?ks = "keys (bfs b w)"
  obtain m P' n' where nm: "node_merge ?n j ?P ?r = (m, P', n')" by (metis prod_cases3)
  note C = merge_children [OF inv P j und, unfolded nm prod.case]
  have unch: "r = (False, b)" if "\<not> m"
    using that C nm by (simp add: r_def merge_pages_def set_page_def)
  show "height (snd r) = height b" "bulk_insert (snd r) = bulk_insert b" "\<not> fst r \<Longrightarrow> snd r = b"
    using nm unch by (cases m; simp add: r_def merge_pages_def set_page_def reclaimPage_def)+
  show "\<exists>t' ts'. btree_inv (snd r) t' \<and> entries (snd r) t' = entries b t \<and>
      sub (bfs (snd r)) (height (snd r)) t' None None (Suc h') (PInner w ts') l u"
  proof (cases m)
    case False
    then show ?thesis using unch inv P by auto
  next
    case True
    have P': "P' = removeSlot ?P j" and mo: "merge_ok ?n ?r (?ks ! j) n'" using C True by auto
    have "snd r = b\<lparr>bfs := (bfs b)(w := removeSlot ?P j, addr ?R := n'), free_list := addr ?L # free_list b\<rparr>"
      using nm True P' by (simp add: r_def merge_pages_def set_page_def reclaimPage_def)
    then show ?thesis using merge_success [OF inv P j mo] by simp
  qed
qed

section \<open>tryMerge\<close>

text \<open>What every step of \<open>tryMerge\<close> keeps, for the page in frame \<open>w\<close> at height \<open>h'\<close>.\<close>

definition merge_keeps :: "btree \<Rightarrow> ptree \<Rightarrow> nat \<Rightarrow> u64 \<Rightarrow> btree \<Rightarrow> bool" where
  "merge_keeps b t h' w b' \<longleftrightarrow>
     height b' = height b \<and> bulk_insert b' = bulk_insert b \<and>
     (\<exists>t' p l u. btree_inv b' t' \<and> entries b' t' = entries b t \<and>
        sub (bfs b') (height b') t' None None h' p l u \<and> addr p = w)"

lemma merge_level_ok:
  assumes inv: "btree_inv b t" and P: "sub (bfs b) (height b) t None None (Suc h') (PInner w ts) l u"
    and j: "j < count (bfs b w)" and und: "freeSpaceAfterCompaction (bfs b (addr (ts ! j))) \<ge> underFullSize"
  shows "merge_keeps b t (Suc h') w (snd (merge_level b w (addr (ts ! j)) (int j)))"
proof -
  note I = btree_invD [OF inv]
  have n: "inner_ok (bfs b w) l u (map addr ts)" using sub_ok [OF P I(1)] by simp
  have lt: "length ts = Suc (count (bfs b w))" using n by (simp add: inner_ok_def)
  have ch: "getChild (bfs b w) i = addr (ts ! i)" if "i < count (bfs b w)" for i
    using inner_child [OF n, of i] that lt by (simp add: child_at_def)
  have refl: "merge_keeps b t (Suc h') w b" using inv P unfolding merge_keeps_def by (metis addr.simps(2))
  have pages: "merge_keeps b t (Suc h') w (snd (merge_pages b w i (addr (ts ! i)) (addr (ts ! Suc i))))"
      "\<not> fst (merge_pages b w i (addr (ts ! i)) (addr (ts ! Suc i))) \<Longrightarrow> snd (merge_pages b w i (addr (ts ! i)) (addr (ts ! Suc i))) = b"
    if "Suc i < length ts" "freeSpaceAfterCompaction (bfs b (addr (ts ! i))) \<ge> underFullSize"
      "freeSpaceAfterCompaction (bfs b (addr (ts ! Suc i))) \<ge> underFullSize" for i
    using merge_pages_ok [OF inv P that] unfolding merge_keeps_def by (metis addr.simps(2))+
  have left: "merge_keeps b t (Suc h') w (snd (merge_left b w (addr (ts ! j)) (int j)))"
      "\<not> fst (merge_left b w (addr (ts ! j)) (int j)) \<Longrightarrow> snd (merge_left b w (addr (ts ! j)) (int j)) = b" if j0: "0 < j"
  proof -
    obtain i where i: "j = Suc i" using j0 by (cases j) auto
    then have e: "nat (int j - 1) = i" by simp
    show "merge_keeps b t (Suc h') w (snd (merge_left b w (addr (ts ! j)) (int j)))"
      "\<not> fst (merge_left b w (addr (ts ! j)) (int j)) \<Longrightarrow> snd (merge_left b w (addr (ts ! j)) (int j)) = b"
      using pages [of i] und refl j lt ch [of i] unfolding merge_left_def e unfolding i
      by (auto simp: Let_def not_less)
  qed
  have right: "merge_keeps b t (Suc h') w (snd (merge_right b w (addr (ts ! j)) (int j)))" if "Suc j < count (bfs b w)"
    using pages [of j] und refl that lt ch [of "Suc j"] by (auto simp: merge_right_def Let_def not_less nat_add_distrib)
  show ?thesis
  proof (cases "0 < j")
    case True
    obtain m b1 where m: "merge_left b w (addr (ts ! j)) (int j) = (m, b1)" by fastforce
    show ?thesis using left [OF True] right refl True m by (auto simp: merge_level_def)
  next
    case False
    then show ?thesis using right refl by (auto simp: merge_level_def)
  qed
qed

lemma tryMerge_ok:
  assumes "btree_inv b t" "sub (bfs b) (height b) t None None h' p l u"
  shows "\<exists>r b' t'. tryMerge b (addr p) = Some (Ret r, b') \<and> btree_inv b' t' \<and> entries b' t' = entries b t \<and>
    height b' = height b \<and> bulk_insert b' = bulk_insert b"
  using assms
proof (induction "height b - h'" arbitrary: b t h' p l u rule: less_induct)
  case less
  note inv = less.prems(1) and p = less.prems(2)
  note I = btree_invD [OF inv]
  show ?case
  proof (cases "p = t")
    case True
    then have "findParent b (addr p) = Some (Ret (meta_node_bf b, -2))" using I(2) by (simp add: findParent_def)
    then show ?thesis using inv by (subst tryMerge.simps) auto
  next
    case False
    then obtain w ts j l' u' where P: "sub (bfs b) (height b) t None None (Suc h') (PInner w ts) l' u'" "j < length ts" "ts ! j = p"
      using sub_parent [OF p] by blast
    have fp: "findParent b (addr p) = Some (Ret (w, int j))" using findParent_ok [OF inv P(1,2)] P(3) by simp
    have w: "w \<noteq> meta_node_bf b" using sub_frames [OF P(1)] I(5) by auto
    show ?thesis
    proof (cases "freeSpaceAfterCompaction (bfs b (addr p)) < underFullSize \<or> int j \<ge> int (count (bfs b w))")
      case True
      then show ?thesis using fp w inv by (subst tryMerge.simps) auto
    next
      case False
      then have jc: "j < count (bfs b w)" and und: "freeSpaceAfterCompaction (bfs b (addr (ts ! j))) \<ge> underFullSize"
        using P(3) by auto
      obtain m b1 where m: "merge_level b w (addr p) (int j) = (m, b1)" by fastforce
      have k: "merge_keeps b t (Suc h') w b1" using merge_level_ok [OF inv P(1) jc und] P(3) m by simp
      then obtain t1 q l1 u1 where K: "height b1 = height b" "bulk_insert b1 = bulk_insert b" "btree_inv b1 t1"
          "entries b1 t1 = entries b t" "sub (bfs b1) (height b1) t1 None None (Suc h') q l1 u1" "addr q = w"
        by (auto simp: merge_keeps_def)
      have step: "tryMerge b (addr p) = (if freeSpaceAfterCompaction (bfs b1 w) \<ge> underFullSize then
          Option.bind (tryMerge b1 w) (\<lambda>(_, b). Some (Ret m, b)) else Some (Ret m, b1))"
        using fp w False m by (subst tryMerge.simps) auto
      have "height b1 - Suc h' < height b - h'" using K(1) sub_height [OF P(1)] by simp
      from less.hyps [OF this K(3,5)] show ?thesis using K step by (auto split: if_splits)
    qed
  qed
qed

end
