(* ===== verification/BTreeIterator.thy ===== *)
theory BTreeIterator
  imports BTreeMerge
begin

text \<open>
  The iterators of a B-tree (storage/btree/core/BTreeGenericIterator.hpp): \<open>BTreePessimisticIterator\<close> and
  \<open>BTreeExclusiveIterator\<close>, run by one worker. The scratch buffer that the C++ iterator keeps for fence keys is written
  and read within one call; it is the list of bytes passed on here. An operation has the value \<open>None\<close> when it does not
  return. Where the buffer manager has no free frame, \<open>splitForKey\<close> repeats the attempt until the page provider has
  evicted a page; the model returns to its caller instead, with \<open>Jump\<close> for \<open>still waiting\<close>.
\<close>

section \<open>Positioning\<close>

record iter =
  it_leaf :: u64
  cur :: int

definition new_iter :: iter where
  "new_iter = \<lparr>it_leaf = 0, cur = -1\<rparr>"

definition leaf_of :: "btree \<Rightarrow> iter \<Rightarrow> btree_node" where
  "leaf_of b it = bfs b (it_leaf it)"

text \<open>Without other workers \<open>findLeafAndLatch\<close> succeeds at its first attempt.\<close>

definition findLeafAndLatch :: "btree \<Rightarrow> bytes \<Rightarrow> u64 option" where
  "findLeafAndLatch b key = findLeafCanJump b key"

definition find_unless_here :: "btree \<Rightarrow> iter \<Rightarrow> bytes \<Rightarrow> iter option" where
  "find_unless_here b it key =
     (if cur it = -1 \<or> compareKeyWithBoundaries (leaf_of b it) key \<noteq> 0
      then map_option (\<lambda>w. it\<lparr>it_leaf := w\<rparr>) (findLeafAndLatch b key)
      else Some it)"

definition seekExact :: "btree \<Rightarrow> iter \<Rightarrow> bytes \<Rightarrow> (OP_RESULT \<times> iter) option" where
  "seekExact b it key =
     Option.bind (find_unless_here b it key) (\<lambda>it.
       let pos = fst (lowerBound True (leaf_of b it) key) in
       Some (if pos \<noteq> -1 then OK else NOT_FOUND, it\<lparr>cur := pos\<rparr>))"

text \<open>The copy of a fence key; an absent fence has length 0.\<close>

definition fence_bytes :: "btree_node \<Rightarrow> FenceKey \<Rightarrow> bytes" where
  "fence_bytes n f = read_mem (page n) (f_offset f) (f_length f)"

text \<open>\<open>next\<close> constructs the smallest key above the upper fence of the leaf and looks up its leaf.\<close>

partial_function (option) iter_next :: "btree \<Rightarrow> iter \<Rightarrow> (OP_RESULT \<times> iter) option" where
  "iter_next b it =
     (let n = leaf_of b it in
      if cur it + 1 < int (count n) then Some (OK, it\<lparr>cur := cur it + 1\<rparr>)
      else if f_length (upper_fence n) = 0 then Some (NOT_FOUND, it)
      else
        (let buffer = fence_bytes n (upper_fence n) @ [0] in
         case findLeafAndLatch b buffer of
           None \<Rightarrow> None
         | Some w \<Rightarrow>
             (let it = it\<lparr>it_leaf := w\<rparr>; n = leaf_of b it in
              if count n = 0 then iter_next b it
              else
                (let pos = fst (lowerBound False n buffer); it = it\<lparr>cur := pos\<rparr> in
                 if pos = int (count n) then iter_next b it else Some (OK, it)))))"

text \<open>\<open>prev\<close> looks up the leaf of the lower fence.\<close>

partial_function (option) iter_prev :: "btree \<Rightarrow> iter \<Rightarrow> (OP_RESULT \<times> iter) option" where
  "iter_prev b it =
     (let n = leaf_of b it in
      if cur it - 1 \<ge> 0 then Some (OK, it\<lparr>cur := cur it - 1\<rparr>)
      else if f_length (lower_fence n) = 0 then Some (NOT_FOUND, it)
      else
        (let buffer = fence_bytes n (lower_fence n) in
         case findLeafAndLatch b buffer of
           None \<Rightarrow> None
         | Some w \<Rightarrow>
             (let it = it\<lparr>it_leaf := w\<rparr>; n = leaf_of b it in
              if count n = 0 then iter_prev b it
              else
                (let (pos, is_equal) = lowerBound False n buffer; it = it\<lparr>cur := pos\<rparr> in
                 if is_equal then Some (OK, it)
                 else if pos > 0 then iter_prev b (it\<lparr>cur := pos - 1\<rparr>)
                 else iter_prev b it))))"

definition seek :: "btree \<Rightarrow> iter \<Rightarrow> bytes \<Rightarrow> (OP_RESULT \<times> iter) option" where
  "seek b it key =
     Option.bind (find_unless_here b it key) (\<lambda>it.
       let pos = fst (lowerBound False (leaf_of b it) key); it = it\<lparr>cur := pos\<rparr> in
       if pos < int (count (leaf_of b it)) then Some (OK, it) else iter_next b it)"

definition seekForPrev :: "btree \<Rightarrow> iter \<Rightarrow> bytes \<Rightarrow> (OP_RESULT \<times> iter) option" where
  "seekForPrev b it key =
     Option.bind (find_unless_here b it key) (\<lambda>it.
       let (pos, is_equal) = lowerBound False (leaf_of b it) key; it = it\<lparr>cur := pos\<rparr> in
       if is_equal then Some (OK, it)
       else if pos = 0 then iter_prev b it
       else Some (OK, it\<lparr>cur := pos - 1\<rparr>))"

definition nextLeaf :: "btree \<Rightarrow> iter \<Rightarrow> (bool \<times> iter) option" where
  "nextLeaf b it =
     (let n = leaf_of b it; key = fence_bytes n (upper_fence n) @ [0] in
      if f_length (upper_fence n) = 0 then Some (False, it)
      else Option.bind (findLeafAndLatch b key) (\<lambda>w.
        Some (True, \<lparr>it_leaf = w, cur = fst (lowerBound False (bfs b w) key)\<rparr>)))"

definition prevLeaf :: "btree \<Rightarrow> iter \<Rightarrow> (bool \<times> iter) option" where
  "prevLeaf b it =
     (let n = leaf_of b it; key = fence_bytes n (lower_fence n) in
      if f_length (lower_fence n) = 0 then Some (False, it)
      else Option.bind (findLeafAndLatch b key) (\<lambda>w.
        let pos = fst (lowerBound False (bfs b w) key) in
        Some (True, \<lparr>it_leaf = w, cur = if pos = int (count (bfs b w)) then pos - 1 else pos\<rparr>)))"

definition toMaxKeyInNode :: "btree \<Rightarrow> iter \<Rightarrow> iter" where
  "toMaxKeyInNode b it = it\<lparr>cur := int (count (leaf_of b it)) - 1\<rparr>"

definition iter_key :: "btree \<Rightarrow> iter \<Rightarrow> bytes" where
  "iter_key b it = copyFullKey (leaf_of b it) (nat (cur it))"

definition iter_value :: "btree \<Rightarrow> iter \<Rightarrow> bytes" where
  "iter_value b it = getPayload (leaf_of b it) (nat (cur it))"

section \<open>The exclusive iterator\<close>

definition seekToInsert :: "btree \<Rightarrow> iter \<Rightarrow> bytes \<Rightarrow> (OP_RESULT \<times> iter) option" where
  "seekToInsert b it key =
     Option.bind (find_unless_here b it key) (\<lambda>it.
       let (pos, is_equal) = lowerBound False (leaf_of b it) key in
       Some (if is_equal then DUPLICATE else OK, it\<lparr>cur := pos\<rparr>))"

definition canInsertInCurrentNode :: "btree \<Rightarrow> iter \<Rightarrow> bytes \<Rightarrow> nat \<Rightarrow> OP_RESULT" where
  "canInsertInCurrentNode b it key value_length =
     (if canInsert (leaf_of b it) (length key) value_length then OK else NOT_ENOUGH_SPACE)"

definition insertInCurrentNode :: "btree \<Rightarrow> iter \<Rightarrow> bytes \<Rightarrow> bytes \<Rightarrow> iter \<times> btree" where
  "insertInCurrentNode b it key value =
     (let (pos, n) = node_insert (leaf_of b it) key value in
      (it\<lparr>cur := int pos\<rparr>, set_page b (it_leaf it) n))"

definition keyFitsInCurrentNode :: "btree \<Rightarrow> iter \<Rightarrow> bytes \<Rightarrow> bool" where
  "keyFitsInCurrentNode b it key \<longleftrightarrow> compareKeyWithBoundaries (leaf_of b it) key = 0"

text \<open>One attempt of \<open>splitForKey\<close>, which is also \<open>splitForKeyMightFail\<close>: whether \<open>trySplit\<close> returned, and the state.\<close>

definition splitForKey :: "btree \<Rightarrow> iter \<Rightarrow> bytes \<Rightarrow> (bool \<times> iter \<times> btree) option" where
  "splitForKey b it key =
     Option.bind
       (if cur it = -1 \<or> \<not> keyFitsInCurrentNode b it key
        then map_option (\<lambda>w. it\<lparr>it_leaf := w\<rparr>) (findLeafCanJump b key) else Some it) (\<lambda>it.
     Option.bind (trySplit b (it_leaf it) (-1)) (\<lambda>(r, b). Some (r, it\<lparr>cur := -1\<rparr>, b)))"

partial_function (option) insertKV :: "btree \<Rightarrow> iter \<Rightarrow> bytes \<Rightarrow> bytes \<Rightarrow> (OP_RESULT jmu \<times> iter \<times> btree) option" where
  "insertKV b it key value =
     (case seekToInsert b it key of
        None \<Rightarrow> None
      | Some (ret, it) \<Rightarrow>
          (if ret \<noteq> OK then Some (Ret ret, it, b)
           else if canInsertInCurrentNode b it key (length value) = NOT_ENOUGH_SPACE then
             (case splitForKey b it key of
                None \<Rightarrow> None
              | Some (r, it, b) \<Rightarrow> if r then insertKV b it key value else Some (Jump, it, b))
           else
             (let (it, b) = insertInCurrentNode b it key value in Some (Ret OK, it, b))))"

definition insertKVMightFail :: "btree \<Rightarrow> iter \<Rightarrow> bytes \<Rightarrow> bytes \<Rightarrow> (OP_RESULT \<times> iter \<times> btree) option" where
  "insertKVMightFail b it key value =
     Option.bind (seekToInsert b it key) (\<lambda>(ret, it).
       if ret \<noteq> OK then Some (ret, it, b)
       else if canInsertInCurrentNode b it key (length value) = NOT_ENOUGH_SPACE then Some (NOT_ENOUGH_SPACE, it, b)
       else (let (it, b) = insertInCurrentNode b it key value in Some (OK, it, b)))"

definition removeCurrent :: "btree \<Rightarrow> iter \<Rightarrow> OP_RESULT \<times> btree" where
  "removeCurrent b it =
     (if \<not> (cur it \<ge> 0 \<and> cur it < int (count (leaf_of b it))) then (OTHER, b)
      else (OK, set_page b (it_leaf it) (removeSlot (leaf_of b it) (nat (cur it)))))"

partial_function (option) replaceKV :: "btree \<Rightarrow> iter \<Rightarrow> bytes \<Rightarrow> bytes \<Rightarrow> (OP_RESULT jmu \<times> iter \<times> btree) option" where
  "replaceKV b it key value =
     (case seekExact b it key of
        None \<Rightarrow> None
      | Some (ret, it) \<Rightarrow>
          (if ret \<noteq> OK then Some (Ret ret, it, b)
           else
             (let b = snd (removeCurrent b it) in
              if canInsertInCurrentNode b it key (length value) \<noteq> OK then
                (case splitForKey b it key of
                   None \<Rightarrow> None
                 | Some (r, it, b) \<Rightarrow> if r then replaceKV b it key value else Some (Jump, it, b))
              else
                (let (it, b) = insertInCurrentNode b it key value in Some (Ret OK, it, b)))))"

definition removeKV :: "btree \<Rightarrow> iter \<Rightarrow> bytes \<Rightarrow> (OP_RESULT \<times> iter \<times> btree) option" where
  "removeKV b it key =
     Option.bind (seekExact b it key) (\<lambda>(ret, it).
       if ret = OK then Some (OK, it, set_page b (it_leaf it) (removeSlot (leaf_of b it) (nat (cur it))))
       else Some (ret, it, b))"

definition mergeIfNeeded :: "btree \<Rightarrow> iter \<Rightarrow> (iter \<times> btree) option" where
  "mergeIfNeeded b it =
     (if freeSpaceAfterCompaction (leaf_of b it) \<ge> underFullSize
      then Option.bind (tryMerge b (it_leaf it)) (\<lambda>(_, b). Some (it\<lparr>cur := -1\<rparr>, b))
      else Some (it, b))"

section \<open>Contention management\<close>

record ContentionTracker =
  restarts_counter :: nat
  access_counter :: nat
  last_modified_pos :: int

text \<open>The flags \<open>cm_update_on\<close>, \<open>cm_period\<close> (exponents of 2) and \<open>cm_slowpath_threshold\<close>.\<close>

record cm_flags =
  cm_update_on :: nat
  cm_period :: nat
  cm_slowpath_threshold :: nat

text \<open>\<open>contentionSplit\<close> draws a random number; \<open>faced\<close> says whether the latch was contended. A jump out of \<open>trySplit\<close> is
  caught.\<close>

definition contentionSplit ::
  "cm_flags \<Rightarrow> u64 \<Rightarrow> bool \<Rightarrow> ContentionTracker \<Rightarrow> btree \<Rightarrow> iter \<Rightarrow> (ContentionTracker \<times> iter \<times> btree) option" where
  "contentionSplit flags random_number faced tr b it =
     (if unat random_number mod 2 ^ cm_update_on flags = 0 then
        (let last_pos = last_modified_pos tr;
             tr = \<lparr>restarts_counter = u32_of (int (restarts_counter tr) + (if faced then 1 else 0)),
                   access_counter = u32_of (int (access_counter tr) + 1), last_modified_pos = cur it\<rparr> in
         if unat random_number mod 2 ^ cm_period flags = 0 then
           (let normalized_restarts = 100 * restarts_counter tr div access_counter tr;
                tr = tr\<lparr>restarts_counter := 0, access_counter := 0\<rparr> in
            if last_pos \<noteq> cur it \<and> normalized_restarts \<ge> cm_slowpath_threshold flags \<and> count (leaf_of b it) > 2
            then Option.bind (trySplit b (it_leaf it) (min last_pos (cur it))) (\<lambda>(_, b). Some (tr, it\<lparr>cur := -1\<rparr>, b))
            else Some (tr, it, b))
         else Some (tr, it, b))
      else Some (tr, it, b))"

end
