(* ===== verification/BTreeLL.thy ===== *)
theory BTreeLL
  imports BTreeIterator
begin

text \<open>
  \<open>BTreeLL\<close> (storage/btree/BTreeLL.cpp): the key-value operations that the adapters call. The payload that a lookup hands
  to its callback is part of the result. A callback that changes the payload in place is a function from the old bytes
  to the new ones; a scan's callback is a step function on a state of the caller. The write-ahead log and the page GSNs
  are left out.
\<close>

section \<open>Point operations\<close>

definition ll_lookup :: "btree \<Rightarrow> bytes \<Rightarrow> (OP_RESULT \<times> bytes option) option" where
  "ll_lookup b key =
     Option.bind (findLeafCanJump b key) (\<lambda>w.
       let n = bfs b w; pos = fst (lowerBound True n key) in
       Some (if pos \<noteq> -1 then (OK, Some (getPayload n (nat pos))) else (NOT_FOUND, None)))"

definition lookupForUpdate :: "btree \<Rightarrow> bytes \<Rightarrow> (bytes \<Rightarrow> bytes) \<Rightarrow> (OP_RESULT \<times> bytes option \<times> btree) option" where
  "lookupForUpdate b key callback =
     Option.bind (findLeafCanJump b key) (\<lambda>w.
       let n = bfs b w; pos = fst (lowerBound True n key) in
       Some (if pos \<noteq> -1
             then (OK, Some (getPayload n (nat pos)),
                   set_page b w (writePayload n (nat pos) (callback (getPayload n (nat pos)))))
             else (NOT_FOUND, None, b)))"

text \<open>\<open>ensure\<close> stops the program when the iterator returns something unexpected; \<open>insertKV\<close> only returns \<open>OK\<close> or
  \<open>DUPLICATE\<close>, \<open>removeCurrent\<close> after a successful seek only \<open>OK\<close>.\<close>

definition ll_insert :: "btree \<Rightarrow> bytes \<Rightarrow> bytes \<Rightarrow> (OP_RESULT jmu \<times> btree) option" where
  "ll_insert b key value =
     Option.bind (insertKV b new_iter key value) (\<lambda>(ret, _, b). Some (ret, b))"

definition insert_might_fail :: "btree \<Rightarrow> bytes \<Rightarrow> bytes \<Rightarrow> (OP_RESULT \<times> btree) option" where
  "insert_might_fail b key value =
     Option.bind (insertKVMightFail b new_iter key value) (\<lambda>(ret, _, b). Some (ret, b))"

definition upsert :: "btree \<Rightarrow> bytes \<Rightarrow> bytes \<Rightarrow> (OP_RESULT jmu \<times> btree) option" where
  "upsert b key value =
     Option.bind (seekExact b new_iter key) (\<lambda>(ret, it).
     Option.bind (if ret = NOT_FOUND then insertKV b it key value else replaceKV b it key value) (\<lambda>(ret, _, b).
       Some (ret, b)))"

definition updateSameSize ::
  "cm_flags \<Rightarrow> u64 \<Rightarrow> bool \<Rightarrow> ContentionTracker \<Rightarrow> btree \<Rightarrow> bytes \<Rightarrow> (bytes \<Rightarrow> bytes) \<Rightarrow> (OP_RESULT \<times> btree) option" where
  "updateSameSize flags random_number faced tr b key callback =
     Option.bind (seekExact b new_iter key) (\<lambda>(ret, it).
       if ret \<noteq> OK then Some (ret, b)
       else
         (let n = leaf_of b it; current_value = iter_value b it;
              b = set_page b (it_leaf it) (writePayload n (nat (cur it)) (callback current_value)) in
          Option.bind (contentionSplit flags random_number faced tr b it) (\<lambda>(_, _, b). Some (OK, b))))"

definition ll_remove :: "btree \<Rightarrow> bytes \<Rightarrow> (OP_RESULT \<times> btree) option" where
  "ll_remove b key =
     Option.bind (seekExact b new_iter key) (\<lambda>(ret, it).
       if ret \<noteq> OK then Some (ret, b)
       else
         (let (ret, b) = removeCurrent b it in
          Option.bind (mergeIfNeeded b it) (\<lambda>(_, b). Some (OK, b))))"

definition remove_no_merge :: "btree \<Rightarrow> bytes \<Rightarrow> bool \<Rightarrow> (OP_RESULT \<times> btree) option" where
  "remove_no_merge b key no_merge =
     Option.bind (seekExact b new_iter key) (\<lambda>(ret, it).
       if ret \<noteq> OK then Some (ret, b)
       else
         (let (ret, b) = removeCurrent b it in
          if \<not> no_merge \<or> count (leaf_of b it) \<le> 1
          then Option.bind (mergeIfNeeded b it) (\<lambda>(_, b). Some (OK, b))
          else Some (OK, b)))"

section \<open>Scans\<close>

partial_function (option) scanAsc_loop ::
  "btree \<Rightarrow> ('s \<Rightarrow> bytes \<Rightarrow> bytes \<Rightarrow> u64 \<Rightarrow> bool \<times> 's) \<Rightarrow> 's \<Rightarrow> iter \<Rightarrow> (OP_RESULT \<times> 's) option" where
  "scanAsc_loop b callback s it =
     (let (continue, s) = callback s (iter_key b it) (iter_value b it) (it_leaf it) in
      if \<not> continue then Some (OK, s)
      else case iter_next b it of
        None \<Rightarrow> None
      | Some (ret, it) \<Rightarrow> if ret \<noteq> OK then Some (NOT_FOUND, s) else scanAsc_loop b callback s it)"

text \<open>The variant whose callback also gets the leaf's frame.\<close>

definition scanAsc_frame ::
  "btree \<Rightarrow> bytes \<Rightarrow> ('s \<Rightarrow> bytes \<Rightarrow> bytes \<Rightarrow> u64 \<Rightarrow> bool \<times> 's) \<Rightarrow> 's \<Rightarrow> (OP_RESULT \<times> 's) option" where
  "scanAsc_frame b start_key callback s =
     Option.bind (seek b new_iter start_key) (\<lambda>(ret, it).
       if ret \<noteq> OK then Some (ret, s) else scanAsc_loop b callback s it)"

definition scanAsc ::
  "btree \<Rightarrow> bytes \<Rightarrow> ('s \<Rightarrow> bytes \<Rightarrow> bytes \<Rightarrow> bool \<times> 's) \<Rightarrow> 's \<Rightarrow> (OP_RESULT \<times> 's) option" where
  "scanAsc b start_key callback s = scanAsc_frame b start_key (\<lambda>s k v _. callback s k v) s"

partial_function (option) scanDesc_loop ::
  "btree \<Rightarrow> ('s \<Rightarrow> bytes \<Rightarrow> bytes \<Rightarrow> bool \<times> 's) \<Rightarrow> 's \<Rightarrow> iter \<Rightarrow> (OP_RESULT \<times> 's) option" where
  "scanDesc_loop b callback s it =
     (let (continue, s) = callback s (iter_key b it) (iter_value b it) in
      if \<not> continue then Some (OK, s)
      else case iter_prev b it of
        None \<Rightarrow> None
      | Some (ret, it) \<Rightarrow> if ret \<noteq> OK then Some (NOT_FOUND, s) else scanDesc_loop b callback s it)"

definition scanDesc ::
  "btree \<Rightarrow> bytes \<Rightarrow> ('s \<Rightarrow> bytes \<Rightarrow> bytes \<Rightarrow> bool \<times> 's) \<Rightarrow> 's \<Rightarrow> (OP_RESULT \<times> 's) option" where
  "scanDesc b start_key callback s =
     Option.bind (seekForPrev b new_iter start_key) (\<lambda>(ret, it).
       if ret \<noteq> OK then Some (ret, s) else scanDesc_loop b callback s it)"

text \<open>\<open>scanAscExclusive\<close>: the callback may change the payload in place.\<close>

partial_function (option) scanAscExclusive_loop ::
  "btree \<Rightarrow> ('s \<Rightarrow> bytes \<Rightarrow> bytes \<Rightarrow> bool \<times> bytes \<times> 's) \<Rightarrow> 's \<Rightarrow> iter \<Rightarrow> (OP_RESULT \<times> 's \<times> btree) option" where
  "scanAscExclusive_loop b callback s it =
     (let (continue, payload, s) = callback s (iter_key b it) (iter_value b it);
          b = set_page b (it_leaf it) (writePayload (leaf_of b it) (nat (cur it)) payload) in
      if \<not> continue then Some (OK, s, b)
      else case iter_next b it of
        None \<Rightarrow> None
      | Some (ret, it) \<Rightarrow> if ret \<noteq> OK then Some (NOT_FOUND, s, b) else scanAscExclusive_loop b callback s it)"

definition scanAscExclusive ::
  "btree \<Rightarrow> bytes \<Rightarrow> ('s \<Rightarrow> bytes \<Rightarrow> bytes \<Rightarrow> bool \<times> bytes \<times> 's) \<Rightarrow> 's \<Rightarrow> (OP_RESULT \<times> 's \<times> btree) option" where
  "scanAscExclusive b start_key callback s =
     Option.bind (seek b new_iter start_key) (\<lambda>(ret, it).
       if ret \<noteq> OK then Some (ret, s, b) else scanAscExclusive_loop b callback s it)"

text \<open>\<open>findLeafNeighbouringNodeBoundary\<close>: the largest key of the leaf so many leaves to the right, and whether the end of
  the tree was reached. The result goes to \<open>processor\<close>; the start key comes first, and a copied key overwrites as many
  bytes as it has.\<close>

fun boundary_loop :: "btree \<Rightarrow> nat \<Rightarrow> bytes \<Rightarrow> bool \<Rightarrow> iter \<Rightarrow> (bytes \<times> bool) option" where
  "boundary_loop b 0 max_key end it = Some (max_key, end)"
| "boundary_loop b (Suc i) max_key end it =
     (let it = toMaxKeyInNode b it; max_key = iter_key b it @ drop (length (iter_key b it)) max_key in
      Option.bind (iter_next b it) (\<lambda>(ret, it). boundary_loop b i max_key (end \<or> ret \<noteq> OK) it))"

definition findLeafNeighbouringNodeBoundary :: "btree \<Rightarrow> bytes \<Rightarrow> nat \<Rightarrow> (bytes \<times> bool) option" where
  "findLeafNeighbouringNodeBoundary b start_key num_to_the_right =
     Option.bind (seek b new_iter start_key) (\<lambda>(ret, it).
       if ret = NOT_FOUND then Some (start_key, True)
       else boundary_loop b num_to_the_right start_key False it)"

end
