(* ===== verification/BTreeMap.thy ===== *)
theory BTreeMap
  imports BTreeLL
begin

text \<open>
  The operations of \<open>BTreeLL\<close> implement a finite map from keys to payloads: on a tree that satisfies the invariant each
  operation returns, answers as the map would, and leaves a tree for the updated map.
\<close>

section \<open>The map of a tree\<close>

definition tree_map :: "btree \<Rightarrow> ptree \<Rightarrow> bytes \<rightharpoonup> bytes" where
  "tree_map b t = map_of (entries b t)"

definition is_btree :: "btree \<Rightarrow> (bytes \<rightharpoonup> bytes) \<Rightarrow> bool" where
  "is_btree b m \<longleftrightarrow> (\<exists>t. btree_inv b t \<and> tree_map b t = m)"

lemma tree_map_leaf: "btree_inv b t \<Longrightarrow> leaf_for b t k w l u \<Longrightarrow> tree_map b t k = map_of (content (bfs b w)) k"
  unfolding tree_map_def by (rule leaf_map_of)

lemma leaf_put:
  assumes inv: "btree_inv b t" and lf: "leaf_for b t k w l u" and n: "leaf_ok n l u"
    and m: "map_of (content n) = (map_of (content (bfs b w)))(k := x)"
  shows "\<exists>t'. btree_inv (set_page b w n) t' \<and> tree_map (set_page b w n) t' = (tree_map b t)(k := x) \<and>
    sub (bfs (set_page b w n)) (height b) t' None None 1 (PLeaf w) l u"
proof -
  have s: "sub (bfs b) (height b) t None None 1 (PLeaf w) l u" using lf by (simp add: leaf_for_def)
  obtain t' A B where U: "btree_inv (set_page b w n) t'" "entries b t = A @ content (bfs b w) @ B"
      "entries (set_page b w n) t' = A @ content n @ B" "sub (bfs (set_page b w n)) (height b) t' None None 1 (PLeaf w) l u"
    using btree_leaf_update [OF inv s n] by blast
  note F = leaf_for_facts [OF inv lf]
  have d: "distinct (map fst (A @ content (bfs b w) @ B))" using entries_distinct [OF inv] U(2) by simp
  have "k \<notin> fst ` set A" "k \<notin> fst ` set B"
  proof -
    have False if e: "e \<in> set A \<union> set B" "fst e = k" for e
    proof -
      have "e \<in> set (content (bfs b w))" by (rule F(6)) (use e F(3) U(2) in auto)
      then show False using d e(1) by (force simp: image_iff)
    qed
    then show "k \<notin> fst ` set A" "k \<notin> fst ` set B" by auto
  qed
  then have "map_of A k = None" "map_of B k = None" by (simp_all add: map_of_eq_None_iff)
  then have "map_of (A @ content n @ B) = (map_of (A @ content (bfs b w) @ B))(k := x)"
    by (auto simp: fun_eq_iff m map_add_def split: option.splits)
  then show ?thesis using U by (auto simp: tree_map_def)
qed

section \<open>Positioning an iterator\<close>

definition iter_at :: "btree \<Rightarrow> ptree \<Rightarrow> iter \<Rightarrow> bool" where
  "iter_at b t it \<longleftrightarrow> cur it = -1 \<or> (\<exists>l u. sub (bfs b) (height b) t None None 1 (PLeaf (it_leaf it)) l u)"

lemma iter_at_new [simp]: "iter_at b t new_iter" "cur it = -1 \<Longrightarrow> iter_at b t it"
  by (simp_all add: iter_at_def new_iter_def)

lemma leaf_for_iter_at: "leaf_for b t k (it_leaf it) l u \<Longrightarrow> iter_at b t it"
  by (auto simp: iter_at_def leaf_for_def)

lemma find_unless_here_ok:
  assumes inv: "btree_inv b t" and it: "iter_at b t it"
  shows "\<exists>it' l u. find_unless_here b it key = Some it' \<and> leaf_for b t key (it_leaf it') l u \<and> cur it' = cur it"
proof (cases "cur it = -1 \<or> compareKeyWithBoundaries (leaf_of b it) key \<noteq> 0")
  case True
  obtain w l u where "findLeafCanJump b key = Some w" "leaf_for b t key w l u" using findLeaf_ok [OF inv, of key] by blast
  then show ?thesis using True
    by (intro exI [of _ "it\<lparr>it_leaf := w\<rparr>"] exI [of _ l] exI [of _ u]) (simp add: find_unless_here_def findLeafAndLatch_def)
next
  case False
  then obtain l u where s: "sub (bfs b) (height b) t None None 1 (PLeaf (it_leaf it)) l u" using it by (auto simp: iter_at_def)
  have "leaf_ok (bfs b (it_leaf it)) l u" using sub_ok [OF s btree_invD(1) [OF inv]] by simp
  then have "between l u key"
    using False by (auto simp: compareKeyWithBoundaries_0 leaf_of_def leaf_ok_def page_fences_def in_fences_between)
  then have "leaf_for b t key (it_leaf it) l u" using s by (simp add: leaf_for_def)
  then show ?thesis using False by (auto simp: find_unless_here_def)
qed

lemma leaf_keys_map:
  assumes inv: "btree_inv b t" and lf: "leaf_for b t k w l u"
  shows "k \<in> set (keys (bfs b w)) \<longleftrightarrow> k \<in> dom (tree_map b t)" "wf_node (bfs b w)" "is_leaf (bfs b w)"
proof -
  show "k \<in> set (keys (bfs b w)) \<longleftrightarrow> k \<in> dom (tree_map b t)"
    using tree_map_leaf [OF inv lf] by (simp add: keys_def domIff map_of_eq_None_iff)
  show "wf_node (bfs b w)" "is_leaf (bfs b w)" using leaf_for_facts(1) [OF inv lf] by (simp_all add: leaf_ok_def)
qed

lemma content_at:
  assumes wf: "wf_node n" and k: "k \<in> set (keys n)"
  shows "rank (keys n) k < count n" "keys n ! rank (keys n) k = k"
    "map_of (content n) k = Some (getPayload n (rank (keys n) k))"
proof -
  have s: "sorted_wrt (<) (keys n)" using wf by (simp add: wf_node_def)
  show r: "rank (keys n) k < count n" "keys n ! rank (keys n) k = k" using rank_mem [OF s, of k] k by simp_all
  have "content n ! rank (keys n) k \<in> set (content n)" using r by simp
  moreover have "content n ! rank (keys n) k = (k, getPayload n (rank (keys n) k))"
    using r content_nth [OF r(1)] by (simp add: keys_def)
  ultimately show "map_of (content n) k = Some (getPayload n (rank (keys n) k))"
    using sorted_wrt_less_distinct [OF s] by (simp add: keys_def)
qed

lemma seekExact_ok:
  assumes inv: "btree_inv b t" and it: "iter_at b t it"
  shows "\<exists>it' l u. seekExact b it key = Some (if key \<in> dom (tree_map b t) then OK else NOT_FOUND, it') \<and>
    leaf_for b t key (it_leaf it') l u \<and>
    cur it' = (if key \<in> dom (tree_map b t) then int (rank (keys (leaf_of b it')) key) else -1)"
proof -
  obtain it' l u where F: "find_unless_here b it key = Some it'" "leaf_for b t key (it_leaf it') l u"
    using find_unless_here_ok [OF inv it] by blast
  note K = leaf_keys_map [OF inv F(2)]
  show ?thesis
    using F lowerBound_exact_spec [OF K(2), of key] K(1)
    by (intro exI [of _ "it'\<lparr>cur := fst (lowerBound True (leaf_of b it') key)\<rparr>"] exI [of _ l] exI [of _ u])
      (auto simp: seekExact_def leaf_of_def Let_def)
qed

section \<open>Insertion\<close>

lemma full_leaf_count:
  assumes n: "leaf_ok n l u" and lu: "opt_len l \<le> 8" "opt_len u \<le> 8" and k: "key_ok k" "in_fences n k" and v: "val_ok v"
    and full: "\<not> canInsert n (length k) (length v)"
  shows "count n > 2"
proof (rule ccontr)
  assume c: "\<not> count n > 2"
  have wf: "wf_node n" using n by (simp add: leaf_ok_def)
  have kl: "length k \<le> 8" and vl: "length v \<le> 4096" using k v by (auto simp: key_ok_def val_ok_def)
  have sm: "small (length k) (length v)" using kl vl by (simp add: small_def)
  have p: "prefix_length n \<le> length k" using in_fences_has_prefix [of n k] wf k(2) by (simp add: wf_node_def has_prefix_def)
  have sn: "spaceNeeded n (length k) (length v) \<le> 4114" using spaceNeeded_small [OF sm p] kl vl by simp
  have f: "getLowerFenceKey n = l" "getUpperFenceKey n = u" using n by (simp_all add: leaf_ok_def page_fences_def)
  have e: "entry_size (prefix_length n) e \<le> 4104" if "e \<in> set (content n)" for e
  proof -
    have "length (fst e) \<le> 8" "length (snd e) \<le> 4096" using n that by (auto simp: leaf_ok_def key_ok_def val_ok_def)
    then show ?thesis by (simp add: entry_size_def)
  qed
  have "total_size (prefix_length n) (content n) \<le> 4104 * count n"
    using sum_list_mono [of "content n" "entry_size (prefix_length n)" "\<lambda>_. 4104"] e by (simp add: sum_list_triv mult.commute)
  then have "space_used n \<le> 16 + 4104 * count n" using wf_space [OF wf] f lu by simp
  then show False using c full sn wf_freeSpaceAfterCompaction [OF wf]
    by (auto simp: canInsert_def hasEnoughSpaceFor_def slots_end_def)
qed

lemma leaf_insert:
  assumes n: "leaf_ok n l u" and k: "key_ok k" "in_fences n k" "k \<notin> set (keys n)" and v: "val_ok v"
    and ci: "canInsert n (length k) (length v)"
  shows "leaf_ok (snd (node_insert n k v)) l u"
    "map_of (content (snd (node_insert n k v))) = (map_of (content n))(k \<mapsto> v)"
proof -
  have wf: "wf_node n" using n by (simp add: leaf_ok_def)
  have sm: "small (length k) (length v)" using k v by (auto simp: small_def key_ok_def val_ok_def)
  note S = node_insert_spec [OF wf k(2,3) ci sm]
  show "leaf_ok (snd (node_insert n k v)) l u"
    using n S k v by (auto simp: leaf_ok_def page_fences_def set_insert_at)
  show "map_of (content (snd (node_insert n k v))) = (map_of (content n))(k \<mapsto> v)"
    using S(3) map_of_insert_at [of "(k, v)" "content n"] k(3) by (simp add: keys_def)
qed

lemma seekToInsert_ok:
  assumes inv: "btree_inv b t" and it: "iter_at b t it"
  shows "\<exists>it' l u. seekToInsert b it key = Some (if key \<in> dom (tree_map b t) then DUPLICATE else OK, it') \<and>
    leaf_for b t key (it_leaf it') l u \<and> cur it' \<ge> 0"
proof -
  obtain it' l u where F: "find_unless_here b it key = Some it'" "leaf_for b t key (it_leaf it') l u"
    using find_unless_here_ok [OF inv it] by blast
  note K = leaf_keys_map [OF inv F(2)]
  show ?thesis
    using F lowerBound_spec [OF K(2), of key] K(1,3)
    by (intro exI [of _ "it'\<lparr>cur := fst (lowerBound False (leaf_of b it') key)\<rparr>"] exI [of _ l] exI [of _ u])
      (auto simp: seekToInsert_def leaf_of_def Let_def)
qed

lemma leaf_for_fence_lengths:
  assumes "btree_inv b t" "leaf_for b t k w l u"
  shows "opt_len l \<le> 8" "opt_len u \<le> 8"
  using fence_lengths [of "bfs b" "height b" t None None 1 "PLeaf w" l u] btree_invD(1) [OF assms(1)] assms(2)
  by (auto simp: leaf_for_def)

text \<open>One attempt to split the leaf of a key.\<close>

lemma splitForKey_ok:
  assumes inv: "btree_inv b t" and lf: "leaf_for b t k (it_leaf it) l u" and c: "cur it \<ge> 0" "count (leaf_of b it) > 2"
  shows "\<exists>r it' b' t'. splitForKey b it k = Some (r, it', b') \<and> btree_inv b' t' \<and> entries b' t' = entries b t \<and> cur it' = -1 \<and>
    (if r then length (free_list b') < length (free_list b) else length (free_list b') < 2)"
proof -
  have s: "sub (bfs b) (height b) t None None 1 (PLeaf (it_leaf it)) l u" using lf by (simp add: leaf_for_def)
  have "keyFitsInCurrentNode b it k"
    using leaf_for_facts(3,5) [OF inv lf] by (simp add: keyFitsInCurrentNode_def compareKeyWithBoundaries_0 leaf_of_def)
  then have "splitForKey b it k = Option.bind (trySplit b (it_leaf it) (-1)) (\<lambda>(r, b). Some (r, it\<lparr>cur := -1\<rparr>, b))"
    using c by (simp add: splitForKey_def)
  moreover obtain r b' t' where "trySplit b (it_leaf it) (-1) = Some (r, b')" "btree_inv b' t'" "entries b' t' = entries b t"
      "if r then length (free_list b') < length (free_list b) else length (free_list b') < 2"
    using trySplit_ok [OF inv s, of "-1"] c(2) unfolding leaf_of_def addr.simps by (metis not_le)
  ultimately show ?thesis
    by (intro exI [of _ r] exI [of _ "it\<lparr>cur := -1\<rparr>"] exI [of _ b'] exI [of _ t']) simp
qed

definition insert_outcome :: "btree \<Rightarrow> ptree \<Rightarrow> bytes \<Rightarrow> bytes \<Rightarrow> OP_RESULT jmu \<Rightarrow> btree \<Rightarrow> ptree \<Rightarrow> bool" where
  "insert_outcome b t k v r b' t' \<longleftrightarrow>
     btree_inv b' t' \<and>
     (if k \<in> dom (tree_map b t) then r = Ret DUPLICATE \<and> tree_map b' t' = tree_map b t
      else (r = Ret OK \<and> tree_map b' t' = (tree_map b t)(k \<mapsto> v)) \<or>
        (r = Jump \<and> tree_map b' t' = tree_map b t \<and> length (free_list b') < 2))"

lemma insertKV_ok:
  assumes "btree_inv b t" "iter_at b t it" "key_ok k" "val_ok v"
  shows "\<exists>r it' b' t'. insertKV b it k v = Some (r, it', b') \<and> insert_outcome b t k v r b' t'"
  using assms
proof (induction "length (free_list b)" arbitrary: b t it rule: less_induct)
  case less
  note inv = less.prems(1)
  obtain it1 l u where S: "seekToInsert b it k = Some (if k \<in> dom (tree_map b t) then DUPLICATE else OK, it1)"
      "leaf_for b t k (it_leaf it1) l u" "cur it1 \<ge> 0"
    using seekToInsert_ok [OF inv less.prems(2)] by blast
  note F = leaf_for_facts [OF inv S(2)] and K = leaf_keys_map [OF inv S(2)]
  let ?n = "bfs b (it_leaf it1)"
  show ?case
  proof (cases "k \<in> dom (tree_map b t)")
    case True
    then show ?thesis using S(1) inv by (subst insertKV.simps) (auto simp: insert_outcome_def)
  next
    case new: False
    then have nk: "k \<notin> set (keys ?n)" "in_fences ?n k" using K F(3,5) by simp_all
    show ?thesis
    proof (cases "canInsert ?n (length k) (length v)")
      case True
      note I = leaf_insert [OF F(1) less.prems(3) nk(2,1) less.prems(4) True]
      obtain t' where "btree_inv (set_page b (it_leaf it1) (snd (node_insert ?n k v))) t'"
          "tree_map (set_page b (it_leaf it1) (snd (node_insert ?n k v))) t' = (tree_map b t)(k \<mapsto> v)"
        using leaf_put [OF inv S(2) I(1) I(2)] by blast
      then show ?thesis using S new True
        by (subst insertKV.simps)
          (auto simp: insert_outcome_def canInsertInCurrentNode_def leaf_of_def insertInCurrentNode_def split: prod.splits)
    next
      case False
      have cnt: "count (leaf_of b it1) > 2"
        using full_leaf_count [OF F(1) leaf_for_fence_lengths [OF inv S(2)] less.prems(3) nk(2) less.prems(4) False]
        by (simp add: leaf_of_def)
      obtain r it2 b2 t2 where P: "splitForKey b it1 k = Some (r, it2, b2)" "btree_inv b2 t2" "entries b2 t2 = entries b t"
          "cur it2 = -1" "if r then length (free_list b2) < length (free_list b) else length (free_list b2) < 2"
        using splitForKey_ok [OF inv S(2,3) cnt] by blast
      have m: "tree_map b2 t2 = tree_map b t" using P(3) by (simp add: tree_map_def)
      have step: "insertKV b it k v = (if r then insertKV b2 it2 k v else Some (Jump, it2, b2))"
        using S(1) new False P(1)
        by (subst insertKV.simps) (simp add: canInsertInCurrentNode_def leaf_of_def)
      show ?thesis
      proof (cases r)
        case True
        have "length (free_list b2) < length (free_list b)" using P(5) True by simp
        from less.hyps [OF this P(2) iter_at_new(2) [OF P(4)] less.prems(3,4)]
        show ?thesis unfolding step insert_outcome_def m using True by simp
      next
        case False
        then show ?thesis using step P(2,5) m new by (auto simp: insert_outcome_def)
      qed
    qed
  qed
qed

section \<open>Lookup, update and removal\<close>

lemma ll_lookup_ok:
  assumes inv: "btree_inv b t"
  shows "ll_lookup b k = Some (case tree_map b t k of Some v \<Rightarrow> (OK, Some v) | None \<Rightarrow> (NOT_FOUND, None))"
proof -
  obtain w l u where F: "findLeafCanJump b k = Some w" "leaf_for b t k w l u" using findLeaf_ok [OF inv, of k] by blast
  note K = leaf_keys_map [OF inv F(2)]
  show ?thesis
  proof (cases "k \<in> set (keys (bfs b w))")
    case True
    then show ?thesis
      using F lowerBound_exact_spec [OF K(2), of k] content_at [OF K(2) True] tree_map_leaf [OF inv F(2)]
      by (simp add: ll_lookup_def Let_def)
  next
    case False
    then have "tree_map b t k = None" using K(1) by (auto simp: dom_def)
    then show ?thesis using F lowerBound_exact_spec [OF K(2), of k] False by (simp add: ll_lookup_def Let_def)
  qed
qed

lemma leaf_write:
  assumes n: "leaf_ok n l u" and k: "k \<in> set (keys n)" and v: "length v = length (getPayload n (rank (keys n) k))"
  shows "leaf_ok (writePayload n (rank (keys n) k) v) l u"
    "map_of (content (writePayload n (rank (keys n) k) v)) = (map_of (content n))(k \<mapsto> v)"
proof -
  have wf: "wf_node n" using n by (simp add: leaf_ok_def)
  let ?i = "rank (keys n) k"
  note C = content_at [OF wf k]
  have len: "length v = s_payload_len (slot n ?i)" using v by (simp add: getPayload_def getPayloadLength_def)
  note W = writePayload_spec [OF wf C(1) len]
  have c: "content n ! ?i = (k, getPayload n ?i)" using C content_nth [OF C(1)] by (simp add: keys_def)
  have "val_ok (getPayload n ?i)" using n nth_mem [of ?i "content n"] c C(1) by (auto simp: leaf_ok_def)
  then have "val_ok v" using v by (simp add: val_ok_def)
  moreover have "key_ok k" using n nth_mem [of ?i "content n"] c C(1) by (auto simp: leaf_ok_def)
  moreover have "is_leaf (writePayload n ?i v) = is_leaf n" by (simp add: writePayload_def)
  ultimately show "leaf_ok (writePayload n ?i v) l u"
    using n W c set_update_subset_insert [of "content n" ?i "(k, v)"] by (auto simp: leaf_ok_def page_fences_def)
  have "distinct (map fst (content n))" using sorted_wrt_less_distinct [OF wf_sorted_keys [OF wf]] by simp
  then show "map_of (content (writePayload n ?i v)) = (map_of (content n))(k \<mapsto> v)"
    using W(2) c C(1) map_of_list_update [of "content n" ?i v] by simp
qed

lemma leaf_remove:
  assumes n: "leaf_ok n l u" and k: "k \<in> set (keys n)"
  shows "leaf_ok (removeSlot n (rank (keys n) k)) l u"
    "map_of (content (removeSlot n (rank (keys n) k))) = (map_of (content n))(k := None)"
    "canInsert (removeSlot n (rank (keys n) k)) (length k) vl \<or> vl > length (getPayload n (rank (keys n) k))"
proof -
  have wf: "wf_node n" using n by (simp add: leaf_ok_def)
  let ?i = "rank (keys n) k" and ?n = "removeSlot n (rank (keys n) k)"
  note C = content_at [OF wf k]
  note R = removeSlot_spec [OF wf C(1)]
  show "leaf_ok ?n l u"
    using n R set_remove_at_subset [of ?i "content n"] by (auto simp: leaf_ok_def page_fences_def)
  have "snd (node_remove n k) = ?n"
    using k lowerBound_exact_spec [OF wf, of k] by (simp add: node_remove_def Let_def)
  then show "map_of (content ?n) = (map_of (content n))(k := None)" using node_remove_spec(3) [OF wf, of k] by simp
  have c: "content n ! ?i = (k, getPayload n ?i)" using C content_nth [OF C(1)] by (simp add: keys_def)
  have sz: "slot_size (slot n ?i) = length k - prefix_length n + length (getPayload n ?i)"
    and pl: "prefix_length n \<le> length k"
    using wf_full_key_len(3) [OF wf C(1)] C(2) by (simp_all add: slot_size_def getKeyLen_def getPayload_def getPayloadLength_def)
  have cnt: "count ?n = count n - 1" using R(2) length_content [of ?n] C(1) by simp
  have fr: "freeSpaceAfterCompaction ?n = freeSpaceAfterCompaction n + SIZEOF_SLOT + slot_size (slot n ?i)"
    using wf_freeSpaceAfterCompaction [OF wf] wf_freeSpaceAfterCompaction [OF R(1)] R(8) cnt C(1) wf_space(2) [OF wf]
    by (simp add: slots_end_def)
  have "canInsert ?n (length k) vl" if v: "vl \<le> length (getPayload n ?i)"
  proof -
    have ko: "key_ok k" "val_ok (getPayload n ?i)"
      using n nth_mem [of ?i "content n"] c C(1) by (auto simp: leaf_ok_def)
    then have sm: "small (length k) vl" using v by (auto simp: small_def key_ok_def val_ok_def)
    have "spaceNeeded ?n (length k) vl = SIZEOF_SLOT + (length k - prefix_length n) + vl"
      using spaceNeeded_small [OF sm, of ?n] R(7) pl by simp
    then show ?thesis using fr sz v by (simp add: canInsert_def hasEnoughSpaceFor_def)
  qed
  then show "canInsert ?n (length k) vl \<or> vl > length (getPayload n ?i)" by force
qed

lemma is_btreeI: "btree_inv b t \<Longrightarrow> tree_map b t = m \<Longrightarrow> is_btree b m"
  by (auto simp: is_btree_def)

lemma mergeIfNeeded_ok:
  assumes inv: "btree_inv b t" and s: "sub (bfs b) (height b) t None None 1 (PLeaf (it_leaf it)) l u"
  shows "\<exists>it' b'. mergeIfNeeded b it = Some (it', b') \<and> is_btree b' (tree_map b t)"
proof -
  obtain r b' t' where "tryMerge b (it_leaf it) = Some (Ret r, b')" "btree_inv b' t'" "entries b' t' = entries b t"
    using tryMerge_ok [OF inv s] by auto
  then show ?thesis
    using inv is_btreeI [of b' t' "tree_map b t"] is_btreeI [of b t] by (simp add: mergeIfNeeded_def tree_map_def)
qed

text \<open>The position that a successful \<open>seekExact\<close> ends at.\<close>

lemma seekExact_found:
  assumes inv: "btree_inv b t" and it: "iter_at b t it" and k: "k \<in> dom (tree_map b t)"
  obtains it' l u where "seekExact b it k = Some (OK, it')" "leaf_for b t k (it_leaf it') l u"
    "cur it' = int (rank (keys (leaf_of b it')) k)" "k \<in> set (keys (leaf_of b it'))" "leaf_ok (leaf_of b it') l u"
    "tree_map b t k = Some (iter_value b it')"
proof -
  obtain it' l u where S: "seekExact b it k = Some (OK, it')" "leaf_for b t k (it_leaf it') l u"
      "cur it' = int (rank (keys (leaf_of b it')) k)"
    using seekExact_ok [OF inv it, of k] k by auto
  note K = leaf_keys_map [OF inv S(2)]
  have kk: "k \<in> set (keys (leaf_of b it'))" using K(1) k by (simp add: leaf_of_def)
  have "tree_map b t k = Some (iter_value b it')"
    using tree_map_leaf [OF inv S(2)] content_at(3) [OF K(2)] kk S(3) by (simp add: iter_value_def leaf_of_def)
  then show thesis using that [OF S kk] leaf_for_facts(1) [OF inv S(2)] by (simp add: leaf_of_def)
qed

lemma removeCurrent_ok:
  assumes inv: "btree_inv b t" and lf: "leaf_for b t k (it_leaf it) l u" and c: "cur it = int (rank (keys (leaf_of b it)) k)"
    and k: "k \<in> set (keys (leaf_of b it))"
  shows "removeCurrent b it = (OK, set_page b (it_leaf it) (removeSlot (leaf_of b it) (rank (keys (leaf_of b it)) k)))"
    "\<exists>t'. btree_inv (snd (removeCurrent b it)) t' \<and> tree_map (snd (removeCurrent b it)) t' = (tree_map b t)(k := None) \<and>
       leaf_for (snd (removeCurrent b it)) t' k (it_leaf it) l u"
proof -
  have n: "leaf_ok (leaf_of b it) l u" using leaf_for_facts(1) [OF inv lf] by (simp add: leaf_of_def)
  have wf: "wf_node (leaf_of b it)" using n by (simp add: leaf_ok_def)
  show r: "removeCurrent b it = (OK, set_page b (it_leaf it) (removeSlot (leaf_of b it) (rank (keys (leaf_of b it)) k)))"
    using content_at(1) [OF wf k] c by (simp add: removeCurrent_def)
  have "height (set_page b w n) = height b" for w n by (simp add: set_page_def)
  then show "\<exists>t'. btree_inv (snd (removeCurrent b it)) t' \<and> tree_map (snd (removeCurrent b it)) t' = (tree_map b t)(k := None) \<and>
       leaf_for (snd (removeCurrent b it)) t' k (it_leaf it) l u"
    using leaf_put [OF inv lf leaf_remove(1) [OF n k]] leaf_remove(2) [OF n k] lf unfolding r
    by (simp add: leaf_of_def leaf_for_def)
qed

lemma ll_remove_ok:
  assumes inv: "btree_inv b t"
  shows "\<exists>b'. ll_remove b k = Some (if k \<in> dom (tree_map b t) then OK else NOT_FOUND, b') \<and>
    is_btree b' ((tree_map b t)(k := None))"
    "\<exists>b'. remove_no_merge b k nm = Some (if k \<in> dom (tree_map b t) then OK else NOT_FOUND, b') \<and>
    is_btree b' ((tree_map b t)(k := None))"
proof -
  have "(\<exists>b'. ll_remove b k = Some (if k \<in> dom (tree_map b t) then OK else NOT_FOUND, b') \<and>
    is_btree b' ((tree_map b t)(k := None))) \<and> (\<exists>b'. remove_no_merge b k nm =
      Some (if k \<in> dom (tree_map b t) then OK else NOT_FOUND, b') \<and> is_btree b' ((tree_map b t)(k := None)))"
  proof (cases "k \<in> dom (tree_map b t)")
    case True
    obtain it l u where S: "seekExact b new_iter k = Some (OK, it)" "leaf_for b t k (it_leaf it) l u"
        "cur it = int (rank (keys (leaf_of b it)) k)" "k \<in> set (keys (leaf_of b it))"
      by (rule seekExact_found [OF inv iter_at_new(1) True])
    note R = removeCurrent_ok [OF inv S(2-4)]
    define b1 where "b1 = snd (removeCurrent b it)"
    have rc: "removeCurrent b it = (OK, b1)" using R(1) by (simp add: b1_def)
    obtain t1 where T: "btree_inv b1 t1" "tree_map b1 t1 = (tree_map b t)(k := None)" "leaf_for b1 t1 k (it_leaf it) l u"
      using R(2) by (auto simp: b1_def)
    obtain it2 b2 where M: "mergeIfNeeded b1 it = Some (it2, b2)" "is_btree b2 ((tree_map b t)(k := None))"
      using mergeIfNeeded_ok [OF T(1), of it l u] T(2,3) by (auto simp: leaf_for_def)
    show ?thesis using S(1) rc M is_btreeI [OF T(1,2)] True by (simp add: ll_remove_def remove_no_merge_def)
  next
    case False
    then obtain it where S: "seekExact b new_iter k = Some (NOT_FOUND, it)" using seekExact_ok [OF inv, of new_iter k] by auto
    have "(tree_map b t)(k := None) = tree_map b t" using False by (auto simp: fun_eq_iff)
    then show ?thesis using S False is_btreeI [OF inv refl] by (simp add: ll_remove_def remove_no_merge_def)
  qed
  then show "\<exists>b'. ll_remove b k = Some (if k \<in> dom (tree_map b t) then OK else NOT_FOUND, b') \<and>
      is_btree b' ((tree_map b t)(k := None))"
    "\<exists>b'. remove_no_merge b k nm = Some (if k \<in> dom (tree_map b t) then OK else NOT_FOUND, b') \<and>
      is_btree b' ((tree_map b t)(k := None))" by blast+
qed

lemma lookupForUpdate_ok:
  assumes inv: "btree_inv b t" and len: "\<And>v. tree_map b t k = Some v \<Longrightarrow> length (f v) = length v"
  shows "\<exists>b'. lookupForUpdate b k f =
      Some (case tree_map b t k of Some v \<Rightarrow> (OK, Some v, b') | None \<Rightarrow> (NOT_FOUND, None, b')) \<and>
    is_btree b' (case tree_map b t k of Some v \<Rightarrow> (tree_map b t)(k \<mapsto> f v) | None \<Rightarrow> tree_map b t)"
proof -
  obtain w l u where F: "findLeafCanJump b k = Some w" "leaf_for b t k w l u" using findLeaf_ok [OF inv, of k] by blast
  note K = leaf_keys_map [OF inv F(2)]
  note n = leaf_for_facts(1) [OF inv F(2)]
  let ?n = "bfs b w"
  show ?thesis
  proof (cases "k \<in> set (keys ?n)")
    case True
    let ?i = "rank (keys ?n) k"
    have v: "tree_map b t k = Some (getPayload ?n ?i)" using content_at [OF K(2) True] tree_map_leaf [OF inv F(2)] by simp
    note W = leaf_write [OF n True len [OF v]]
    obtain t' where "btree_inv (set_page b w (writePayload ?n ?i (f (getPayload ?n ?i)))) t'"
        "tree_map (set_page b w (writePayload ?n ?i (f (getPayload ?n ?i)))) t' = (tree_map b t)(k \<mapsto> f (getPayload ?n ?i))"
      using leaf_put [OF inv F(2) W] by blast
    then show ?thesis using F lowerBound_exact_spec [OF K(2), of k] True v
      by (simp add: lookupForUpdate_def is_btreeI Let_def)
  next
    case False
    then have "tree_map b t k = None" using K(1) by (auto simp: dom_def)
    then show ?thesis using F lowerBound_exact_spec [OF K(2), of k] False is_btreeI [OF inv refl]
      by (simp add: lookupForUpdate_def Let_def)
  qed
qed

lemma contentionSplit_ok:
  assumes inv: "btree_inv b t" and s: "sub (bfs b) (height b) t None None 1 (PLeaf (it_leaf it)) l u"
  shows "\<exists>tr' it' b'. contentionSplit flags rnd faced tr b it = Some (tr', it', b') \<and> is_btree b' (tree_map b t)"
proof -
  obtain r b' t' where T: "trySplit b (it_leaf it) (min (last_modified_pos tr) (cur it)) = Some (r, b')"
      "btree_inv b' t'" "entries b' t' = entries b t"
    using trySplit_ok [OF inv s, of "min (last_modified_pos tr) (cur it)"] by auto
  have "is_btree b' (tree_map b t)" "is_btree b (tree_map b t)"
    using is_btreeI [OF T(2)] T(3) is_btreeI [OF inv] by (simp_all add: tree_map_def)
  then show ?thesis
    using T(1) unfolding contentionSplit_def Let_def
    by (cases "unat rnd mod 2 ^ cm_update_on flags = 0"; cases "unat rnd mod 2 ^ cm_period flags = 0")
      (simp_all split: if_split)
qed

lemma updateSameSize_ok:
  assumes inv: "btree_inv b t" and len: "\<And>v. tree_map b t k = Some v \<Longrightarrow> length (f v) = length v"
  shows "\<exists>b'. updateSameSize flags rnd faced tr b k f = Some (if k \<in> dom (tree_map b t) then OK else NOT_FOUND, b') \<and>
    is_btree b' (case tree_map b t k of Some v \<Rightarrow> (tree_map b t)(k \<mapsto> f v) | None \<Rightarrow> tree_map b t)"
proof (cases "k \<in> dom (tree_map b t)")
  case True
  obtain it l u where S: "seekExact b new_iter k = Some (OK, it)" "leaf_for b t k (it_leaf it) l u"
      "cur it = int (rank (keys (leaf_of b it)) k)" "k \<in> set (keys (leaf_of b it))" "leaf_ok (leaf_of b it) l u"
      "tree_map b t k = Some (iter_value b it)"
    by (rule seekExact_found [OF inv iter_at_new(1) True])
  let ?n = "leaf_of b it" and ?v = "f (iter_value b it)"
  have iv: "iter_value b it = getPayload ?n (rank (keys ?n) k)" using S(3) by (simp add: iter_value_def)
  have "length ?v = length (getPayload ?n (rank (keys ?n) k))" using len [OF S(6)] iv by simp
  note W = leaf_write [OF S(5,4) this]
  define b1 where "b1 = set_page b (it_leaf it) (writePayload ?n (rank (keys ?n) k) ?v)"
  obtain t1 where T: "btree_inv b1 t1" "tree_map b1 t1 = (tree_map b t)(k \<mapsto> ?v)"
      "sub (bfs b1) (height b1) t1 None None 1 (PLeaf (it_leaf it)) l u"
    using leaf_put [OF inv S(2), of "writePayload ?n (rank (keys ?n) k) ?v" "Some ?v"] W
    by (auto simp: b1_def leaf_of_def set_page_def)
  obtain tr' it' b' where C: "contentionSplit flags rnd faced tr b1 it = Some (tr', it', b')" "is_btree b' (tree_map b1 t1)"
    using contentionSplit_ok [OF T(1,3)] by blast
  show ?thesis using S C T(2) True by (simp add: updateSameSize_def Let_def b1_def [symmetric])
next
  case False
  then obtain it where S: "seekExact b new_iter k = Some (NOT_FOUND, it)" using seekExact_ok [OF inv, of new_iter k] by auto
  have "tree_map b t k = None" using False by auto
  then show ?thesis using S False is_btreeI [OF inv refl] by (simp add: updateSameSize_def)
qed

section \<open>Replacing and upserting\<close>

text \<open>\<open>replaceKV\<close> removes the old entry first. When the new value does not fit the leaf, it splits and starts over, does
  not find the key any more and gives up: the entry is gone.\<close>

definition replace_fits :: "btree \<Rightarrow> bytes \<Rightarrow> bytes \<Rightarrow> bool" where
  "replace_fits b k v \<longleftrightarrow>
     (case findLeafCanJump b k of
        None \<Rightarrow> False
      | Some w \<Rightarrow>
          (let n = bfs b w in canInsert (removeSlot n (rank (keys n) k)) (length k) (length v)))"

text \<open>A key belongs to one leaf only: the one that the descent ends at.\<close>

lemma sub_findLeaf:
  "sub (bfs b) h t lo hi 1 (PLeaf w) l u \<Longrightarrow> ok (bfs b) h t lo hi \<Longrightarrow> rng lo hi \<Longrightarrow> between l u k \<Longrightarrow>
     findLeaf_loop b k (addr t) = Some w"
proof (induction h t lo hi "1::nat" "PLeaf w" l u rule: sub.induct)
  case (sub_refl l u)
  then show ?case by (subst findLeaf_loop.simps) (simp add: leaf_ok_def)
next
  case (sub_step i ts h lo x hi l u)
  let ?n = "bfs b x"
  have n: "inner_ok ?n lo hi (map addr ts)" using sub_step.prems(1) by simp
  have i: "i \<le> count ?n" using sub_step.hyps(1) n by (simp add: inner_ok_def)
  have c: "ok (bfs b) h (ts ! i) (lb lo (keys ?n) i) (ub (keys ?n) hi i)" by (rule ok_child [OF sub_step.prems(1) sub_step.hyps(1)])
  have r: "rng (lb lo (keys ?n) i) (ub (keys ?n) hi i)" by (rule rng_child [OF n sub_step.prems(2) i])
  have "between (lb lo (keys ?n) i) (ub (keys ?n) hi i) k"
    using sub_within [OF sub_step.hyps(2) c r] sub_step.prems(3) by (auto simp: within_def between_def)
  from rank_unique [OF n this i] have "lookupInner ?n k = addr (ts ! i)"
    using lookupInner_child [OF n, of k] sub_step.hyps(1) by simp
  then show ?case
    by (subst findLeaf_loop.simps) (use n sub_step.hyps(3) [OF c r sub_step.prems(3)] in \<open>simp add: inner_ok_def\<close>)
qed

lemma leaf_for_unique:
  assumes inv: "btree_inv b t" and lf: "leaf_for b t k w l u" "leaf_for b t k w' l' u'"
  shows "w = w' \<and> l = l' \<and> u = u'"
proof -
  have "findLeafCanJump b k = Some w" "findLeafCanJump b k = Some w'"
    using sub_findLeaf [of b "height b" t None None] btree_invD(1,2) [OF inv] lf
    by (auto simp: leaf_for_def findLeafCanJump_def)
  then show ?thesis using leaf_for_facts(1) [OF inv lf(1)] leaf_for_facts(1) [OF inv lf(2)]
    by (auto simp: leaf_ok_def page_fences_def)
qed

lemma replaceKV_not_found:
  assumes inv: "btree_inv b t" and it: "iter_at b t it" and k: "k \<notin> dom (tree_map b t)"
  shows "\<exists>it'. replaceKV b it k v = Some (Ret NOT_FOUND, it', b)"
  using seekExact_ok [OF inv it, of k] k by (subst replaceKV.simps) auto

lemma split_any:
  assumes inv: "btree_inv b t" and lf: "leaf_for b t k (it_leaf it) l u" and c: "cur it \<ge> 0"
  shows "\<exists>r it' b' t'. splitForKey b it k = Some (r, it', b') \<and> btree_inv b' t' \<and> tree_map b' t' = tree_map b t \<and> cur it' = -1"
proof -
  have s: "sub (bfs b) (height b) t None None 1 (PLeaf (it_leaf it)) l u" using lf by (simp add: leaf_for_def)
  have "keyFitsInCurrentNode b it k"
    using leaf_for_facts(3,5) [OF inv lf] by (simp add: keyFitsInCurrentNode_def compareKeyWithBoundaries_0 leaf_of_def)
  then have "splitForKey b it k = Option.bind (trySplit b (it_leaf it) (-1)) (\<lambda>(r, b). Some (r, it\<lparr>cur := -1\<rparr>, b))"
    using c by (simp add: splitForKey_def)
  moreover obtain r b' t' where "trySplit b (it_leaf it) (-1) = Some (r, b')" "btree_inv b' t'" "entries b' t' = entries b t"
    using trySplit_ok [OF inv s, of "-1"] unfolding addr.simps by metis
  ultimately show ?thesis
    by (intro exI [of _ r] exI [of _ "it\<lparr>cur := -1\<rparr>"] exI [of _ b'] exI [of _ t']) (simp add: tree_map_def)
qed

lemma replaceKV_ok:
  assumes inv: "btree_inv b t" and it: "iter_at b t it" and k: "key_ok k" "k \<in> dom (tree_map b t)" and v: "val_ok v"
  shows "\<exists>r it' b'. replaceKV b it k v = Some (r, it', b') \<and>
    (if replace_fits b k v then r = Ret OK \<and> is_btree b' ((tree_map b t)(k \<mapsto> v))
     else (r = Ret NOT_FOUND \<or> r = Jump) \<and> is_btree b' ((tree_map b t)(k := None)))"
proof -
  obtain it1 l u where S: "seekExact b it k = Some (OK, it1)" "leaf_for b t k (it_leaf it1) l u"
      "cur it1 = int (rank (keys (leaf_of b it1)) k)" "k \<in> set (keys (leaf_of b it1))" "leaf_ok (leaf_of b it1) l u"
    by (rule seekExact_found [OF inv it k(2)])
  note R = removeCurrent_ok [OF inv S(2-4)]
  define b1 where "b1 = snd (removeCurrent b it1)"
  obtain t1 where T: "btree_inv b1 t1" "tree_map b1 t1 = (tree_map b t)(k := None)" "leaf_for b1 t1 k (it_leaf it1) l u"
    using R(2) by (auto simp: b1_def)
  have n1: "leaf_of b1 it1 = removeSlot (leaf_of b it1) (rank (keys (leaf_of b it1)) k)"
    using R(1) by (simp add: b1_def leaf_of_def set_page_def)
  have fits: "replace_fits b k v \<longleftrightarrow> canInsert (leaf_of b1 it1) (length k) (length v)"
  proof -
    obtain w l' u' where "findLeafCanJump b k = Some w" "leaf_for b t k w l' u'" using findLeaf_ok [OF inv, of k] by blast
    then show ?thesis using leaf_for_unique [OF inv S(2), of w l' u'] n1 by (simp add: replace_fits_def leaf_of_def Let_def)
  qed
  show ?thesis
  proof (cases "replace_fits b k v")
    case True
    note K = leaf_keys_map [OF T(1,3)]
    have nk: "k \<notin> set (keys (leaf_of b1 it1))" "in_fences (leaf_of b1 it1) k" "leaf_ok (leaf_of b1 it1) l u"
      using K(1) T(2) leaf_for_facts(1,3,5) [OF T(1,3)] by (auto simp: leaf_of_def)
    note I = leaf_insert [OF nk(3) k(1) nk(2,1) v True [unfolded fits]]
    obtain t' where "btree_inv (set_page b1 (it_leaf it1) (snd (node_insert (leaf_of b1 it1) k v))) t'"
        "tree_map (set_page b1 (it_leaf it1) (snd (node_insert (leaf_of b1 it1) k v))) t' = (tree_map b t)(k \<mapsto> v)"
      using leaf_put [OF T(1,3), of "snd (node_insert (leaf_of b1 it1) k v)" "Some v"] I T(2) by (auto simp: leaf_of_def)
    then have "is_btree (set_page b1 (it_leaf it1) (snd (node_insert (leaf_of b1 it1) k v))) ((tree_map b t)(k \<mapsto> v))"
      by (rule is_btreeI)
    then show ?thesis using S(1) True fits
      by (subst replaceKV.simps)
        (simp add: b1_def [symmetric] Let_def canInsertInCurrentNode_def insertInCurrentNode_def case_prod_beta)
  next
    case False
    obtain r it2 b2 t2 where P: "splitForKey b1 it1 k = Some (r, it2, b2)" "btree_inv b2 t2" "tree_map b2 t2 = tree_map b1 t1"
        "cur it2 = -1"
      using split_any [OF T(1,3)] S(3) by auto
    have step: "replaceKV b it k v = (if r then replaceKV b2 it2 k v else Some (Jump, it2, b2))"
      using S(1) False fits P(1) by (subst replaceKV.simps) (simp add: b1_def [symmetric] Let_def canInsertInCurrentNode_def)
    have m: "tree_map b2 t2 = (tree_map b t)(k := None)" using P(3) T(2) by simp
    obtain it3 where "replaceKV b2 it2 k v = Some (Ret NOT_FOUND, it3, b2)"
      using replaceKV_not_found [OF P(2) iter_at_new(2) [OF P(4)], of k v] m by auto
    then show ?thesis using step False is_btreeI [OF P(2) m] by (cases r) simp_all
  qed
qed

lemma upsert_ok:
  assumes inv: "btree_inv b t" and k: "key_ok k" and v: "val_ok v"
  shows "\<exists>r b'. upsert b k v = Some (r, b') \<and>
    (if k \<in> dom (tree_map b t) then
       (if replace_fits b k v then r = Ret OK \<and> is_btree b' ((tree_map b t)(k \<mapsto> v))
        else (r = Ret NOT_FOUND \<or> r = Jump) \<and> is_btree b' ((tree_map b t)(k := None)))
     else (r = Ret OK \<and> is_btree b' ((tree_map b t)(k \<mapsto> v))) \<or> (r = Jump \<and> is_btree b' (tree_map b t) \<and> length (free_list b') < 2))"
proof -
  obtain it l u where S: "seekExact b new_iter k = Some (if k \<in> dom (tree_map b t) then OK else NOT_FOUND, it)"
      "leaf_for b t k (it_leaf it) l u"
    using seekExact_ok [OF inv, of new_iter k] by auto
  have it: "iter_at b t it" by (rule leaf_for_iter_at [OF S(2)])
  show ?thesis
  proof (cases "k \<in> dom (tree_map b t)")
    case True
    obtain r it' b' where "replaceKV b it k v = Some (r, it', b')"
        "if replace_fits b k v then r = Ret OK \<and> is_btree b' ((tree_map b t)(k \<mapsto> v))
         else (r = Ret NOT_FOUND \<or> r = Jump) \<and> is_btree b' ((tree_map b t)(k := None))"
      using replaceKV_ok [OF inv it k True v] by blast
    then show ?thesis using S(1) True by (intro exI [of _ r] exI [of _ b']) (simp add: upsert_def)
  next
    case False
    obtain r it' b' t' where "insertKV b it k v = Some (r, it', b')" "insert_outcome b t k v r b' t'"
      using insertKV_ok [OF inv it k v] by blast
    then show ?thesis using S(1) False by (auto simp: upsert_def insert_outcome_def intro: is_btreeI)
  qed
qed

end
