(* ===== verification/BTreeScan.thy ===== *)
theory BTreeScan
  imports BTreeMap
begin

text \<open>
  Scans: the entries to the right of a leaf's upper fence are the entries of the leaf that the iterator moves to, followed
  by what is to the right of that one. An ascending scan visits exactly the entries from the start key on, in key
  order.
\<close>

section \<open>The entries around a leaf\<close>

lemma sub_partition:
  "sub st h t lo hi h' p l u \<Longrightarrow> ok st h t lo hi \<Longrightarrow> rng lo hi \<Longrightarrow>
     \<exists>A B. flat st t = A @ flat st p @ B \<and> (\<forall>e \<in> set A. \<not> above l (fst e)) \<and> (\<forall>e \<in> set B. \<not> upto u (fst e))"
proof (induction rule: sub.induct)
  case (sub_refl h' p l u)
  show ?case by (intro exI [of _ "[]"]) simp
next
  case (sub_step i ts h lo w hi h' p l u)
  let ?l = "\<lambda>j. lb lo (keys (st w)) j" and ?u = "\<lambda>j. ub (keys (st w)) hi j"
  have n: "inner_ok (st w) lo hi (map addr ts)" using sub_step.prems(1) by simp
  have lt: "length ts = Suc (count (st w))" using n by (simp add: inner_ok_def)
  have c: "ok st h (ts ! j) (?l j) (?u j)" "rng (?l j) (?u j)" if "j < length ts" for j
    using ok_child [OF sub_step.prems(1) that] rng_child [OF n sub_step.prems(2), of j] that lt by simp_all
  have wi: "within l u (?l i) (?u i)" using sub_within [OF sub_step.hyps(2) c [OF sub_step.hyps(1)]] by simp
  obtain A B where AB: "flat st (ts ! i) = A @ flat st p @ B" "\<forall>e \<in> set A. \<not> above l (fst e)" "\<forall>e \<in> set B. \<not> upto u (fst e)"
    using sub_step.IH [OF c [OF sub_step.hyps(1)]] by blast
  let ?L = "concat (map (flat st) (take i ts))" and ?R = "concat (map (flat st) (drop (Suc i) ts))"
  have left: "\<not> above l (fst e)" if e: "e \<in> set ?L" for e
  proof
    assume a: "above l (fst e)"
    obtain j where j: "j < i" "e \<in> set (flat st (ts ! j))"
    proof -
      obtain x where x: "x \<in> set (take i ts)" "e \<in> set (flat st x)" using e by auto
      then obtain m where "m < i" "x = ts ! m" by (auto simp: in_set_conv_nth)
      then show thesis using that [of m] x(2) by simp
    qed
    have "between (?l j) (?u j) (fst e)" using flat_between [OF c] j sub_step.hyps(1) by simp
    moreover have "above (?l i) (fst e)" using wi a by (auto simp: within_def)
    ultimately show False
      using lb_le_ub [OF n, of j i "fst e" "fst e"] j(1) sub_step.hyps(1) lt by (auto simp: between_def)
  qed
  have right: "\<not> upto u (fst e)" if e: "e \<in> set ?R" for e
  proof
    assume a: "upto u (fst e)"
    obtain j where j: "i < j" "j < length ts" "e \<in> set (flat st (ts ! j))"
    proof -
      obtain x where x: "x \<in> set (drop (Suc i) ts)" "e \<in> set (flat st x)" using e by auto
      then obtain m where "m < length ts - Suc i" "x = ts ! (Suc i + m)" by (auto simp: in_set_conv_nth)
      then show thesis using that [of "Suc i + m"] x(2) by simp
    qed
    have "between (?l j) (?u j) (fst e)" using flat_between [OF c] j by simp
    moreover have "upto (?u i) (fst e)" using wi a by (auto simp: within_def)
    ultimately show False
      using lb_le_ub [OF n j(1), of "fst e" "fst e"] j(2) lt by (auto simp: between_def)
  qed
  have "flat st (PInner w ts) = (?L @ A) @ flat st p @ (B @ ?R)"
    using flat_split [OF sub_step.hyps(1), of st w] AB(1) by simp
  moreover have "\<forall>e \<in> set (?L @ A). \<not> above l (fst e)" "\<forall>e \<in> set (B @ ?R). \<not> upto u (fst e)"
    using left right AB(2,3) by (auto simp del: set_concat)
  ultimately show ?case by blast
qed

definition after :: "bytes option \<Rightarrow> (bytes \<times> bytes) list \<Rightarrow> (bytes \<times> bytes) list" where
  "after u es = filter (\<lambda>e. \<not> upto u (fst e)) es"

lemma leaf_partition:
  assumes inv: "btree_inv b t" and s: "sub (bfs b) (height b) t None None 1 (PLeaf w) l u"
  shows "filter (\<lambda>e. above l (fst e)) (entries b t) = content (bfs b w) @ after u (entries b t)"
proof -
  note I = btree_invD [OF inv]
  obtain A B where AB: "entries b t = A @ content (bfs b w) @ B" "\<forall>e \<in> set A. \<not> above l (fst e)"
      "\<forall>e \<in> set B. \<not> upto u (fst e)"
    using sub_partition [OF s I(1)] by (auto simp: entries_def)
  have r: "rng l u" using sub_within [OF s I(1)] by simp
  have ok: "leaf_ok (bfs b w) l u" using sub_ok [OF s I(1)] by simp
  have bw: "between l u (fst e)" if "e \<in> set (content (bfs b w))" for e
    using flat_between [of "bfs b" 1 "PLeaf w" l u e] ok r that by simp
  have "above l (fst e)" if "e \<in> set B" for e
  proof -
    have "\<not> upto u (fst e)" using AB(3) that by blast
    then show ?thesis using r by (cases l; cases u) (auto simp: above_def upto_def rng_def not_le)
  qed
  moreover have "upto u (fst e)" if "e \<in> set A" for e
  proof -
    have "\<not> above l (fst e)" using AB(2) that by blast
    then show ?thesis using r by (cases l; cases u) (auto simp: above_def upto_def rng_def not_less)
  qed
  ultimately show ?thesis using AB bw by (simp add: after_def filter_empty_conv between_def)
qed

section \<open>The next leaf\<close>

lemma succ_key: "k < f @ [0 :: u8] \<Longrightarrow> k \<le> f"
proof (induction f arbitrary: k)
  case Nil
  then show ?case by (cases k) auto
next
  case (Cons a f)
  then show ?case by (cases k) auto
qed

lemma less_snoc: "f < f @ [x :: u8]"
  by (induction f) auto

lemma sub_fence_nonempty:
  "sub st h t lo hi h' p l u \<Longrightarrow> ok st h t lo hi \<Longrightarrow> lo \<noteq> Some [] \<Longrightarrow> hi \<noteq> Some [] \<Longrightarrow> l \<noteq> Some [] \<and> u \<noteq> Some []"
proof (induction rule: sub.induct)
  case (sub_step i ts h lo w hi h' p l u)
  have n: "inner_ok (st w) lo hi (map addr ts)" using sub_step.prems by simp
  have i: "i \<le> count (st w)" using n sub_step.hyps(1) by (simp add: inner_ok_def)
  have k: "keys (st w) ! j \<noteq> []" if "j < count (st w)" for j using inner_keys(4) [OF n that] by (auto simp: key_ok_def)
  have "lb lo (keys (st w)) i \<noteq> Some []" using sub_step.prems k i by (cases i) (auto simp: lb_Suc)
  moreover have "ub (keys (st w)) hi i \<noteq> Some []"
    using sub_step.prems k i ub_last [of "keys (st w)" hi] by (cases "i = count (st w)") (auto simp: ub_less)
  ultimately show ?case using sub_step.IH ok_child [OF sub_step.prems(1) sub_step.hyps(1)] by blast
qed simp

lemma fence_facts:
  assumes wf: "wf_node n"
  shows "getUpperFenceKey n \<noteq> Some [] \<Longrightarrow> f_length (upper_fence n) = 0 \<longleftrightarrow> getUpperFenceKey n = None"
    "getLowerFenceKey n \<noteq> Some [] \<Longrightarrow> f_length (lower_fence n) = 0 \<longleftrightarrow> getLowerFenceKey n = None"
    "getUpperFenceKey n = Some f \<Longrightarrow> fence_bytes n (upper_fence n) = f"
    "getLowerFenceKey n = Some f \<Longrightarrow> fence_bytes n (lower_fence n) = f"
proof -
  have "data_offset n > 0" "fence_ok n (upper_fence n)" "fence_ok n (lower_fence n)"
    using wf by (auto simp: wf_node_def layout_def slots_end_def)
  then show "getUpperFenceKey n \<noteq> Some [] \<Longrightarrow> f_length (upper_fence n) = 0 \<longleftrightarrow> getUpperFenceKey n = None"
    "getLowerFenceKey n \<noteq> Some [] \<Longrightarrow> f_length (lower_fence n) = 0 \<longleftrightarrow> getLowerFenceKey n = None"
    by (auto simp: getUpperFenceKey_def getLowerFenceKey_def fence_ok_def read_mem_def)
  show "getUpperFenceKey n = Some f \<Longrightarrow> fence_bytes n (upper_fence n) = f"
    "getLowerFenceKey n = Some f \<Longrightarrow> fence_bytes n (lower_fence n) = f"
    by (auto simp: getUpperFenceKey_def getLowerFenceKey_def fence_bytes_def split: if_splits)
qed

text \<open>The leaf of the key after the upper fence starts at that fence.\<close>

lemma next_leaf:
  assumes inv: "btree_inv b t" and s: "sub (bfs b) (height b) t None None 1 (PLeaf w) l (Some f)"
    and n: "leaf_for b t (f @ [0]) w' l' u'"
  shows "l' = Some f"
proof -
  note I = btree_invD [OF inv]
  have r: "rng l (Some f)" using sub_within [OF s I(1)] by simp
  have b': "between l' u' (f @ [0])" using n by (simp add: leaf_for_def)
  have bf: "between l (Some f) f" using r by (simp add: between_def upto_def rng_Some)
  have lf: "leaf_for b t f w l (Some f)" using s bf by (simp add: leaf_for_def)
  have "\<not> above l' f"
  proof
    assume a: "above l' f"
    have "upto u' f" using b' less_snoc [of f 0] by (auto simp: between_def upto_def split: option.splits)
    then have "leaf_for b t f w' l' u'" using n a by (simp add: leaf_for_def between_def)
    then have "u' = Some f" using leaf_for_unique [OF inv lf, of w' l' u'] by simp
    then show False using b' less_snoc [of f 0] by (auto simp: between_def upto_def)
  qed
  then show ?thesis using b' succ_key by (auto simp: between_def above_def split: option.splits intro: antisym)
qed

text \<open>What the iterator has still to visit after the current position.\<close>

definition to_visit :: "btree \<Rightarrow> ptree \<Rightarrow> iter \<Rightarrow> (bytes \<times> bytes) list" where
  "to_visit b t it =
     drop (nat (cur it + 1)) (content (leaf_of b it)) @ after (getUpperFenceKey (leaf_of b it)) (entries b t)"

definition on_entry :: "btree \<Rightarrow> ptree \<Rightarrow> iter \<Rightarrow> bytes \<times> bytes \<Rightarrow> bool" where
  "on_entry b t it e \<longleftrightarrow>
     (\<exists>l u. sub (bfs b) (height b) t None None 1 (PLeaf (it_leaf it)) l u) \<and>
     0 \<le> cur it \<and> cur it < int (count (leaf_of b it)) \<and> e = content (leaf_of b it) ! nat (cur it)"

lemma on_entry_key: "on_entry b t it e \<Longrightarrow> iter_key b it = fst e \<and> iter_value b it = snd e"
  using content_nth [of "nat (cur it)" "leaf_of b it"] by (auto simp: on_entry_def iter_key_def iter_value_def)

text \<open>How many leaves are to the right: the measure for skipping empty leaves.\<close>

definition leaves_right :: "btree \<Rightarrow> ptree \<Rightarrow> bytes option \<Rightarrow> u64 set" where
  "leaves_right b t u =
     {w \<in> set (leaves t). case (u, getLowerFenceKey (bfs b w)) of (Some f, Some l) \<Rightarrow> f \<le> l | _ \<Rightarrow> False}"

lemma leaves_right_less:
  assumes inv: "btree_inv b t" and s: "sub (bfs b) (height b) t None None 1 (PLeaf w) (Some f) u"
  shows "card (leaves_right b t u) < card (leaves_right b t (Some f))"
proof (rule psubset_card_mono)
  note I = btree_invD [OF inv]
  have lo: "getLowerFenceKey (bfs b w) = Some f" using sub_ok [OF s I(1)] by (simp add: leaf_ok_def page_fences_def)
  have r: "rng (Some f) u" using sub_within [OF s I(1)] by simp
  have w: "w \<in> set (leaves t)" using sub_leaves [OF s] by auto
  have "w \<in> leaves_right b t (Some f)" "w \<notin> leaves_right b t u"
    using w lo r by (auto simp: leaves_right_def rng_def split: option.splits)
  moreover have "leaves_right b t u \<subseteq> leaves_right b t (Some f)"
    using r by (auto simp: leaves_right_def rng_def split: option.splits)
  ultimately show "leaves_right b t u \<subset> leaves_right b t (Some f)" by blast
qed (simp add: leaves_right_def)

lemma rank_0:
  assumes "\<And>k. k \<in> set ks \<Longrightarrow> x \<le> k"
  shows "rank ks x = 0"
  using assms by (auto simp: rank_def filter_empty_conv not_less)

lemma iter_next_ok:
  assumes inv: "btree_inv b t" and s: "sub (bfs b) (height b) t None None 1 (PLeaf (it_leaf it)) l u" and c: "cur it \<ge> -1"
  shows "case to_visit b t it of
      [] \<Rightarrow> (\<exists>it' l u. iter_next b it = Some (NOT_FOUND, it') \<and> cur it' \<ge> -1 \<and>
              sub (bfs b) (height b) t None None 1 (PLeaf (it_leaf it')) l u)
    | e # es \<Rightarrow> (\<exists>it'. iter_next b it = Some (OK, it') \<and> on_entry b t it' e \<and> to_visit b t it' = es)"
  using s c
proof (induction "card (leaves_right b t u)" arbitrary: it l u rule: less_induct)
  case less
  note I = btree_invD [OF inv]
  let ?n = "leaf_of b it"
  have lo: "leaf_ok ?n l u" using sub_ok [OF less.prems(1) I(1)] by (simp add: leaf_of_def)
  then have wf: "wf_node ?n" and fu: "getUpperFenceKey ?n = u" by (simp_all add: leaf_ok_def page_fences_def)
  have ne: "u \<noteq> Some []" using sub_fence_nonempty [OF less.prems(1) I(1)] by simp
  note FF = fence_facts [OF wf]
  show ?case
  proof (cases "cur it + 1 < int (count ?n)")
    case True
    let ?i = "nat (cur it + 1)"
    have i: "?i < length (content ?n)" using True less.prems(2) by simp
    have tv: "to_visit b t it = content ?n ! ?i # drop (Suc ?i) (content ?n) @ after u (entries b t)"
      using Cons_nth_drop_Suc [OF i] fu by (simp add: to_visit_def)
    have nx: "iter_next b it = Some (OK, it\<lparr>cur := cur it + 1\<rparr>)" using True by (subst iter_next.simps) (simp add: Let_def)
    have "on_entry b t (it\<lparr>cur := cur it + 1\<rparr>) (content ?n ! ?i)"
      using less.prems True by (auto simp: on_entry_def leaf_of_def)
    moreover have "Suc ?i = nat (cur it + 1 + 1)" using less.prems(2) by simp
    then have "to_visit b t (it\<lparr>cur := cur it + 1\<rparr>) = drop (Suc ?i) (content ?n) @ after u (entries b t)"
      using fu by (simp add: to_visit_def leaf_of_def)
    ultimately show ?thesis using nx tv by simp
  next
    case False
    then have d: "drop (nat (cur it + 1)) (content ?n) = []" by simp
    show ?thesis
    proof (cases u)
      case None
      have "after None es = []" for es by (simp add: after_def upto_def filter_empty_conv)
      then have "to_visit b t it = []" using d fu None by (simp add: to_visit_def)
      moreover have "iter_next b it = Some (NOT_FOUND, it)"
        using False FF(1) fu None by (subst iter_next.simps) (simp add: Let_def)
      ultimately show ?thesis using less.prems by auto
    next
      case (Some f)
      then have fl: "f_length (upper_fence ?n) \<noteq> 0" "fence_bytes ?n (upper_fence ?n) = f" using FF fu ne by simp_all
      obtain w' l' u' where L: "findLeafCanJump b (f @ [0]) = Some w'" "leaf_for b t (f @ [0]) w' l' u'"
        using findLeaf_ok [OF inv, of "f @ [0]"] by blast
      have l': "l' = Some f" by (rule next_leaf [OF inv less.prems(1) [unfolded Some] L(2)])
      have s': "sub (bfs b) (height b) t None None 1 (PLeaf w') (Some f) u'" using L(2) l' by (simp add: leaf_for_def)
      let ?it = "it\<lparr>it_leaf := w'\<rparr>" and ?n' = "bfs b w'"
      have lo': "leaf_ok ?n' (Some f) u'" using sub_ok [OF s' I(1)] by simp
      have wf': "wf_node ?n'" using lo' by (simp add: leaf_ok_def)
      have tv: "to_visit b t it = content ?n' @ after u' (entries b t)"
      proof -
        have "after (Some f) (entries b t) = filter (\<lambda>e. above (Some f) (fst e)) (entries b t)"
          by (simp add: after_def upto_def above_def not_le)
        then show ?thesis using leaf_partition [OF inv s'] d fu Some by (simp add: to_visit_def)
      qed
      have less': "card (leaves_right b t u') < card (leaves_right b t u)" using leaves_right_less [OF inv s'] Some by simp
      have ge: "f @ [0] \<le> k" if "k \<in> set (keys ?n')" for k
      proof -
        have "above (Some f) k" using wf' lo' that by (auto simp: wf_node_def in_fences_def leaf_ok_def page_fences_def)
        then show ?thesis using succ_key [of k f] by (force simp: above_def)
      qed
      have lb0: "fst (lowerBound False ?n' (f @ [0])) = 0"
        using lowerBound_spec [OF wf', of "f @ [0]"] rank_0 [of "keys ?n'" "f @ [0]"] ge by simp
      have step: "iter_next b it = (if count ?n' = 0 then iter_next b ?it else Some (OK, ?it\<lparr>cur := 0\<rparr>))"
        using False fl L(1) lb0
        by (subst iter_next.simps) (simp add: Let_def findLeafAndLatch_def leaf_of_def del: iter.update_convs)
      show ?thesis
      proof (cases "count ?n' = 0")
        case True
        have "content ?n' = []" using True by (metis length_0_conv length_content)
        then have "to_visit b t ?it = to_visit b t it"
          using tv lo' by (simp add: to_visit_def leaf_of_def leaf_ok_def page_fences_def)
        then show ?thesis using less.hyps [OF less', of ?it "Some f"] s' less.prems(2) step True by (simp cong: list.case_cong)
      next
        case False
        have c0: "0 < length (content ?n')" using False by simp
        have "content ?n' = content ?n' ! 0 # drop (Suc 0) (content ?n')" using Cons_nth_drop_Suc [OF c0] by simp
        then have tv': "to_visit b t it = content ?n' ! 0 # drop (Suc 0) (content ?n') @ after u' (entries b t)"
          using tv by (metis append_Cons)
        have "on_entry b t (?it\<lparr>cur := 0\<rparr>) (content ?n' ! 0)" using s' False by (auto simp: on_entry_def leaf_of_def)
        moreover have "to_visit b t (?it\<lparr>cur := 0\<rparr>) = drop (Suc 0) (content ?n') @ after u' (entries b t)"
          using lo' by (simp add: to_visit_def leaf_of_def leaf_ok_def page_fences_def)
        ultimately show ?thesis using step False tv' by simp
      qed
    qed
  qed
qed

section \<open>Ascending scans\<close>

text \<open>What a scan does to a list of entries.\<close>

fun scan_list :: "('s \<Rightarrow> bytes \<Rightarrow> bytes \<Rightarrow> bool \<times> 's) \<Rightarrow> 's \<Rightarrow> (bytes \<times> bytes) list \<Rightarrow> OP_RESULT \<times> 's" where
  "scan_list f s [] = (NOT_FOUND, s)"
| "scan_list f s (e # es) = (case f s (fst e) (snd e) of (continue, s) \<Rightarrow> if continue then scan_list f s es else (OK, s))"

lemma scanAsc_loop_ok:
  assumes inv: "btree_inv b t" and e: "on_entry b t it e" and tv: "to_visit b t it = es"
  shows "scanAsc_loop b (\<lambda>s k v _. f s k v) s it = Some (scan_list f s (e # es))"
  using e tv
proof (induction es arbitrary: e it s)
  case Nil
  obtain l u where s: "sub (bfs b) (height b) t None None 1 (PLeaf (it_leaf it)) l u" "cur it \<ge> -1"
    using Nil(1) by (auto simp: on_entry_def)
  obtain it' where nx: "iter_next b it = Some (NOT_FOUND, it')" using iter_next_ok [OF inv s] Nil(2) by auto
  show ?case
    by (subst scanAsc_loop.simps) (use nx on_entry_key [OF Nil(1)] in \<open>simp split: prod.split\<close>)
next
  case (Cons e' es)
  obtain l u where s: "sub (bfs b) (height b) t None None 1 (PLeaf (it_leaf it)) l u" "cur it \<ge> -1"
    using Cons.prems(1) by (auto simp: on_entry_def)
  obtain it' where nx: "iter_next b it = Some (OK, it')" "on_entry b t it' e'" "to_visit b t it' = es"
    using iter_next_ok [OF inv s] Cons.prems(2) by auto
  show ?case
    by (subst scanAsc_loop.simps)
      (use nx Cons.IH [OF nx(2,3)] on_entry_key [OF Cons.prems(1)] in \<open>simp split: prod.split\<close>)
qed

lemma filter_sorted_rank:
  fixes k :: bytes
  assumes "sorted_wrt (<) (map fst es)"
  shows "filter (\<lambda>e. k \<le> fst e) es = drop (rank (map fst es) k) es"
  using assms
proof (induction es)
  case (Cons e es)
  show ?case
  proof (cases "fst e < k")
    case True
    then show ?thesis using Cons by (simp add: rank_def)
  next
    case False
    have k: "k \<le> x" if "x \<in> fst ` set es" for x
    proof -
      have "fst e < x" using Cons.prems that by auto
      then show ?thesis using False by (simp add: not_less le_less_trans less_imp_le)
    qed
    then have "rank (map fst (e # es)) k = 0" using False rank_0 [of "map fst (e # es)" k] by (auto simp: not_less)
    moreover have "filter (\<lambda>e. k \<le> fst e) es = es" using k by (auto simp: filter_id_conv)
    ultimately show ?thesis using False by (simp add: not_less)
  qed
qed (simp add: rank_def)

lemma seek_ok:
  assumes inv: "btree_inv b t"
  shows "case filter (\<lambda>e. k \<le> fst e) (entries b t) of
      [] \<Rightarrow> (\<exists>it'. seek b new_iter k = Some (NOT_FOUND, it'))
    | e # es \<Rightarrow> (\<exists>it'. seek b new_iter k = Some (OK, it') \<and> on_entry b t it' e \<and> to_visit b t it' = es)"
proof -
  note I = btree_invD [OF inv]
  obtain it l u where F: "find_unless_here b new_iter k = Some it" "leaf_for b t k (it_leaf it) l u"
    using find_unless_here_ok [OF inv, of new_iter k] by auto
  have s: "sub (bfs b) (height b) t None None 1 (PLeaf (it_leaf it)) l u" and bw: "between l u k"
    using F(2) by (simp_all add: leaf_for_def)
  let ?n = "leaf_of b it" and ?E = "entries b t"
  have lo: "leaf_ok ?n l u" using leaf_for_facts(1) [OF inv F(2)] by (simp add: leaf_of_def)
  then have wf: "wf_node ?n" and fu: "getUpperFenceKey ?n = u" by (simp_all add: leaf_ok_def page_fences_def)
  let ?p = "rank (keys ?n) k"
  have "filter (\<lambda>e. k \<le> fst e) ?E = filter (\<lambda>e. k \<le> fst e) (filter (\<lambda>e. above l (fst e)) ?E)"
    using bw by (auto simp: between_def above_def split: option.splits intro!: filter_cong)
  also have "\<dots> = filter (\<lambda>e. k \<le> fst e) (content ?n) @ after u ?E"
  proof -
    have "filter (\<lambda>e. k \<le> fst e) (after u ?E) = after u ?E"
      using bw by (auto simp: after_def between_def upto_def split: option.splits intro!: filter_cong)
    then show ?thesis using leaf_partition [OF inv s] by (simp add: leaf_of_def)
  qed
  also have "\<dots> = drop ?p (content ?n) @ after u ?E"
    using filter_sorted_rank [OF wf_sorted_keys [OF wf]] by (simp add: keys_def)
  finally have flt: "filter (\<lambda>e. k \<le> fst e) ?E = drop ?p (content ?n) @ after u ?E" .
  let ?it = "it\<lparr>cur := int ?p\<rparr>"
  have lv: "leaf_of b ?it = ?n" by (simp add: leaf_of_def)
  have sk: "seek b new_iter k = (if ?p < count ?n then Some (OK, ?it) else iter_next b ?it)"
    using F(1) lowerBound_spec [OF wf, of k] lv by (simp add: seek_def Let_def)
  show ?thesis
  proof (cases "?p < count ?n")
    case True
    then have "drop ?p (content ?n) = content ?n ! ?p # drop (Suc ?p) (content ?n)" by (simp add: Cons_nth_drop_Suc)
    moreover have "on_entry b t ?it (content ?n ! ?p)" using s True lv by (auto simp: on_entry_def)
    moreover have "to_visit b t ?it = drop (Suc ?p) (content ?n) @ after u ?E"
      using lv fu by (simp add: to_visit_def nat_add_distrib)
    ultimately show ?thesis using sk True flt by simp
  next
    case False
    then have "to_visit b t ?it = filter (\<lambda>e. k \<le> fst e) ?E" using flt lv fu by (simp add: to_visit_def nat_add_distrib)
    moreover have "sub (bfs b) (height b) t None None 1 (PLeaf (it_leaf ?it)) l u" using s by simp
    note iter_next_ok [OF inv this]
    ultimately show ?thesis using sk False by (cases "filter (\<lambda>e. k \<le> fst e) ?E") auto
  qed
qed

lemma scanAsc_ok:
  assumes inv: "btree_inv b t"
  shows "scanAsc b k f s = Some (scan_list f s (filter (\<lambda>e. k \<le> fst e) (entries b t)))"
proof (cases "filter (\<lambda>e. k \<le> fst e) (entries b t)")
  case Nil
  then show ?thesis using seek_ok [OF inv, of k] by (auto simp: scanAsc_def scanAsc_frame_def)
next
  case (Cons e es)
  then obtain it where "seek b new_iter k = Some (OK, it)" "on_entry b t it e" "to_visit b t it = es"
    using seek_ok [OF inv, of k] by auto
  then show ?thesis using scanAsc_loop_ok [OF inv, of it e es f s] Cons by (simp add: scanAsc_def scanAsc_frame_def)
qed

section \<open>Counting entries\<close>

lemma child_swips_ok:
  assumes n: "inner_ok n lo hi ws"
  shows "child_swips n = ws"
proof (rule nth_equalityI)
  have len: "length ws = Suc (count n)" using n by (simp add: inner_ok_def)
  show "length (child_swips n) = length ws" using len by (simp add: child_swips_def)
  show "child_swips n ! i = ws ! i" if i: "i < length (child_swips n)" for i
  proof (cases "i < count n")
    case True
    then show ?thesis using inner_child [OF n, of i] by (simp add: child_swips_def nth_append child_at_def)
  next
    case False
    then have "i = count n" using i by (simp add: child_swips_def)
    then show ?thesis using inner_child [OF n, of i] by (simp add: child_swips_def nth_append child_at_def)
  qed
qed

text \<open>A fold over all pages: every page once, whatever is added up.\<close>

fun page_sum :: "store \<Rightarrow> (btree_node \<Rightarrow> nat) \<Rightarrow> (btree_node \<Rightarrow> nat) \<Rightarrow> ptree \<Rightarrow> nat" where
  "page_sum st inner leaf (PLeaf w) = leaf (st w)"
| "page_sum st inner leaf (PInner w ts) = inner (st w) + sum_list (map (page_sum st inner leaf) ts)"

lemma foldl_bind_sum:
  assumes "\<And>x. x \<in> set xs \<Longrightarrow> f x = Some (g x)"
  shows "foldl (\<lambda>res c. Option.bind res (\<lambda>r. map_option ((+) r) (f c))) (Some a) xs = Some (a + sum_list (map g xs) :: nat)"
  using assms by (induction xs arbitrary: a) auto

lemma iterateAllPagesRec_ok:
  "ok (bfs b) h t lo hi \<Longrightarrow> iterateAllPagesRec h b inner leaf (addr t) = Some (page_sum (bfs b) inner leaf t)"
proof (induction t arbitrary: h lo hi)
  case (PLeaf w)
  then show ?case by (simp add: leaf_ok_def)
next
  case (PInner w ts)
  obtain h' where h: "h = Suc h'" using PInner.prems by (cases h) auto
  have n: "inner_ok (bfs b w) lo hi (map addr ts)" using PInner.prems by simp
  have "iterateAllPagesRec h' b inner leaf (addr t) = Some (page_sum (bfs b) inner leaf t)" if "t \<in> set ts" for t
  proof -
    obtain i where "i < length ts" "t = ts ! i" using \<open>t \<in> set ts\<close> by (auto simp: in_set_conv_nth)
    then show ?thesis using PInner.IH [OF \<open>t \<in> set ts\<close>] ok_child [OF PInner.prems [unfolded h], of i] by blast
  qed
  then have "foldl (\<lambda>res c. Option.bind res (\<lambda>r. map_option ((+) r) (iterateAllPagesRec h' b inner leaf c)))
      (Some (inner (bfs b w))) (map addr ts) = Some (inner (bfs b w) + sum_list (map (page_sum (bfs b) inner leaf) ts))"
    using foldl_bind_sum [of ts "\<lambda>t. iterateAllPagesRec h' b inner leaf (addr t)" "page_sum (bfs b) inner leaf"]
    by (simp add: foldl_map)
  then show ?case using n child_swips_ok [OF n] by (simp add: h inner_ok_def)
qed

lemma page_sum_count: "page_sum st (\<lambda>_. 0) count t = length (flat st t)"
proof (induction t)
  case (PInner w ts)
  then show ?case by (simp add: flat_inner length_concat comp_def cong: map_cong)
qed simp

lemma page_sum_pages: "page_sum st (\<lambda>_. 1) (\<lambda>_. 1) t = length (frames t)"
proof (induction t)
  case (PInner w ts)
  then show ?case by (simp add: length_concat comp_def cong: map_cong)
qed simp

end
