(* ===== verification/BTreeInterface.thy ===== *)
theory BTreeInterface
  imports BTreeScan
begin

text \<open>
  The interface through which the adapters use a B-tree (storage/btree/core/BTreeInterface.hpp): a record of operations,
  the contract that the adapters rely on, stated against a map from keys to payloads, and the proof that \<open>BTreeLL\<close> keeps it.
\<close>

section \<open>The entries of a map\<close>

definition map_entries :: "(bytes \<rightharpoonup> bytes) \<Rightarrow> (bytes \<times> bytes) list" where
  "map_entries m = map (\<lambda>k. (k, the (m k))) (sorted_list_of_set (dom m))"

lemma map_entries_map_of:
  assumes "sorted_wrt (<) (map fst es)"
  shows "map_entries (map_of es) = es"
proof -
  have d: "distinct (map fst es)" by (rule sorted_wrt_less_distinct [OF assms])
  have "sorted_list_of_set (fst ` set es) = map fst es"
    using assms d sorted_list_of_set.idem_if_sorted_distinct [of "map fst es"]
    by (simp add: sorted_wrt_mono_rel [of "map fst es" "(<)" "(\<le>)"])
  then have "map_entries (map_of es) = map (\<lambda>e. (fst e, the (map_of es (fst e)))) es"
    by (simp add: map_entries_def dom_map_of_conv_image_fst)
  also have "\<dots> = map (\<lambda>e. e) es" by (rule map_cong [OF refl]) (use d in \<open>auto simp: map_of_is_SomeI\<close>)
  finally show ?thesis by simp
qed

lemma set_map_entries: "finite (dom m) \<Longrightarrow> set (map_entries m) = {(k, v). m k = Some v}"
  by (auto simp: map_entries_def)

lemma sorted_map_entries: "sorted_wrt (<) (map fst (map_entries m))"
  by (simp add: map_entries_def comp_def)

lemma entries_map_entries: "btree_inv b t \<Longrightarrow> entries b t = map_entries (tree_map b t)"
  using map_entries_map_of [OF entries_sorted] by (simp add: tree_map_def)

section \<open>The remaining operations of BTreeLL on maps\<close>

lemma insert_might_fail_map:
  assumes "is_btree b m" "key_ok k" "val_ok v"
  shows "\<exists>r b'. insert_might_fail b k v = Some (r, b') \<and>
    (if k \<in> dom m then r = DUPLICATE \<and> is_btree b' m
     else (r = OK \<and> is_btree b' (m(k \<mapsto> v))) \<or> (r = NOT_ENOUGH_SPACE \<and> is_btree b' m))"
proof -
  obtain t where t: "btree_inv b t" "tree_map b t = m" using assms(1) by (auto simp: is_btree_def)
  obtain it l u where S: "seekToInsert b new_iter k = Some (if k \<in> dom m then DUPLICATE else OK, it)"
      "leaf_for b t k (it_leaf it) l u"
    using seekToInsert_ok [OF t(1) iter_at_new(1), of k] t(2) by auto
  show ?thesis
  proof (cases "k \<in> dom m \<or> \<not> canInsert (leaf_of b it) (length k) (length v)")
    case True
    then show ?thesis using S(1) assms(1)
      by (cases "k \<in> dom m") (auto simp: insert_might_fail_def insertKVMightFail_def canInsertInCurrentNode_def)
  next
    case False
    have n: "leaf_ok (leaf_of b it) l u" using leaf_for_facts(1) [OF t(1) S(2)] by (simp add: leaf_of_def)
    have k: "in_fences (leaf_of b it) k" "k \<notin> set (keys (leaf_of b it))"
      using leaf_for_facts(3,5) [OF t(1) S(2)] leaf_keys_map(1) [OF t(1) S(2)] t(2) False by (simp_all add: leaf_of_def)
    note L = leaf_insert [OF n assms(2) k assms(3)]
    have "\<exists>t'. btree_inv (set_page b (it_leaf it) (snd (node_insert (leaf_of b it) k v))) t' \<and>
      tree_map (set_page b (it_leaf it) (snd (node_insert (leaf_of b it) k v))) t' = m(k \<mapsto> v)"
      using leaf_put [OF t(1) S(2), of "snd (node_insert (leaf_of b it) k v)" "Some v"] L False t(2) by (auto simp: leaf_of_def)
    then show ?thesis using S(1) False
      by (auto simp: insert_might_fail_def insertKVMightFail_def canInsertInCurrentNode_def insertInCurrentNode_def is_btree_def
        split: prod.split)
  qed
qed

text \<open>An entry's payload overwritten in place: the cursor keeps its position and what remains to be visited.\<close>

lemma write_entry:
  assumes inv: "btree_inv b t" and e: "on_entry b t it e" and len: "length v = length (snd e)"
  defines "b' \<equiv> set_page b (it_leaf it) (writePayload (leaf_of b it) (nat (cur it)) v)"
  shows "\<exists>t'. btree_inv b' t' \<and> tree_map b' t' = (tree_map b t)(fst e \<mapsto> v) \<and> on_entry b' t' it (fst e, v) \<and>
    to_visit b' t' it = to_visit b t it"
proof -
  note I = btree_invD [OF inv]
  let ?n = "leaf_of b it" and ?i = "nat (cur it)" and ?k = "fst e"
  obtain l u where s: "sub (bfs b) (height b) t None None 1 (PLeaf (it_leaf it)) l u" using e by (auto simp: on_entry_def)
  have c: "0 \<le> cur it" "?i < count ?n" "e = content ?n ! ?i" using e by (auto simp: on_entry_def)
  have n: "leaf_ok ?n l u" using sub_ok [OF s I(1)] by (simp add: leaf_of_def)
  then have wf: "wf_node ?n" by (simp add: leaf_ok_def)
  have k: "keys ?n ! ?i = ?k" using c by (simp add: keys_def)
  have ks: "?k \<in> set (keys ?n)" using k c(2) nth_mem [of ?i "keys ?n"] by simp
  have rk: "rank (keys ?n) ?k = ?i"
  proof -
    have "distinct (keys ?n)" using sorted_wrt_less_distinct [OF wf_sorted_keys [OF wf]] by (simp add: keys_def)
    then show ?thesis using content_at(1,2) [OF wf ks] k c(2) nth_eq_iff_index_eq [of "keys ?n" ?i "rank (keys ?n) ?k"] by simp
  qed
  have snd: "getPayload ?n ?i = snd e" using content_nth [OF c(2)] c(3) by simp
  note L = leaf_write [OF n ks, of v, unfolded rk snd, OF len]
  have b: "between l u ?k"
    using n ks wf by (auto simp: leaf_ok_def page_fences_def wf_node_def in_fences_def between_def)
  have lf: "leaf_for b t ?k (it_leaf it) l u" using s b by (simp add: leaf_for_def)
  let ?m = "writePayload ?n ?i v"
  obtain t' A B where U: "btree_inv b' t'" "entries b t = A @ content ?n @ B" "entries b' t' = A @ content ?m @ B"
      "sub (bfs b') (height b) t' None None 1 (PLeaf (it_leaf it)) l u"
    using btree_leaf_update [OF inv s L(1)] unfolding b'_def leaf_of_def by blast
  have pl: "length v = s_payload_len (slot ?n ?i)" using len snd by (metis getPayloadLength_def getPayload_def length_read_mem)
  note W = writePayload_spec [OF wf c(2) pl]
  have h: "height b' = height b" "leaf_of b' it = ?m" by (simp_all add: b'_def leaf_of_def set_page_def)
  have cm: "content ?m = (content ?n)[?i := (?k, v)]" using W(2) c(3) by simp
  have "map_of (entries b' t') = (map_of (entries b t))(?k \<mapsto> v)"
  proof -
    have "distinct (map fst (entries b t))" by (rule entries_distinct [OF inv])
    then have "?k \<notin> fst ` set A" using ks unfolding U(2) by (auto simp: keys_def)
    then have "map_of A ?k = None" by (simp add: map_of_eq_None_iff)
    then show ?thesis unfolding U(2,3) using L(2) by (auto simp: fun_eq_iff map_add_def split: option.splits)
  qed
  moreover have "on_entry b' t' it (?k, v)"
    using U(4) c cm h length_content [of ?m] length_content [of ?n] unfolding on_entry_def by auto
  moreover have "to_visit b' t' it = to_visit b t it"
  proof -
    have fu: "getUpperFenceKey ?n = u" using n by (simp add: leaf_ok_def page_fences_def)
    have "after u (content ?m) = []" "after u (content ?n) = []"
      using n L(1) by (auto simp: after_def filter_empty_conv leaf_ok_def page_fences_def wf_node_def keys_def in_fences_def)
    then have "after u (entries b' t') = after u (entries b t)" unfolding U(2,3) by (simp add: after_def)
    then show ?thesis using W(4) fu cm c(1) by (simp add: to_visit_def h nat_add_distrib)
  qed
  ultimately show ?thesis using U(1) by (auto simp: tree_map_def)
qed

text \<open>What an exclusive scan does to a list of entries: the entries it visits, with their new payloads.\<close>

fun scanx_list ::
  "('s \<Rightarrow> bytes \<Rightarrow> bytes \<Rightarrow> bool \<times> bytes \<times> 's) \<Rightarrow> 's \<Rightarrow> (bytes \<times> bytes) list \<Rightarrow> OP_RESULT \<times> 's \<times> (bytes \<times> bytes) list" where
  "scanx_list f s [] = (NOT_FOUND, s, [])"
| "scanx_list f s (e # es) =
     (case f s (fst e) (snd e) of (continue, v, s) \<Rightarrow>
        if continue then (case scanx_list f s es of (r, s, us) \<Rightarrow> (r, s, (fst e, v) # us)) else (OK, s, [(fst e, v)]))"

lemma scanx_list_keys: "fst ` set (snd (snd (scanx_list f s es))) \<subseteq> fst ` set es"
proof (induction es arbitrary: s)
  case (Cons e es)
  obtain c v s' where f: "f s (fst e) (snd e) = (c, v, s')" by (metis prod_cases3)
  obtain r s'' us where r: "scanx_list f s' es = (r, s'', us)" by (metis prod_cases3)
  show ?case using Cons.IH [of s'] f r by auto
qed simp

lemma scanAscExclusive_loop_ok:
  assumes "btree_inv b t" "on_entry b t it e" "to_visit b t it = es" "distinct (map fst (e # es))"
    "\<And>s x. x \<in> set (e # es) \<Longrightarrow> length (fst (snd (f s (fst x) (snd x)))) = length (snd x)"
  shows "\<exists>b'. scanAscExclusive_loop b f s it =
      Some (case scanx_list f s (e # es) of (r, s', us) \<Rightarrow> (r, s', b')) \<and>
    is_btree b' (tree_map b t ++ map_of (snd (snd (scanx_list f s (e # es)))))"
  using assms
proof (induction es arbitrary: b t e it s)
  case Nil
  obtain c v s' where f: "f s (fst e) (snd e) = (c, v, s')" by (metis prod_cases3)
  have l: "length v = length (snd e)" using Nil.prems(5) [of e s] f by simp
  let ?b = "set_page b (it_leaf it) (writePayload (leaf_of b it) (nat (cur it)) v)"
  obtain t' where W: "btree_inv ?b t'" "tree_map ?b t' = (tree_map b t)(fst e \<mapsto> v)" "on_entry ?b t' it (fst e, v)"
      "to_visit ?b t' it = to_visit b t it"
    using write_entry [OF Nil.prems(1,2) l] by blast
  obtain l u where s: "sub (bfs ?b) (height ?b) t' None None 1 (PLeaf (it_leaf it)) l u" "cur it \<ge> -1"
    using W(3) by (auto simp: on_entry_def)
  obtain it' where nx: "iter_next ?b it = Some (NOT_FOUND, it')"
    using iter_next_ok [OF W(1) s] W(4) Nil.prems(3) by auto
  have "is_btree ?b ((tree_map b t)(fst e \<mapsto> v))" by (rule is_btreeI [OF W(1,2)])
  then show ?case using nx f on_entry_key [OF Nil.prems(2)]
    by (subst scanAscExclusive_loop.simps) (auto simp: Let_def)
next
  case (Cons e' es)
  obtain c v s' where f: "f s (fst e) (snd e) = (c, v, s')" by (metis prod_cases3)
  have l: "length v = length (snd e)" using Cons.prems(5) [of e s] f by simp
  let ?b = "set_page b (it_leaf it) (writePayload (leaf_of b it) (nat (cur it)) v)"
  obtain t' where W: "btree_inv ?b t'" "tree_map ?b t' = (tree_map b t)(fst e \<mapsto> v)" "on_entry ?b t' it (fst e, v)"
      "to_visit ?b t' it = to_visit b t it"
    using write_entry [OF Cons.prems(1,2) l] by blast
  obtain l u where s: "sub (bfs ?b) (height ?b) t' None None 1 (PLeaf (it_leaf it)) l u" "cur it \<ge> -1"
    using W(3) by (auto simp: on_entry_def)
  obtain it' where nx: "iter_next ?b it = Some (OK, it')" "on_entry ?b t' it' e'" "to_visit ?b t' it' = es"
    using iter_next_ok [OF W(1) s] W(4) Cons.prems(3) by auto
  show ?case
  proof (cases c)
    case False
    have "is_btree ?b ((tree_map b t)(fst e \<mapsto> v))" by (rule is_btreeI [OF W(1,2)])
    then show ?thesis using f False on_entry_key [OF Cons.prems(2)]
      by (subst scanAscExclusive_loop.simps) (auto simp: Let_def)
  next
    case True
    obtain r s'' us where R: "scanx_list f s' (e' # es) = (r, s'', us)" by (metis prod_cases3)
    obtain b' where IH: "scanAscExclusive_loop ?b f s' it' = Some (r, s'', b')" "is_btree b' (tree_map ?b t' ++ map_of us)"
      using Cons.IH [OF W(1) nx(2,3), of s'] Cons.prems(4,5) R by auto
    have "fst e \<notin> fst ` set us" using scanx_list_keys [of f s' "e' # es"] R Cons.prems(4) by auto
    then have "tree_map b t ++ map_of ((fst e, v) # us) = tree_map ?b t' ++ map_of us"
      using W(2) map_add_upd_left [of "fst e" "map_of us" "tree_map b t" v] by (simp add: map_of_eq_None_iff domIff)
    then show ?thesis using IH f True nx(1) R on_entry_key [OF Cons.prems(2)]
      by (subst scanAscExclusive_loop.simps) (auto simp: Let_def)
  qed
qed

lemma scanAscExclusive_map:
  assumes "is_btree b m" and len: "\<And>s k v. m k = Some v \<Longrightarrow> length (fst (snd (f s k v))) = length v"
  shows "\<exists>b'. scanAscExclusive b k f s =
      Some (case scanx_list f s (filter (\<lambda>e. k \<le> fst e) (map_entries m)) of (r, s', us) \<Rightarrow> (r, s', b')) \<and>
    is_btree b' (m ++ map_of (snd (snd (scanx_list f s (filter (\<lambda>e. k \<le> fst e) (map_entries m))))))"
proof -
  obtain t where t: "btree_inv b t" "tree_map b t = m" using assms(1) by (auto simp: is_btree_def)
  define es where "es = filter (\<lambda>e. k \<le> fst e) (map_entries m)"
  have es: "es = filter (\<lambda>e. k \<le> fst e) (entries b t)" using entries_map_entries [OF t(1)] t(2) by (simp add: es_def)
  have d: "distinct (map fst es)" unfolding es using entries_distinct [OF t(1)] by (simp add: distinct_map_filter)
  show ?thesis
  proof (cases es)
    case Nil
    then show ?thesis using seek_ok [OF t(1), of k] es assms(1) unfolding es_def [symmetric] by (auto simp: scanAscExclusive_def)
  next
    case (Cons e es')
    obtain it where it: "seek b new_iter k = Some (OK, it)" "on_entry b t it e" "to_visit b t it = es'"
      using seek_ok [OF t(1), of k, folded es] Cons by auto
    have "length (fst (snd (f s (fst x) (snd x)))) = length (snd x)" if "x \<in> set (e # es')" for s x
    proof (rule len)
      have "x \<in> set (entries b t)" using that Cons es by (metis filter_is_subset subsetD)
      then show "m (fst x) = Some (snd x)" using entries_distinct [OF t(1)] t(2) by (auto simp: tree_map_def)
    qed
    note L = scanAscExclusive_loop_ok [OF t(1) it(2,3) _ this, where s = s]
    show ?thesis using L d it(1) t(2) Cons unfolding es_def [symmetric] by (auto simp: scanAscExclusive_def)
  qed
qed

text \<open>\<open>findLeafNeighbouringNodeBoundary\<close> returns.\<close>

lemma boundary_loop_returns:
  assumes "btree_inv b t" "sub (bfs b) (height b) t None None 1 (PLeaf (it_leaf it)) l u"
  shows "\<exists>r. boundary_loop b n mk end it = Some r"
  using assms(2)
proof (induction n arbitrary: mk "end" it l u)
  case (Suc n)
  let ?it = "toMaxKeyInNode b it"
  have s: "sub (bfs b) (height b) t None None 1 (PLeaf (it_leaf ?it)) l u" "cur ?it \<ge> -1"
    using Suc.prems by (simp_all add: toMaxKeyInNode_def)
  obtain r it' l' u' where nx: "iter_next b ?it = Some (r, it')" "sub (bfs b) (height b) t None None 1 (PLeaf (it_leaf it')) l' u'"
    using iter_next_ok [OF assms(1) s] by (cases "to_visit b t ?it") (auto simp: on_entry_def)
  show ?case using nx(1) Suc.IH [OF nx(2)] by (simp add: Let_def)
qed simp

lemma boundary_returns:
  assumes "is_btree b m"
  shows "\<exists>r. findLeafNeighbouringNodeBoundary b k n = Some r"
proof -
  obtain t where t: "btree_inv b t" "tree_map b t = m" using assms(1) by (auto simp: is_btree_def)
  show ?thesis
  proof (cases "filter (\<lambda>e. k \<le> fst e) (entries b t)")
    case Nil
    then show ?thesis using seek_ok [OF t(1), of k] by (auto simp: findLeafNeighbouringNodeBoundary_def)
  next
    case (Cons e es)
    then obtain it where it: "seek b new_iter k = Some (OK, it)" "on_entry b t it e" using seek_ok [OF t(1), of k] by auto
    then obtain l u where "sub (bfs b) (height b) t None None 1 (PLeaf (it_leaf it)) l u" by (auto simp: on_entry_def)
    then show ?thesis using boundary_loop_returns [OF t(1)] it(1) by (simp add: findLeafNeighbouringNodeBoundary_def)
  qed
qed

section \<open>The interface\<close>

text \<open>The operations. \<open>op_poke\<close> is a lookup, and \<open>op_scan_poke\<close> an ascending scan, whose callback writes to the payload through the
  pointer it is given (the adapters cast its \<open>const\<close> away). The callback of a scan decides after each entry whether to go
  on: \<open>op_scanAsc\<close> asks it with the list of the entries visited so far, which is also the result.\<close>

record 's btree_ops =
  op_lookup :: "'s \<Rightarrow> bytes \<Rightarrow> (OP_RESULT \<times> bytes option) option"
  op_poke :: "'s \<Rightarrow> bytes \<Rightarrow> (bytes \<Rightarrow> bytes) \<Rightarrow> (OP_RESULT \<times> bytes option \<times> 's) option"
  op_insert :: "'s \<Rightarrow> bytes \<Rightarrow> bytes \<Rightarrow> (OP_RESULT jmu \<times> 's) option"
  op_insert_might_fail :: "'s \<Rightarrow> bytes \<Rightarrow> bytes \<Rightarrow> (OP_RESULT \<times> 's) option"
  op_upsert :: "'s \<Rightarrow> bytes \<Rightarrow> bytes \<Rightarrow> (OP_RESULT jmu \<times> 's) option"
  op_updateSameSize :: "'s \<Rightarrow> bytes \<Rightarrow> (bytes \<Rightarrow> bytes) \<Rightarrow> (OP_RESULT \<times> 's) option"
  op_remove :: "'s \<Rightarrow> bytes \<Rightarrow> bool \<Rightarrow> (OP_RESULT \<times> 's) option"
  op_scanAsc :: "'s \<Rightarrow> bytes \<Rightarrow> ((bytes \<times> bytes) list \<Rightarrow> bool) \<Rightarrow> (bytes \<times> bytes) list option"
  op_scan_poke :: "'s \<Rightarrow> bytes \<Rightarrow> (bytes \<Rightarrow> bytes \<Rightarrow> bool \<times> bytes) \<Rightarrow> ((bytes \<times> bytes) list \<times> 's) option"
  op_boundary :: "'s \<Rightarrow> bytes \<Rightarrow> nat \<Rightarrow> (bytes \<times> bool) option"

fun visit :: "('e list \<Rightarrow> bool) \<Rightarrow> 'e list \<Rightarrow> 'e list \<Rightarrow> 'e list" where
  "visit continue acc [] = acc"
| "visit continue acc (e # es) = (if continue (acc @ [e]) then visit continue (acc @ [e]) es else acc @ [e])"

text \<open>A scan that pokes: the entries it visits, and the payloads it leaves.\<close>

fun poked :: "(bytes \<Rightarrow> bytes \<Rightarrow> bool \<times> bytes) \<Rightarrow> (bytes \<times> bytes) list \<Rightarrow> (bytes \<times> bytes) list \<times> (bytes \<times> bytes) list" where
  "poked f [] = ([], [])"
| "poked f (e # es) =
     (case f (fst e) (snd e) of (continue, v) \<Rightarrow>
        if continue then (case poked f es of (vs, us) \<Rightarrow> (e # vs, (fst e, v) # us)) else ([e], [(fst e, v)]))"

locale btree_contract =
  fixes T :: "'s btree_ops" and rep :: "'s \<Rightarrow> (bytes \<rightharpoonup> bytes) \<Rightarrow> bool" and starved :: "'s \<Rightarrow> bool"
  assumes rep_finite: "rep s m \<Longrightarrow> finite (dom m)"
    and lookup: "rep s m \<Longrightarrow> op_lookup T s k = Some (case m k of Some v \<Rightarrow> (OK, Some v) | None \<Rightarrow> (NOT_FOUND, None))"
    and poke: "rep s m \<Longrightarrow> (\<And>v. m k = Some v \<Longrightarrow> length (f v) = length v) \<Longrightarrow>
      \<exists>s'. op_poke T s k f = Some (case m k of Some v \<Rightarrow> (OK, Some v, s') | None \<Rightarrow> (NOT_FOUND, None, s')) \<and>
        rep s' (case m k of Some v \<Rightarrow> m(k \<mapsto> f v) | None \<Rightarrow> m)"
    and insert: "rep s m \<Longrightarrow> key_ok k \<Longrightarrow> val_ok v \<Longrightarrow> \<exists>r s'. op_insert T s k v = Some (r, s') \<and>
      (if k \<in> dom m then r = Ret DUPLICATE \<and> rep s' m
       else (r = Ret OK \<and> rep s' (m(k \<mapsto> v))) \<or> (r = Jump \<and> rep s' m \<and> starved s'))"
    and insert_might_fail: "rep s m \<Longrightarrow> key_ok k \<Longrightarrow> val_ok v \<Longrightarrow> \<exists>r s'. op_insert_might_fail T s k v = Some (r, s') \<and>
      (if k \<in> dom m then r = DUPLICATE \<and> rep s' m
       else (r = OK \<and> rep s' (m(k \<mapsto> v))) \<or> (r = NOT_ENOUGH_SPACE \<and> rep s' m))"
    and upsert: "rep s m \<Longrightarrow> key_ok k \<Longrightarrow> val_ok v \<Longrightarrow> (\<And>old. m k = Some old \<Longrightarrow> length v \<le> length old) \<Longrightarrow>
      \<exists>r s'. op_upsert T s k v = Some (r, s') \<and>
        ((r = Ret OK \<and> rep s' (m(k \<mapsto> v))) \<or> (r = Jump \<and> rep s' m \<and> starved s' \<and> k \<notin> dom m))"
    and update: "rep s m \<Longrightarrow> (\<And>v. m k = Some v \<Longrightarrow> length (f v) = length v) \<Longrightarrow>
      \<exists>s'. op_updateSameSize T s k f = Some (if k \<in> dom m then OK else NOT_FOUND, s') \<and>
        rep s' (case m k of Some v \<Rightarrow> m(k \<mapsto> f v) | None \<Rightarrow> m)"
    and remove: "rep s m \<Longrightarrow>
      \<exists>s'. op_remove T s k no_merge = Some (if k \<in> dom m then OK else NOT_FOUND, s') \<and> rep s' (m(k := None))"
    and scan: "rep s m \<Longrightarrow> op_scanAsc T s k continue = Some (visit continue [] (filter (\<lambda>e. k \<le> fst e) (map_entries m)))"
    and scan_poke: "rep s m \<Longrightarrow> (\<And>k v. m k = Some v \<Longrightarrow> length (snd (g k v)) = length v) \<Longrightarrow>
      \<exists>s'. op_scan_poke T s k g = Some (fst (poked g (filter (\<lambda>e. k \<le> fst e) (map_entries m))), s') \<and>
        rep s' (m ++ map_of (snd (poked g (filter (\<lambda>e. k \<le> fst e) (map_entries m)))))"
    and boundary: "rep s m \<Longrightarrow> \<exists>r. op_boundary T s k n = Some r"

section \<open>BTreeLL provides it\<close>

text \<open>The random number, the latch contention and the contention tracker that an update sees are a function of the tree's
  state.\<close>

definition ll_ops :: "cm_flags \<Rightarrow> (btree \<Rightarrow> u64 \<times> bool \<times> ContentionTracker) \<Rightarrow> btree btree_ops" where
  "ll_ops flags env = \<lparr>
     op_lookup = ll_lookup,
     op_poke = lookupForUpdate,
     op_insert = ll_insert,
     op_insert_might_fail = insert_might_fail,
     op_upsert = upsert,
     op_updateSameSize = (\<lambda>b k f. case env b of (rnd, faced, tr) \<Rightarrow> updateSameSize flags rnd faced tr b k f),
     op_remove = remove_no_merge,
     op_scanAsc = (\<lambda>b k continue. map_option snd (scanAsc b k (\<lambda>vs k v. (continue (vs @ [(k, v)]), vs @ [(k, v)])) [])),
     op_scan_poke = (\<lambda>b k f. map_option (\<lambda>(_, vs, b). (vs, b))
       (scanAscExclusive b k (\<lambda>vs k v. case f k v of (c, v') \<Rightarrow> (c, v', vs @ [(k, v)])) [])),
     op_boundary = findLeafNeighbouringNodeBoundary\<rparr>"

lemma scan_list_visit:
  "snd (scan_list (\<lambda>vs k v. (continue (vs @ [(k, v)]), vs @ [(k, v)])) acc es) = visit continue acc es"
  by (induction es arbitrary: acc) auto

lemma scanx_list_poked:
  "\<exists>r. scanx_list (\<lambda>vs k v. case f k v of (c, v') \<Rightarrow> (c, v', vs @ [(k, v)])) acc es = (r, acc @ fst (poked f es), snd (poked f es))"
proof (induction es arbitrary: acc)
  case (Cons e es)
  obtain c v where f: "f (fst e) (snd e) = (c, v)" by (cases "f (fst e) (snd e)")
  obtain vs us where p: "poked f es = (vs, us)" by (cases "poked f es")
  show ?case using Cons.IH [of "acc @ [e]"] f p by auto
qed simp

lemma insert_map:
  assumes "is_btree b m" "key_ok k" "val_ok v"
  shows "\<exists>r b'. ll_insert b k v = Some (r, b') \<and>
    (if k \<in> dom m then r = Ret DUPLICATE \<and> is_btree b' m
     else (r = Ret OK \<and> is_btree b' (m(k \<mapsto> v))) \<or> (r = Jump \<and> is_btree b' m \<and> length (free_list b') < 2))"
proof -
  obtain t where t: "btree_inv b t" "tree_map b t = m" using assms(1) by (auto simp: is_btree_def)
  obtain r it b' t' where "insertKV b new_iter k v = Some (r, it, b')" "insert_outcome b t k v r b' t'"
    using insertKV_ok [OF t(1) iter_at_new(1) assms(2,3)] by blast
  then show ?thesis using t(2)
    by (intro exI [of _ r] exI [of _ b'], cases "k \<in> dom m") (auto simp: ll_insert_def insert_outcome_def intro: is_btreeI)
qed

lemma replace_fits_shorter:
  assumes inv: "btree_inv b t" and old: "tree_map b t k = Some old" and len: "length v \<le> length old"
  shows "replace_fits b k v"
proof -
  obtain w l u where F: "findLeafCanJump b k = Some w" "leaf_for b t k w l u" using findLeaf_ok [OF inv, of k] by blast
  have k: "k \<in> set (keys (bfs b w))" using leaf_keys_map(1) [OF inv F(2)] old by auto
  have "getPayload (bfs b w) (rank (keys (bfs b w)) k) = old"
    using content_at(3) [OF leaf_keys_map(2) [OF inv F(2)] k] tree_map_leaf [OF inv F(2)] old by simp
  then show ?thesis
    using leaf_remove(3) [OF leaf_for_facts(1) [OF inv F(2)] k, of "length v"] F(1) len by (auto simp: replace_fits_def)
qed

lemma upsert_map:
  assumes "is_btree b m" "key_ok k" "val_ok v" "\<And>old. m k = Some old \<Longrightarrow> length v \<le> length old"
  shows "\<exists>r b'. upsert b k v = Some (r, b') \<and>
    ((r = Ret OK \<and> is_btree b' (m(k \<mapsto> v))) \<or> (r = Jump \<and> is_btree b' m \<and> length (free_list b') < 2 \<and> k \<notin> dom m))"
proof -
  obtain t where t: "btree_inv b t" "tree_map b t = m" using assms(1) by (auto simp: is_btree_def)
  have "replace_fits b k v" if "k \<in> dom m"
    using that replace_fits_shorter [OF t(1), of k _ v] t(2) assms(4) by auto
  then show ?thesis using upsert_ok [OF t(1) assms(2,3)] t(2) by (cases "k \<in> dom m") auto
qed

interpretation ll: btree_contract "ll_ops flags env" is_btree "\<lambda>b. length (free_list b) < 2" for flags env
proof
  fix s :: btree and m :: "bytes \<rightharpoonup> bytes" and k v :: bytes and f :: "bytes \<Rightarrow> bytes" and continue g no_merge n
  assume r: "is_btree s m"
  then obtain t where t: "btree_inv s t" "tree_map s t = m" by (auto simp: is_btree_def)
  have es: "entries s t = map_entries m" using entries_map_entries [OF t(1)] t(2) by simp
  show "finite (dom m)" using t(2) by (auto simp: tree_map_def finite_dom_map_of)
  show "op_lookup (ll_ops flags env) s k = Some (case m k of Some v \<Rightarrow> (OK, Some v) | None \<Rightarrow> (NOT_FOUND, None))"
    using ll_lookup_ok [OF t(1), of k] t(2) by (simp add: ll_ops_def)
  show "\<exists>s'. op_poke (ll_ops flags env) s k f = Some (case m k of Some v \<Rightarrow> (OK, Some v, s') | None \<Rightarrow> (NOT_FOUND, None, s')) \<and>
      is_btree s' (case m k of Some v \<Rightarrow> m(k \<mapsto> f v) | None \<Rightarrow> m)"
    if "\<And>v. m k = Some v \<Longrightarrow> length (f v) = length v"
    using lookupForUpdate_ok [OF t(1), unfolded t(2), OF that] by (simp add: ll_ops_def)
  show "\<exists>s'. op_updateSameSize (ll_ops flags env) s k f = Some (if k \<in> dom m then OK else NOT_FOUND, s') \<and>
      is_btree s' (case m k of Some v \<Rightarrow> m(k \<mapsto> f v) | None \<Rightarrow> m)"
    if "\<And>v. m k = Some v \<Longrightarrow> length (f v) = length v"
  proof -
    obtain rnd faced tr where e: "env s = (rnd, faced, tr)" by (metis prod_cases3)
    show ?thesis
      using updateSameSize_ok [OF t(1), unfolded t(2), of k f flags rnd faced tr, OF that] by (simp add: ll_ops_def e)
  qed
  show "\<exists>s'. op_remove (ll_ops flags env) s k no_merge = Some (if k \<in> dom m then OK else NOT_FOUND, s') \<and> is_btree s' (m(k := None))"
    using ll_remove_ok(2) [OF t(1), unfolded t(2)] by (simp add: ll_ops_def)
  show "op_scanAsc (ll_ops flags env) s k continue = Some (visit continue [] (filter (\<lambda>e. k \<le> fst e) (map_entries m)))"
    unfolding ll_ops_def btree_ops.simps scanAsc_ok [OF t(1)] es by (simp only: option.map scan_list_visit)
  show "\<exists>s'. op_scan_poke (ll_ops flags env) s k g = Some (fst (poked g (filter (\<lambda>e. k \<le> fst e) (map_entries m))), s') \<and>
      is_btree s' (m ++ map_of (snd (poked g (filter (\<lambda>e. k \<le> fst e) (map_entries m)))))"
    if "\<And>k v. m k = Some v \<Longrightarrow> length (snd (g k v)) = length v"
  proof -
    let ?f = "\<lambda>vs k v. case g k v of (c, v') \<Rightarrow> (c, v', vs @ [(k, v)])"
    have "length (fst (snd (?f vs k v))) = length v" if "m k = Some v" for vs k v
      using that \<open>\<And>k v. m k = Some v \<Longrightarrow> length (snd (g k v)) = length v\<close> [of k v] by (cases "g k v") simp
    note X = scanAscExclusive_map [OF r, of ?f k "[]", OF this]
    obtain vs us where p: "poked g (filter (\<lambda>e. k \<le> fst e) (map_entries m)) = (vs, us)" by (metis surj_pair)
    obtain res where "scanx_list ?f [] (filter (\<lambda>e. k \<le> fst e) (map_entries m)) = (res, vs, us)"
      using scanx_list_poked [of g "[]" "filter (\<lambda>e. k \<le> fst e) (map_entries m)"] p by auto
    then show ?thesis using X p by (simp add: ll_ops_def) blast
  qed
  show "\<exists>r. op_boundary (ll_ops flags env) s k n = Some r" using boundary_returns [OF r] by (simp add: ll_ops_def)
qed (use insert_map insert_might_fail_map upsert_map in \<open>simp_all add: ll_ops_def\<close>)

end
