(* ===== verification/TaggedPayload.thy ===== *)
theory TaggedPayload
  imports Keys
begin

unbundle bit_operations_syntax

text \<open>
  The payload with a tag byte that the two-tree adapters store in the hot tree (\<open>TaggedPayload\<close> in
  twotree/ConcurrentTwoBTree.hpp): bit 0 says modified, bit 1 referenced, bit 2 deleted, and the top three bits count
  references. In memory it is the payload followed by the tag byte.
\<close>

section \<open>The tag byte\<close>

definition kDeletedBits :: u8 where
  "kDeletedBits = 4"

definition kReferenceMask :: u8 where
  "kReferenceMask = 0xE0"

definition kMaxReferenceCount :: u8 where
  "kMaxReferenceCount = 7"

definition tag_modified :: "u8 \<Rightarrow> bool" where
  "tag_modified bits \<longleftrightarrow> bits AND 1 \<noteq> 0"

definition set_modified :: "u8 \<Rightarrow> u8" where
  "set_modified bits = bits OR 1"

definition clear_modified :: "u8 \<Rightarrow> u8" where
  "clear_modified bits = bits AND NOT 1"

definition get_reference_count :: "u8 \<Rightarrow> u8" where
  "get_reference_count bits = drop_bit 5 bits"

definition set_reference_count :: "u8 \<Rightarrow> u8 \<Rightarrow> u8" where
  "set_reference_count count bits = (NOT kReferenceMask AND bits) OR push_bit 5 count"

definition bump_reference_count :: "u8 \<Rightarrow> u8" where
  "bump_reference_count bits =
     (let old_ref_count = get_reference_count bits in
      set_reference_count (if old_ref_count = 7 then 7 else old_ref_count + 1) bits)"

definition dec_reference_count :: "u8 \<Rightarrow> u8" where
  "dec_reference_count bits =
     (let old_ref_count = get_reference_count bits in
      set_reference_count (if old_ref_count = 0 then 0 else old_ref_count - 1) bits)"

definition tag_referenced :: "u8 \<Rightarrow> bool" where
  "tag_referenced bits \<longleftrightarrow> bits AND 2 \<noteq> 0"

definition set_referenced :: "u8 \<Rightarrow> u8" where
  "set_referenced bits = bits OR 2"

definition clear_referenced :: "u8 \<Rightarrow> u8" where
  "clear_referenced bits = bits AND NOT 2"

definition tag_deleted :: "u8 \<Rightarrow> bool" where
  "tag_deleted bits \<longleftrightarrow> bits AND 4 \<noteq> 0"

definition set_deleted :: "u8 \<Rightarrow> u8" where
  "set_deleted bits = bits OR 4"

definition clear_deleted :: "u8 \<Rightarrow> u8" where
  "clear_deleted bits = bits AND NOT 4"

section \<open>Facts about the tag byte\<close>

lemma bit_small: "bit (1 :: u8) n \<longleftrightarrow> n = 0" "bit (2 :: u8) n \<longleftrightarrow> n = 1" "bit (4 :: u8) n \<longleftrightarrow> n = 2"
  by (simp_all add: bit_1_iff) (use bit_exp_iff [of 1 n, where 'a = u8] bit_exp_iff [of 2 n, where 'a = u8] in auto)

lemma and_bit: "(x :: u8) AND 2 ^ n \<noteq> 0 \<longleftrightarrow> bit x n"
  by (simp add: and_exp_eq_0_iff_not_bit)

lemma tag_bits: "tag_modified b \<longleftrightarrow> bit b 0" "tag_referenced b \<longleftrightarrow> bit b 1" "tag_deleted b \<longleftrightarrow> bit b 2"
  using and_bit [of b 0] and_bit [of b 1] and_bit [of b 2] by (simp_all add: tag_modified_def tag_referenced_def tag_deleted_def)

lemma mask_ref: "kReferenceMask = push_bit 5 (mask 3)"
  by (simp add: kReferenceMask_def mask_eq_exp_minus_1)

text \<open>Counting references does not touch the flags, and the flags do not touch the count.\<close>

lemma set_count_bits: "n < 5 \<Longrightarrow> bit (set_reference_count c b) n = bit b n"
  by (auto simp: set_reference_count_def mask_ref bit_simps)

lemma get_set_count: "c \<le> 7 \<Longrightarrow> get_reference_count (set_reference_count c b) = c"
proof -
  assume "c \<le> 7"
  then have "unat c mod 8 = unat c" by (simp add: word_le_nat_alt)
  then have "take_bit 3 c = c" by (simp add: take_bit_eq_mod unat_mod_distrib word_unat_eq_iff)
  then have c: "bit c n \<Longrightarrow> n < 3" for n by (metis bit_take_bit_iff)
  show ?thesis
    by (rule bit_word_eqI) (auto simp: get_reference_count_def set_reference_count_def mask_ref bit_simps dest: c)
qed

lemma count_le_7: "get_reference_count b \<le> 7"
proof -
  have "unat (drop_bit 5 b) = unat b div 32" by (simp add: drop_bit_eq_div unat_div_distrib)
  moreover have "unat b < 256" using unsigned_less [of b] by simp
  ultimately show ?thesis by (simp add: get_reference_count_def word_le_nat_alt)
qed

lemma bit_count: "bit (get_reference_count b) n = bit b (5 + n)"
  by (simp add: get_reference_count_def bit_simps)

lemma flag_bits: "bit (set_modified b) n = (bit b n \<or> n = 0)" "bit (set_referenced b) n = (bit b n \<or> n = 1)"
    "bit (clear_referenced b) n = (bit b n \<and> n \<noteq> 1)"
  using bit_imp_le_length [of b n]
  unfolding set_modified_def set_referenced_def clear_referenced_def bit_or_iff bit_and_iff bit_not_iff bit_small by auto

lemma flag_count: "get_reference_count (set_modified b) = get_reference_count b" "get_reference_count (set_referenced b) = get_reference_count b"
    "get_reference_count (clear_referenced b) = get_reference_count b"
  by (rule bit_word_eqI; simp add: bit_count flag_bits)+

lemma tag_flags [simp]:
  "tag_modified (set_modified b)" "tag_modified (set_referenced b) = tag_modified b" "tag_modified (clear_referenced b) = tag_modified b"
  "tag_modified (bump_reference_count b) = tag_modified b" "tag_modified (dec_reference_count b) = tag_modified b"
  "tag_referenced (set_referenced b)" "\<not> tag_referenced (clear_referenced b)" "tag_referenced (dec_reference_count b) = tag_referenced b"
  "tag_referenced (bump_reference_count b) = tag_referenced b" "\<not> tag_modified (clear_modified b)"
  by (auto simp: tag_bits set_modified_def set_referenced_def clear_referenced_def clear_modified_def bump_reference_count_def
    dec_reference_count_def set_count_bits bit_simps bit_small Let_def)

text \<open>C38. The three-bit reference count saturates at both ends instead of wrapping around, and counting leaves the modified and
  referenced flags of the tag byte alone.\<close>

theorem reference_count_saturates:
  "get_reference_count (bump_reference_count b) = (if get_reference_count b = kMaxReferenceCount then kMaxReferenceCount else get_reference_count b + 1) \<and>
   get_reference_count (dec_reference_count b) = (if get_reference_count b = 0 then 0 else get_reference_count b - 1) \<and>
   tag_modified (bump_reference_count b) = tag_modified b \<and> tag_referenced (bump_reference_count b) = tag_referenced b \<and>
   tag_modified (dec_reference_count b) = tag_modified b \<and> tag_referenced (dec_reference_count b) = tag_referenced b"
proof -
  let ?c = "get_reference_count b"
  have c: "?c \<le> 7" by (rule count_le_7)
  have "?c + 1 \<le> 7" if "?c \<noteq> 7" using c that by (simp add: word_le_nat_alt word_unat_eq_iff unat_word_ariths)
  moreover have "?c - 1 \<le> 7" if "?c \<noteq> 0" using c that by (simp add: word_le_nat_alt unat_minus_one)
  ultimately show ?thesis
    by (simp add: bump_reference_count_def dec_reference_count_def kMaxReferenceCount_def get_set_count Let_def tag_bits set_count_bits)
qed

end
