(* ===== verification/ConcurrentTwoBTree.thy ===== *)
theory ConcurrentTwoBTree
  imports BTreeInterface TaggedPayload
begin

text \<open>
  The two-tree adapter of twotree/ConcurrentTwoBTree.hpp: records live in a small hot tree or in a large cold tree, move up
  when they are read and down when they are evicted. Keys are 64-bit integers, stored in the order-preserving encoding;
  the payload size is a parameter. The trees are used through the operations of \<open>btree_ops\<close>. The model is that of one
  worker: the record locks are free and validate. I/O and hit counters are left out. \<open>None\<close> stands for a call that does
  not return or touches memory outside a payload, \<open>Jump\<close> for one that is still waiting for a free page.
\<close>

section \<open>State\<close>

record 's two =
  hot :: 's
  cold :: 's
  payload_size :: nat
  inclusive :: bool
  clock_hand :: u64
  eviction_round :: nat
  round_refs :: "nat \<Rightarrow> nat"
  hot_partition_item_count :: int
  hot_partition_size_bytes :: int
  eviction_items :: nat
  upward_migrations :: nat
  failed_upward_migrations :: nat
  downward_migrations :: nat
  total_lookups :: nat
  lookups_hit_top :: nat
  scan_ops :: nat

text \<open>What a call learns from its surroundings: the two tests of the size of the hot partition, the test that
  \<open>try_eviction\<close> makes, the outcome of \<open>should_migrate\<close>, and the 5 per cent draw of \<open>lookup_internal\<close>.\<close>

record two_env =
  evict_first :: bool
  cache_under_pressure :: bool
  cache_under_pressure_soft :: bool
  should_migrate :: bool
  admit_anyway :: bool

definition TaggedPayload_size :: "'s two \<Rightarrow> nat" where
  "TaggedPayload_size t = payload_size t + 1"

text \<open>Sequencing of calls that may be waiting.\<close>

definition bindj :: "('a jmu \<times> 't) option \<Rightarrow> ('a \<Rightarrow> 't \<Rightarrow> ('b jmu \<times> 't) option) \<Rightarrow> ('b jmu \<times> 't) option" where
  "bindj x f = (case x of None \<Rightarrow> None | Some (Jump, t) \<Rightarrow> Some (Jump, t) | Some (Ret a, t) \<Rightarrow> f a t)"

section \<open>Access to the two trees\<close>

definition upsert_cold_partition :: "'s btree_ops \<Rightarrow> u64 \<Rightarrow> bytes \<Rightarrow> 's two \<Rightarrow> (unit jmu \<times> 's two) option" where
  "upsert_cold_partition T k v t =
     (case op_upsert T (cold t) (fold_u64 k) v of
        None \<Rightarrow> None
      | Some (Jump, c) \<Rightarrow> Some (Jump, t\<lparr>cold := c\<rparr>)
      | Some (Ret op_res, c) \<Rightarrow> Some (Ret (), t\<lparr>cold := c\<rparr>))"

definition insert_cold_partition :: "'s btree_ops \<Rightarrow> u64 \<Rightarrow> bytes \<Rightarrow> 's two \<Rightarrow> (unit jmu \<times> 's two) option" where
  "insert_cold_partition T k v t =
     (case op_insert T (cold t) (fold_u64 k) v of
        None \<Rightarrow> None
      | Some (Jump, c) \<Rightarrow> Some (Jump, t\<lparr>cold := c\<rparr>)
      | Some (Ret op_res, c) \<Rightarrow> Some (Ret (), t\<lparr>cold := c\<rparr>))"

definition hot_tag :: "bool \<Rightarrow> bool \<Rightarrow> u8" where
  "hot_tag modified referenced =
     (let bits = (if \<not> referenced then clear_referenced 0 else bump_reference_count (set_referenced 0)) in
      if modified then set_modified bits else clear_modified bits)"

definition insert_hot_partition_might_fail ::
  "'s btree_ops \<Rightarrow> u64 \<Rightarrow> bytes \<Rightarrow> bool \<Rightarrow> bool \<Rightarrow> 's two \<Rightarrow> (bool jmu \<times> 's two) option" where
  "insert_hot_partition_might_fail T k v modified referenced t =
     (case op_insert_might_fail T (hot t) (fold_u64 k) (v @ [hot_tag modified referenced]) of
        None \<Rightarrow> None
      | Some (op_res, h) \<Rightarrow>
          if op_res \<noteq> OK then Some (Ret False, t\<lparr>hot := h\<rparr>)
          else Some (Ret True, t\<lparr>hot := h, hot_partition_item_count := hot_partition_item_count t + 1\<rparr>))"

definition insert_hot_partition ::
  "'s btree_ops \<Rightarrow> u64 \<Rightarrow> bytes \<Rightarrow> bool \<Rightarrow> bool \<Rightarrow> 's two \<Rightarrow> (unit jmu \<times> 's two) option" where
  "insert_hot_partition T k v modified referenced t =
     (let t = t\<lparr>hot_partition_item_count := hot_partition_item_count t + 1\<rparr> in
      case op_insert T (hot t) (fold_u64 k) (v @ [hot_tag modified referenced]) of
        None \<Rightarrow> None
      | Some (Jump, h) \<Rightarrow> Some (Jump, t\<lparr>hot := h\<rparr>)
      | Some (Ret op_res, h) \<Rightarrow> Some (Ret (), t\<lparr>hot := h\<rparr>))"

definition insert_hot_partition_deleted_mark :: "'s btree_ops \<Rightarrow> u64 \<Rightarrow> 's two \<Rightarrow> (unit jmu \<times> 's two) option" where
  "insert_hot_partition_deleted_mark T k t =
     (let t = t\<lparr>hot_partition_item_count := hot_partition_item_count t + 1\<rparr> in
      case op_insert T (hot t) (fold_u64 k) [kDeletedBits] of
        None \<Rightarrow> None
      | Some (Jump, h) \<Rightarrow> Some (Jump, t\<lparr>hot := h\<rparr>)
      | Some (Ret op_res, h) \<Rightarrow> Some (Ret (), t\<lparr>hot := h\<rparr>))"

definition admit_element_might_fail ::
  "'s btree_ops \<Rightarrow> u64 \<Rightarrow> bytes \<Rightarrow> bool \<Rightarrow> bool \<Rightarrow> 's two \<Rightarrow> (bool jmu \<times> 's two) option" where
  "admit_element_might_fail T k v dirty referenced t =
     bindj (insert_hot_partition_might_fail T k v dirty referenced t) (\<lambda>ok t.
       if ok
       then Some (Ret True, t\<lparr>hot_partition_size_bytes := hot_partition_size_bytes t + 8 + int (TaggedPayload_size t)\<rparr>)
       else Some (Ret False, t))"

definition admit_element ::
  "'s btree_ops \<Rightarrow> u64 \<Rightarrow> bytes \<Rightarrow> bool \<Rightarrow> bool \<Rightarrow> 's two \<Rightarrow> (unit jmu \<times> 's two) option" where
  "admit_element T k v dirty referenced t =
     bindj (insert_hot_partition T k v dirty referenced t) (\<lambda>_ t.
       Some (Ret (), t\<lparr>hot_partition_size_bytes := hot_partition_size_bytes t + 8 + int (TaggedPayload_size t)\<rparr>))"

definition admit_delete_mark_element :: "'s btree_ops \<Rightarrow> u64 \<Rightarrow> 's two \<Rightarrow> (unit jmu \<times> 's two) option" where
  "admit_delete_mark_element T k t =
     bindj (insert_hot_partition_deleted_mark T k t) (\<lambda>_ t.
       Some (Ret (), t\<lparr>hot_partition_size_bytes := hot_partition_size_bytes t + 8 + 1\<rparr>))"

section \<open>Eviction\<close>

definition kClockWalkSteps :: nat where
  "kClockWalkSteps = 10"

text \<open>The first part of \<open>evict_a_bunch\<close>, under the eviction mutex: the range of keys to look at, if any.\<close>

definition evict_range :: "'s btree_ops \<Rightarrow> 's two \<Rightarrow> ((u64 \<times> u64 \<times> nat) option \<times> 's two) option" where
  "evict_range T t =
     (let start_key = clock_hand t; round = eviction_round t in
      if round_refs t (1 - round mod 2) \<noteq> 0 then Some (None, t)
      else
        case op_boundary T (hot t) (fold_u64 start_key) kClockWalkSteps of
          None \<Rightarrow> None
        | Some (k, rewind) \<Rightarrow>
            (let end_key = unfold_u64 k;
                 t = t\<lparr>round_refs := (round_refs t)(round mod 2 := round_refs t (round mod 2) + 1)\<rparr>;
                 t = (if rewind then t\<lparr>clock_hand := 0, eviction_round := round + 1\<rparr> else t\<lparr>clock_hand := end_key + 1\<rparr>) in
             Some (Some (start_key, end_key, round), t)))"

text \<open>The callback of the scan: it ages the record, and leaves the referenced ones with a second chance.\<close>

definition evict_callback :: "u64 \<Rightarrow> bytes \<Rightarrow> bytes \<Rightarrow> bool \<times> bytes" where
  "evict_callback end_key kb v =
     (if unfold_u64 kb > end_key then (False, v)
      else
        (let bits = dec_reference_count (last v);
             bits = (if tag_referenced bits then clear_referenced bits else bits) in
         (unfold_u64 kb < end_key, butlast v @ [bits])))"

definition victims :: "u64 \<Rightarrow> (bytes \<times> bytes) list \<Rightarrow> (u64 \<times> bytes) list" where
  "victims end_key visited =
     [(unfold_u64 kb, butlast v @ [dec_reference_count (last v)]).
        (kb, v) \<leftarrow> visited, unfold_u64 kb \<le> end_key \<and> \<not> tag_referenced (last v)]"

definition evict_one :: "'s btree_ops \<Rightarrow> bool \<Rightarrow> u64 \<times> bytes \<Rightarrow> 's two \<Rightarrow> (unit jmu \<times> 's two) option" where
  "evict_one T no_merge e t =
     (case e of (key, tp) \<Rightarrow>
        bindj
          (if inclusive t then
             (if tag_modified (last tp)
              then bindj (upsert_cold_partition T key (butlast tp) t) (\<lambda>_ t.
                     Some (Ret (), t\<lparr>downward_migrations := downward_migrations t + 1\<rparr>))
              else Some (Ret (), t))
           else
             bindj (insert_cold_partition T key (butlast tp) t) (\<lambda>_ t.
               Some (Ret (), t\<lparr>downward_migrations := downward_migrations t + 1\<rparr>)))
          (\<lambda>_ t.
             case op_remove T (hot t) (fold_u64 key) no_merge of
               None \<Rightarrow> None
             | Some (op_res, h) \<Rightarrow>
                 Some (Ret (), t\<lparr>hot := h, hot_partition_item_count := hot_partition_item_count t - 1,
                   hot_partition_size_bytes := hot_partition_size_bytes t - (8 + int (TaggedPayload_size t))\<rparr>)))"

primrec evict_loop :: "'s btree_ops \<Rightarrow> bool \<Rightarrow> (u64 \<times> bytes) list \<Rightarrow> 's two \<Rightarrow> (unit jmu \<times> 's two) option" where
  "evict_loop T no_merge [] t = Some (Ret (), t)"
| "evict_loop T no_merge (e # es) t = bindj (evict_one T no_merge e t) (\<lambda>_ t. evict_loop T no_merge es t)"

text \<open>\<open>evict_a_bunch\<close>. A delete mark is shorter than a \<open>TaggedPayload\<close>: the scan would read and write behind it.\<close>

definition evict_a_bunch :: "'s btree_ops \<Rightarrow> bool \<Rightarrow> 's two \<Rightarrow> (unit jmu \<times> 's two) option" where
  "evict_a_bunch T no_merge t =
     (case evict_range T t of
        None \<Rightarrow> None
      | Some (None, t) \<Rightarrow> Some (Ret (), t)
      | Some (Some (start_key, end_key, round), t) \<Rightarrow>
          (case op_scan_poke T (hot t) (fold_u64 start_key) (evict_callback end_key) of
             None \<Rightarrow> None
           | Some (visited, h) \<Rightarrow>
               if \<exists>(kb, v) \<in> set visited. unfold_u64 kb \<le> end_key \<and> length v \<noteq> TaggedPayload_size t then None
               else
                 (let vs = victims end_key visited in
                  bindj (evict_loop T no_merge vs (t\<lparr>hot := h\<rparr>)) (\<lambda>_ t.
                    Some (Ret (), t\<lparr>eviction_items := eviction_items t + length vs,
                      round_refs := (round_refs t)(round mod 2 := round_refs t (round mod 2) - 1)\<rparr>)))))"

definition try_eviction :: "'s btree_ops \<Rightarrow> two_env \<Rightarrow> 's two \<Rightarrow> (unit jmu \<times> 's two) option" where
  "try_eviction T env t = (if evict_first env then evict_a_bunch T False t else Some (Ret (), t))"

partial_function (option) evict_all :: "'s btree_ops \<Rightarrow> 's two \<Rightarrow> (unit jmu \<times> 's two) option" where
  "evict_all T t =
     (if hot_partition_item_count t > 10
      then case evict_a_bunch T False t of None \<Rightarrow> None | Some (Jump, t) \<Rightarrow> Some (Jump, t) | Some (Ret _, t) \<Rightarrow> evict_all T t
      else Some (Ret (), t))"

section \<open>Operations\<close>

text \<open>The callback of the hot lookup: a hit sets the referenced bit and counts the reference.\<close>

definition touch :: "bytes \<Rightarrow> bytes" where
  "touch p =
     (if length p = 1 then p
      else
        (let bits = last p;
             bits = (if \<not> tag_referenced bits then set_referenced bits else bits);
             bits = (if get_reference_count bits < kMaxReferenceCount then bump_reference_count bits else bits) in
         butlast p @ [bits]))"

text \<open>\<open>lookup_internal\<close> returns whether the key was found and the payload that it copied.\<close>

definition lookup_internal ::
  "'s btree_ops \<Rightarrow> two_env \<Rightarrow> u64 \<Rightarrow> 's two \<Rightarrow> ((bool \<times> bytes option) jmu \<times> 's two) option" where
  "lookup_internal T env k t =
     (let t = t\<lparr>total_lookups := total_lookups t + 1\<rparr> in
      case op_poke T (hot t) (fold_u64 k) touch of
        None \<Rightarrow> None
      | Some (res, p, h) \<Rightarrow>
          (let t = t\<lparr>hot := h\<rparr>; deleted = (case p of Some p \<Rightarrow> length p = 1 | None \<Rightarrow> False) in
           if deleted then Some (Ret (False, None), t)
           else if res = OK then Some (Ret (True, map_option (take (payload_size t)) p), t)
           else
             case op_lookup T (cold t) (fold_u64 k) of
               None \<Rightarrow> None
             | Some (cres, cp) \<Rightarrow>
                 if cres = OK then
                   (let v = take (payload_size t) (the cp) in
                    if should_migrate env then
                      bindj
                        (if cache_under_pressure_soft env \<and> \<not> cache_under_pressure env then
                           (if admit_anyway env
                            then bindj (admit_element T k v False False t) (\<lambda>_ t. Some (Ret True, t))
                            else admit_element_might_fail T k v False False t)
                         else bindj (admit_element T k v False False t) (\<lambda>_ t. Some (Ret True, t)))
                        (\<lambda>res t.
                           let t = (if res then t\<lparr>upward_migrations := upward_migrations t + 1\<rparr>
                                    else t\<lparr>failed_upward_migrations := failed_upward_migrations t + 1\<rparr>) in
                           if \<not> inclusive t \<and> res then
                             (case op_remove T (cold t) (fold_u64 k) False of
                                None \<Rightarrow> None
                              | Some (op_res, c) \<Rightarrow> Some (Ret (True, Some v), t\<lparr>cold := c\<rparr>))
                           else Some (Ret (True, Some v), t))
                    else Some (Ret (True, Some v), t))
                 else Some (Ret (False, None), t)))"

definition two_lookup :: "'s btree_ops \<Rightarrow> two_env \<Rightarrow> u64 \<Rightarrow> 's two \<Rightarrow> ((bool \<times> bytes option) jmu \<times> 's two) option" where
  "two_lookup T env k t = bindj (try_eviction T env t) (\<lambda>_ t. lookup_internal T env k t)"

definition two_insert :: "'s btree_ops \<Rightarrow> two_env \<Rightarrow> u64 \<Rightarrow> bytes \<Rightarrow> 's two \<Rightarrow> (unit jmu \<times> 's two) option" where
  "two_insert T env k v t = bindj (try_eviction T env t) (\<lambda>_ t. admit_element T k v True False t)"

definition two_remove :: "'s btree_ops \<Rightarrow> u64 \<Rightarrow> 's two \<Rightarrow> (bool jmu \<times> 's two) option" where
  "two_remove T k t =
     (case op_lookup T (hot t) (fold_u64 k) of
        None \<Rightarrow> None
      | Some (op_res, p) \<Rightarrow>
          if (case p of Some p \<Rightarrow> length p = 1 | None \<Rightarrow> False) then Some (Ret True, t)
          else if op_res = NOT_FOUND then bindj (admit_delete_mark_element T k t) (\<lambda>_ t. Some (Ret True, t))
          else if op_res = OK then
            (case op_remove T (hot t) (fold_u64 k) False of
               None \<Rightarrow> None
             | Some (op_res, h) \<Rightarrow>
                 bindj (admit_delete_mark_element T k (t\<lparr>hot := h, hot_partition_item_count := hot_partition_item_count t - 1,
                     hot_partition_size_bytes := hot_partition_size_bytes t - (8 + int (TaggedPayload_size t))\<rparr>))
                   (\<lambda>_ t. Some (Ret True, t)))
          else None)"

text \<open>The callbacks of \<open>update\<close> and \<open>put\<close> on the hot tree.\<close>

definition overwrite :: "bytes \<Rightarrow> bytes \<Rightarrow> bytes" where
  "overwrite v p = v @ [set_modified (set_referenced (last p))]"

definition update_callback :: "bytes \<Rightarrow> bytes \<Rightarrow> bytes" where
  "update_callback v p = (if length p = 1 then p else overwrite v p)"

definition two_update :: "'s btree_ops \<Rightarrow> two_env \<Rightarrow> u64 \<Rightarrow> bytes \<Rightarrow> 's two \<Rightarrow> (unit jmu \<times> 's two) option" where
  "two_update T env k v t =
     bindj (try_eviction T env t) (\<lambda>_ t.
       let t = t\<lparr>total_lookups := total_lookups t + 1\<rparr> in
       case op_updateSameSize T (hot t) (fold_u64 k) (update_callback v) of
         None \<Rightarrow> None
       | Some (op_res, h) \<Rightarrow>
           (let t = t\<lparr>hot := h\<rparr> in
            if op_res = OK then Some (Ret (), t\<lparr>lookups_hit_top := lookups_hit_top t + 1\<rparr>)
            else
              case op_lookup T (cold t) (fold_u64 k) of
                None \<Rightarrow> None
              | Some (cres, old_v) \<Rightarrow>
                  if should_migrate env then
                    bindj
                      (if cache_under_pressure_soft env then admit_element_might_fail T k v False True t
                       else bindj (admit_element T k v True False t) (\<lambda>_ t. Some (Ret True, t)))
                      (\<lambda>res t.
                         let t = (if res then t\<lparr>upward_migrations := upward_migrations t + 1\<rparr>
                                  else t\<lparr>failed_upward_migrations := failed_upward_migrations t + 1\<rparr>) in
                         if \<not> inclusive t \<and> res then
                           (case op_remove T (cold t) (fold_u64 k) False of
                              None \<Rightarrow> None
                            | Some (op_res, c) \<Rightarrow> Some (Ret (), t\<lparr>cold := c\<rparr>))
                         else Some (Ret (), t))
                  else
                    (case op_updateSameSize T (cold t) (fold_u64 k) (\<lambda>p. v @ drop (payload_size t) p) of
                       None \<Rightarrow> None
                     | Some (op_res, c) \<Rightarrow> Some (Ret (), t\<lparr>cold := c\<rparr>))))"

text \<open>\<open>put\<close> does not look for a delete mark: its callback would write a whole \<open>TaggedPayload\<close> over it.\<close>

definition two_put :: "'s btree_ops \<Rightarrow> two_env \<Rightarrow> u64 \<Rightarrow> bytes \<Rightarrow> 's two \<Rightarrow> (unit jmu \<times> 's two) option" where
  "two_put T env k v t =
     bindj (try_eviction T env t) (\<lambda>_ t.
       case op_lookup T (hot t) (fold_u64 k) of
         None \<Rightarrow> None
       | Some (_, p) \<Rightarrow>
           if (case p of Some p \<Rightarrow> length p \<noteq> TaggedPayload_size t | None \<Rightarrow> False) then None
           else
             case op_updateSameSize T (hot t) (fold_u64 k) (overwrite v) of
               None \<Rightarrow> None
             | Some (op_res, h) \<Rightarrow>
                 (let t = t\<lparr>hot := h\<rparr> in
                  if op_res = OK then Some (Ret (), t)
                  else
                    bindj (admit_element T k v True False t) (\<lambda>_ t.
                      if \<not> inclusive t then
                        (case op_remove T (cold t) (fold_u64 k) False of
                           None \<Rightarrow> None
                         | Some (op_res, c) \<Rightarrow> Some (Ret (), t\<lparr>cold := c\<rparr>))
                      else Some (Ret (), t))))"

end
