(* ===== verification/TwoTreeCorrect.thy ===== *)
theory TwoTreeCorrect
  imports ConcurrentTwoBTree
begin

text \<open>
  Correctness of the two-tree adapter. The abstract state is one map from keys to payloads, the hot tree shadowing the cold
  one; \<open>two_ok\<close> relates the two trees (in the inclusive mode an unmodified hot record has an identical cold copy, in the
  exclusive mode a hot record has none). The lemmas are proved for any tree that keeps \<open>btree_contract\<close>, and the
  properties follow by the interpretation for \<open>BTreeLL\<close>.
\<close>

section \<open>The abstract view of two trees\<close>

lemma bindj_simps [simp]: "bindj None f = None" "bindj (Some (Jump, t)) f = Some (Jump, t)" "bindj (Some (Ret a, t)) f = f a t"
  by (simp_all add: bindj_def)

definition is_mark :: "bytes \<Rightarrow> bool" where
  "is_mark p \<longleftrightarrow> length p = 1"

definition view :: "(bytes \<rightharpoonup> bytes) \<Rightarrow> (bytes \<rightharpoonup> bytes) \<Rightarrow> u64 \<rightharpoonup> bytes" where
  "view mh mc k = (case mh (fold_u64 k) of Some p \<Rightarrow> if is_mark p then None else Some (butlast p) | None \<Rightarrow> mc (fold_u64 k))"

definition hot_entry_ok :: "nat \<Rightarrow> bool \<Rightarrow> (bytes \<rightharpoonup> bytes) \<Rightarrow> bytes \<Rightarrow> bytes \<Rightarrow> bool" where
  "hot_entry_ok n incl mc k p \<longleftrightarrow>
     is_mark p \<or> length p = n + 1 \<and> (if incl then \<not> tag_modified (last p) \<longrightarrow> mc k = Some (butlast p) else mc k = None)"

definition two_ok :: "nat \<Rightarrow> bool \<Rightarrow> (bytes \<rightharpoonup> bytes) \<Rightarrow> (bytes \<rightharpoonup> bytes) \<Rightarrow> bool" where
  "two_ok n incl mh mc \<longleftrightarrow> 0 < n \<and> n + 1 \<le> 4096 \<and> dom mh \<subseteq> range fold_u64 \<and> dom mc \<subseteq> range fold_u64 \<and>
     (\<forall>k p. mh k = Some p \<longrightarrow> hot_entry_ok n incl mc k p) \<and> (\<forall>k v. mc k = Some v \<longrightarrow> length v = n)"

definition marks :: "(bytes \<rightharpoonup> bytes) \<Rightarrow> u64 set" where
  "marks mh = {k. \<exists>p. mh (fold_u64 k) = Some p \<and> is_mark p}"

definition unmarked :: "(bytes \<rightharpoonup> bytes) \<Rightarrow> bool" where
  "unmarked mh \<longleftrightarrow> (\<forall>k p. mh k = Some p \<longrightarrow> \<not> is_mark p)"

lemma unmarked_marks: "unmarked mh \<Longrightarrow> marks mh = {}"
  by (auto simp: unmarked_def marks_def)

lemma two_okD:
  assumes "two_ok n incl mh mc"
  shows "0 < n" "n + 1 \<le> 4096" "mh k = Some p \<Longrightarrow> hot_entry_ok n incl mc k p" "mc k = Some v \<Longrightarrow> length v = n"
    "mh k = Some p \<Longrightarrow> k \<in> range fold_u64" "mc k = Some v \<Longrightarrow> k \<in> range fold_u64"
  using assms unfolding two_ok_def by blast+

lemma fold_ok [simp]: "key_ok (fold_u64 k)"
  by (simp add: key_ok_def)

text \<open>The changes that the operations make to the two maps. A tag that keeps the payload and the modified bit is invisible.\<close>

definition retag :: "(bytes \<rightharpoonup> bytes) \<Rightarrow> (bytes \<rightharpoonup> bytes) \<Rightarrow> bool" where
  "retag mh mh' \<longleftrightarrow> dom mh' = dom mh \<and> (\<forall>k p p'. mh k = Some p \<longrightarrow> mh' k = Some p' \<longrightarrow>
     length p' = length p \<and> (\<not> is_mark p \<longrightarrow> butlast p' = butlast p \<and> tag_modified (last p') = tag_modified (last p)))"

lemma retagD:
  assumes "retag mh mh'"
  shows "mh' k = None \<longleftrightarrow> mh k = None"
    "mh k = Some p \<Longrightarrow> \<exists>p'. mh' k = Some p' \<and> length p' = length p \<and>
       (\<not> is_mark p \<longrightarrow> butlast p' = butlast p \<and> tag_modified (last p') = tag_modified (last p))"
    "mh' k = Some p' \<Longrightarrow> \<exists>p. mh k = Some p \<and> length p' = length p \<and>
       (\<not> is_mark p \<longrightarrow> butlast p' = butlast p \<and> tag_modified (last p') = tag_modified (last p))"
  using assms unfolding retag_def dom_def by blast+

lemma retag_view: assumes "retag mh mh'" shows "view mh' mc = view mh mc"
proof
  fix k
  show "view mh' mc k = view mh mc k"
    using retagD(1,2) [OF assms, of "fold_u64 k"] by (cases "mh (fold_u64 k)") (auto simp: view_def is_mark_def)
qed

lemma retag_two_ok: assumes "retag mh mh'" "two_ok n incl mh mc" shows "two_ok n incl mh' mc"
proof -
  have "hot_entry_ok n incl mc k p'" if "mh' k = Some p'" for k p'
    using retagD(3) [OF assms(1) that] two_okD(3) [OF assms(2), of k] by (auto simp: hot_entry_ok_def is_mark_def)
  then show ?thesis using assms by (auto simp: two_ok_def retag_def)
qed

lemma retag_unmarked: "retag mh mh' \<Longrightarrow> unmarked mh' = unmarked mh"
  unfolding unmarked_def is_mark_def by (metis retagD(2,3))

lemma retag_marks: "retag mh mh' \<Longrightarrow> marks mh' = marks mh"
  unfolding marks_def is_mark_def by (rule Collect_cong) (metis retagD(2,3))

lemma two_ok_hot: "two_ok n incl mh mc \<Longrightarrow> hot_entry_ok n incl mc (fold_u64 k) p \<Longrightarrow> two_ok n incl (mh(fold_u64 k \<mapsto> p)) mc"
  by (auto simp: two_ok_def)

lemma two_ok_hot_del: "two_ok n incl mh mc \<Longrightarrow> two_ok n incl (mh(fold_u64 k := None)) mc"
  by (auto simp: two_ok_def)

lemma two_ok_cold:
  assumes "two_ok n incl mh mc" "mh (fold_u64 k) = None" "\<And>v. ov = Some v \<Longrightarrow> length v = n"
  shows "two_ok n incl mh (mc(fold_u64 k := ov))"
proof -
  have "hot_entry_ok n incl (mc(fold_u64 k := ov)) j p" if "mh j = Some p" for j p
    using two_okD(3) [OF assms(1) that] that assms(2) by (auto simp: hot_entry_ok_def)
  then show ?thesis using assms(1,3) by (auto simp: two_ok_def)
qed

lemma view_hot: "view (mh(fold_u64 k \<mapsto> p)) mc = (view mh mc)(k := if is_mark p then None else Some (butlast p))"
  by (rule ext) (simp add: view_def)

lemma view_hot_del: "view (mh(fold_u64 k := None)) mc = (view mh mc)(k := mc (fold_u64 k))"
  by (rule ext) (simp add: view_def)

lemma view_cold: "view mh (mc(fold_u64 k := ov)) = (if mh (fold_u64 k) = None then (view mh mc)(k := ov) else view mh mc)"
  by (rule ext) (auto simp: view_def split: option.split)

text \<open>The evicted record goes to the cold map unless an identical copy is there.\<close>

lemma evicted:
  assumes "two_ok n incl mh mc" "mh (fold_u64 k) = Some p" "\<not> is_mark p"
  shows "incl \<Longrightarrow> \<not> tag_modified (last p) \<Longrightarrow> mc(fold_u64 k \<mapsto> butlast p) = mc"
    "two_ok n incl (mh(fold_u64 k := None)) (mc(fold_u64 k \<mapsto> butlast p))"
    "view (mh(fold_u64 k := None)) (mc(fold_u64 k \<mapsto> butlast p)) = view mh mc"
proof -
  have e: "length p = n + 1" "incl \<longrightarrow> \<not> tag_modified (last p) \<longrightarrow> mc (fold_u64 k) = Some (butlast p)"
    using two_okD(3) [OF assms(1,2)] assms(3) by (auto simp: hot_entry_ok_def)
  show "mc(fold_u64 k \<mapsto> butlast p) = mc" if "incl" "\<not> tag_modified (last p)" using e(2) that by (simp add: fun_upd_idem)
  show *: "two_ok n incl (mh(fold_u64 k := None)) (mc(fold_u64 k \<mapsto> butlast p))"
    by (rule two_ok_cold [OF two_ok_hot_del [OF assms(1)]]) (use e(1) in auto)
  have "view mh mc k = Some (butlast p)" using assms(2,3) by (simp add: view_def)
  then show **: "view (mh(fold_u64 k := None)) (mc(fold_u64 k \<mapsto> butlast p)) = view mh mc"
    by (simp add: view_cold view_hot_del fun_upd_idem)
qed

section \<open>The counters of the hot partition\<close>

definition counted :: "int \<Rightarrow> int \<Rightarrow> (bytes \<rightharpoonup> bytes) \<Rightarrow> bool" where
  "counted items sz mh \<longleftrightarrow> items = int (card (dom mh)) \<and> sz = (\<Sum>k \<in> dom mh. 8 + int (length (the (mh k))))"

lemma counted_add:
  assumes "counted items sz mh" "finite (dom mh)" "mh k = None"
  shows "counted (items + 1) (sz + (8 + int (length p))) (mh(k \<mapsto> p))"
proof -
  have "(\<Sum>j \<in> dom mh. 8 + int (length (the ((mh(k \<mapsto> p)) j)))) = (\<Sum>j \<in> dom mh. 8 + int (length (the (mh j))))"
    by (rule sum.cong) (use assms(3) in auto)
  moreover have "k \<notin> dom mh" "dom (mh(k \<mapsto> p)) = insert k (dom mh)" using assms(3) by auto
  ultimately show ?thesis using assms by (simp add: counted_def del: dom_fun_upd)
qed

lemma counted_del:
  assumes "counted items sz mh" "finite (dom mh)" "mh k = Some p"
  shows "counted (items - 1) (sz - (8 + int (length p))) (mh(k := None))"
proof -
  have "(\<Sum>j \<in> dom mh - {k}. 8 + int (length (the ((mh(k := None)) j)))) = (\<Sum>j \<in> dom mh - {k}. 8 + int (length (the (mh j))))"
    by (rule sum.cong) auto
  moreover have "dom (mh(k := None)) = dom mh - {k}" "k \<in> dom mh" using assms(3) by auto
  moreover have "int (card (dom mh - {k})) = int (card (dom mh)) - 1"
    using card.remove [OF assms(2) domI, of k p] assms(3) by linarith
  ultimately show ?thesis using assms by (simp add: counted_def sum.remove)
qed

lemma counted_retag:
  assumes "counted items sz mh" "retag mh mh'"
  shows "counted items sz mh'"
proof -
  have "(\<Sum>k \<in> dom mh'. 8 + int (length (the (mh' k)))) = (\<Sum>k \<in> dom mh. 8 + int (length (the (mh k))))"
  proof (rule sum.cong)
    show "dom mh' = dom mh" using assms(2) by (simp add: retag_def)
    show "8 + int (length (the (mh' k))) = 8 + int (length (the (mh k)))" if "k \<in> dom mh" for k
      using that retagD(2) [OF assms(2), of k] by auto
  qed
  then show ?thesis using assms by (simp add: counted_def retag_def)
qed

section \<open>The operations, over any tree that keeps the contract\<close>

definition two_rep :: "('s \<Rightarrow> (bytes \<rightharpoonup> bytes) \<Rightarrow> bool) \<Rightarrow> 's two \<Rightarrow> (bytes \<rightharpoonup> bytes) \<Rightarrow> (bytes \<rightharpoonup> bytes) \<Rightarrow> bool" where
  "two_rep rep t mh mc \<longleftrightarrow> rep (hot t) mh \<and> rep (cold t) mc \<and> two_ok (payload_size t) (inclusive t) mh mc"

abbreviation hot_counted :: "'s two \<Rightarrow> (bytes \<rightharpoonup> bytes) \<Rightarrow> bool" where
  "hot_counted t mh \<equiv> counted (hot_partition_item_count t) (hot_partition_size_bytes t) mh"

abbreviation same_cfg :: "'s two \<Rightarrow> 's two \<Rightarrow> bool" where
  "same_cfg t t' \<equiv> payload_size t' = payload_size t \<and> inclusive t' = inclusive t"

lemma two_repD:
  assumes "two_rep rep t mh mc"
  shows "rep (hot t) mh" "rep (cold t) mc" "two_ok (payload_size t) (inclusive t) mh mc"
  using assms by (simp_all add: two_rep_def)

lemma hot_tag_flags [simp]: "tag_modified (hot_tag d r) = d" "tag_referenced (hot_tag d r) = r"
  unfolding hot_tag_def Let_def
  by (auto simp: tag_bits set_modified_def clear_modified_def set_referenced_def clear_referenced_def bump_reference_count_def
    set_count_bits bit_simps bit_small Let_def)

context btree_contract
begin

lemma admit_ok:
  assumes "rep (hot t) mh" "mh (fold_u64 k) = None" "length v = payload_size t" "payload_size t + 1 \<le> 4096"
  shows "\<exists>r t'. admit_element T k v d rf t = Some (r, t') \<and> cold t' = cold t \<and> same_cfg t t' \<and>
    (r = Ret () \<and> rep (hot t') (mh(fold_u64 k \<mapsto> v @ [hot_tag d rf])) \<and>
        (hot_counted t mh \<longrightarrow> hot_counted t' (mh(fold_u64 k \<mapsto> v @ [hot_tag d rf]))) \<or>
     r = Jump \<and> rep (hot t') mh \<and> starved (hot t'))"
proof -
  let ?p = "v @ [hot_tag d rf]"
  have v: "val_ok ?p" using assms(3,4) by (simp add: val_ok_def)
  obtain r s' where I: "op_insert T (hot t) (fold_u64 k) ?p = Some (r, s')"
      "(r = Ret OK \<and> rep s' (mh(fold_u64 k \<mapsto> ?p))) \<or> (r = Jump \<and> rep s' mh \<and> starved s')"
    using insert [OF assms(1) fold_ok [of k] v] assms(2) by (auto simp: domIff)
  have "hot_counted t mh \<Longrightarrow> counted (hot_partition_item_count t + 1) (hot_partition_size_bytes t + (8 + int (length ?p))) (mh(fold_u64 k \<mapsto> ?p))"
    by (rule counted_add [OF _ rep_finite [OF assms(1)] assms(2)])
  then show ?thesis using I assms(3)
    by (auto simp: admit_element_def insert_hot_partition_def TaggedPayload_size_def Let_def algebra_simps)
qed

lemma admit_might_fail_ok:
  assumes "rep (hot t) mh" "mh (fold_u64 k) = None" "length v = payload_size t" "payload_size t + 1 \<le> 4096"
  shows "\<exists>r t'. admit_element_might_fail T k v d rf t = Some (Ret r, t') \<and> cold t' = cold t \<and> same_cfg t t' \<and>
    (if r then rep (hot t') (mh(fold_u64 k \<mapsto> v @ [hot_tag d rf])) \<and>
        (hot_counted t mh \<longrightarrow> hot_counted t' (mh(fold_u64 k \<mapsto> v @ [hot_tag d rf])))
     else rep (hot t') mh \<and> (hot_counted t mh \<longrightarrow> hot_counted t' mh))"
proof -
  let ?p = "v @ [hot_tag d rf]"
  have v: "val_ok ?p" using assms(3,4) by (simp add: val_ok_def)
  obtain r s' where I: "op_insert_might_fail T (hot t) (fold_u64 k) ?p = Some (r, s')"
      "(r = OK \<and> rep s' (mh(fold_u64 k \<mapsto> ?p))) \<or> (r = NOT_ENOUGH_SPACE \<and> rep s' mh)"
    using insert_might_fail [OF assms(1) fold_ok [of k] v] assms(2) by (auto simp: domIff)
  have "hot_counted t mh \<Longrightarrow> counted (hot_partition_item_count t + 1) (hot_partition_size_bytes t + (8 + int (length ?p))) (mh(fold_u64 k \<mapsto> ?p))"
    by (rule counted_add [OF _ rep_finite [OF assms(1)] assms(2)])
  then show ?thesis using I assms(3)
    by (auto simp: admit_element_might_fail_def insert_hot_partition_might_fail_def TaggedPayload_size_def Let_def algebra_simps)
qed

lemma admit_mark_ok:
  assumes "rep (hot t) mh" "mh (fold_u64 k) = None"
  shows "\<exists>r t'. admit_delete_mark_element T k t = Some (r, t') \<and> cold t' = cold t \<and> same_cfg t t' \<and>
    (r = Ret () \<and> rep (hot t') (mh(fold_u64 k \<mapsto> [kDeletedBits])) \<and>
        (hot_counted t mh \<longrightarrow> hot_counted t' (mh(fold_u64 k \<mapsto> [kDeletedBits]))) \<or>
     r = Jump \<and> rep (hot t') mh \<and> starved (hot t'))"
proof -
  have v: "val_ok [kDeletedBits]" by (simp add: val_ok_def)
  obtain r s' where I: "op_insert T (hot t) (fold_u64 k) [kDeletedBits] = Some (r, s')"
      "(r = Ret OK \<and> rep s' (mh(fold_u64 k \<mapsto> [kDeletedBits]))) \<or> (r = Jump \<and> rep s' mh \<and> starved s')"
    using insert [OF assms(1) fold_ok [of k] v] assms(2) by (auto simp: domIff)
  have "hot_counted t mh \<Longrightarrow> counted (hot_partition_item_count t + 1) (hot_partition_size_bytes t + (8 + int (length [kDeletedBits]))) (mh(fold_u64 k \<mapsto> [kDeletedBits]))"
    by (rule counted_add [OF _ rep_finite [OF assms(1)] assms(2)])
  then show ?thesis using I
    by (auto simp: admit_delete_mark_element_def insert_hot_partition_deleted_mark_def Let_def algebra_simps)
qed

end

text \<open>Eviction.\<close>

lemma poked_snd: "snd (poked f es) = map (\<lambda>e. (fst e, snd (f (fst e) (snd e)))) (fst (poked f es))"
  by (induction es) (auto split: prod.split)

lemma poked_prefix: "\<exists>zs. es = fst (poked f es) @ zs"
  by (induction es) (auto split: prod.split)

lemma poked_map:
  assumes "finite (dom m)" and vs: "vs = fst (poked f (filter (\<lambda>e. k \<le> fst e) (map_entries m)))"
  shows "distinct (map fst vs)" "(j, v) \<in> set vs \<Longrightarrow> m j = Some v"
    "(m ++ map_of (snd (poked f (filter (\<lambda>e. k \<le> fst e) (map_entries m))))) j =
       (case m j of Some v \<Rightarrow> Some (if (j, v) \<in> set vs then snd (f j v) else v) | None \<Rightarrow> None)"
proof -
  let ?es = "filter (\<lambda>e. k \<le> fst e) (map_entries m)"
  obtain zs where z: "?es = vs @ zs" using poked_prefix vs by metis
  have "distinct (map fst ?es)"
    by (rule distinct_map_filter) (rule sorted_wrt_less_distinct [OF sorted_map_entries])
  then show d: "distinct (map fst vs)" unfolding z by simp
  have sub: "set vs \<subseteq> {(j, v). m j = Some v}"
    using arg_cong [OF z, of set] set_map_entries [OF assms(1)] by auto
  then show m: "(j, v) \<in> set vs \<Longrightarrow> m j = Some v" for j v by auto
  have mo: "map_of (snd (poked f ?es)) j = map_option (\<lambda>v. snd (f j v)) (map_of vs j)"
    unfolding poked_snd vs [symmetric] by (induction vs) auto
  show "(m ++ map_of (snd (poked f ?es))) j = (case m j of Some v \<Rightarrow> Some (if (j, v) \<in> set vs then snd (f j v) else v) | None \<Rightarrow> None)"
  proof (cases "map_of vs j")
    case None
    then have "(j, v) \<notin> set vs" for v by (metis map_of_eq_None_iff image_eqI fst_conv)
    then show ?thesis using None mo by (auto simp: map_add_def split: option.split)
  next
    case (Some w)
    then have "(j, w) \<in> set vs" by (rule map_of_SomeD)
    then show ?thesis using Some mo m by (auto simp: map_add_def)
  qed
qed

lemma retag_scan:
  assumes "\<And>j. mh' j = (case mh j of Some v \<Rightarrow> Some (if (j, v) \<in> S then snd (evict_callback e j v) else v) | None \<Rightarrow> None)"
    "unmarked mh" "\<And>k p. mh k = Some p \<Longrightarrow> p \<noteq> []"
  shows "retag mh mh'"
proof -
  have "length (snd (evict_callback e j v)) = length v \<and> butlast (snd (evict_callback e j v)) = butlast v \<and>
      tag_modified (last (snd (evict_callback e j v))) = tag_modified (last v)" if "mh j = Some v" for j v
    using assms(3) [OF that] by (simp add: evict_callback_def Let_def)
  moreover have "dom mh' = dom mh" using assms(1) by (auto simp: dom_def split: option.splits)
  ultimately show ?thesis unfolding retag_def using assms(1) by simp
qed

context btree_contract
begin

lemma evict_one_ok:
  assumes R: "two_rep rep t mh mc" and h: "mh (fold_u64 k) = Some tp" "\<not> is_mark tp"
  shows "\<exists>r t' mh' mc'. evict_one T nm (k, tp) t = Some (r, t') \<and> two_rep rep t' mh' mc' \<and> view mh' mc' = view mh mc \<and> same_cfg t t' \<and>
    (hot_counted t mh \<longrightarrow> hot_counted t' mh') \<and>
    (r = Ret () \<and> mh' = mh(fold_u64 k := None) \<or> r = Jump \<and> mh' = mh \<and> starved (cold t'))"
proof -
  note r = two_repD [OF R]
  let ?mc = "mc(fold_u64 k \<mapsto> butlast tp)"
  let ?wr = "if inclusive t then
               (if tag_modified (last tp)
                then bindj (upsert_cold_partition T k (butlast tp) t) (\<lambda>_ t.
                       Some (Ret (), t\<lparr>downward_migrations := downward_migrations t + 1\<rparr>))
                else Some (Ret (), t))
             else
               bindj (insert_cold_partition T k (butlast tp) t) (\<lambda>_ t.
                 Some (Ret (), t\<lparr>downward_migrations := downward_migrations t + 1\<rparr>))"
  have e: "length tp = payload_size t + 1" "\<not> inclusive t \<longrightarrow> mc (fold_u64 k) = None"
    using two_okD(3) [OF r(3) h(1)] h(2) by (auto simp: hot_entry_ok_def split: if_splits)
  have v: "val_ok (butlast tp)" using e(1) two_okD(2) [OF r(3)] by (simp add: val_ok_def)
  have wr: "\<exists>q t1. ?wr = Some (q, t1) \<and> hot t1 = hot t \<and> same_cfg t t1 \<and>
      hot_partition_item_count t1 = hot_partition_item_count t \<and> hot_partition_size_bytes t1 = hot_partition_size_bytes t \<and>
      (q = Ret () \<and> rep (cold t1) ?mc \<or> q = Jump \<and> rep (cold t1) mc \<and> starved (cold t1))"
  proof (cases "inclusive t")
    case True
    show ?thesis
    proof (cases "tag_modified (last tp)")
      case m: True
      have "length (butlast tp) \<le> length old" if "mc (fold_u64 k) = Some old" for old
        using two_okD(4) [OF r(3) that] e(1) by simp
      from upsert [OF r(2) fold_ok [of k] v this] show ?thesis using True m by (auto simp: upsert_cold_partition_def)
    next
      case False
      then show ?thesis using True evicted(1) [OF r(3) h] r(2) by simp
    qed
  next
    case False
    then show ?thesis using insert [OF r(2) fold_ok [of k] v] e(2) by (auto simp: insert_cold_partition_def domIff)
  qed
  then obtain q t1 where W: "?wr = Some (q, t1)" "hot t1 = hot t \<and> same_cfg t t1 \<and>
      hot_partition_item_count t1 = hot_partition_item_count t \<and> hot_partition_size_bytes t1 = hot_partition_size_bytes t"
    "q = Ret () \<and> rep (cold t1) ?mc \<or> q = Jump \<and> rep (cold t1) mc \<and> starved (cold t1)" by blast
  show ?thesis
  proof (cases q)
    case Jump
    then show ?thesis using W r
      by (intro exI [of _ Jump] exI [of _ t1] exI [of _ mh] exI [of _ mc]) (simp add: evict_one_def two_rep_def)
  next
    case (Ret x)
    obtain s' where S: "op_remove T (hot t) (fold_u64 k) nm = Some (OK, s')" "rep s' (mh(fold_u64 k := None))"
      using remove [OF r(1), of "fold_u64 k" nm] h(1) by (auto simp: domI)
    have c: "hot_counted t mh \<longrightarrow> counted (hot_partition_item_count t - 1) (hot_partition_size_bytes t - (8 + int (TaggedPayload_size t))) (mh(fold_u64 k := None))"
      using counted_del [OF _ rep_finite [OF r(1)] h(1)] e(1) by (simp add: TaggedPayload_size_def)
    let ?t = "t1\<lparr>hot := s', hot_partition_item_count := hot_partition_item_count t1 - 1,
      hot_partition_size_bytes := hot_partition_size_bytes t1 - (8 + int (TaggedPayload_size t1))\<rparr>"
    show ?thesis
      by (rule exI [of _ "Ret ()"], rule exI [of _ ?t], rule exI [of _ "mh(fold_u64 k := None)"], rule exI [of _ ?mc])
        (use W Ret S c evicted(2,3) [OF r(3) h] in \<open>simp add: evict_one_def two_rep_def TaggedPayload_size_def\<close>)
  qed
qed

lemma evict_loop_ok:
  assumes "two_rep rep t mh mc" "unmarked mh" "distinct (map fst es)" "\<And>k p. (k, p) \<in> set es \<Longrightarrow> mh (fold_u64 k) = Some p"
  shows "\<exists>r t' mh' mc'. evict_loop T nm es t = Some (r, t') \<and> two_rep rep t' mh' mc' \<and> view mh' mc' = view mh mc \<and> same_cfg t t' \<and>
    (hot_counted t mh \<longrightarrow> hot_counted t' mh') \<and> unmarked mh' \<and> dom mh' \<subseteq> dom mh \<and> (r = Jump \<longrightarrow> starved (cold t'))"
  using assms
proof (induction es arbitrary: t mh mc)
  case Nil
  then show ?case by auto
next
  case (Cons e es)
  obtain k p where e: "e = (k, p)" by (cases e)
  have h: "mh (fold_u64 k) = Some p" "\<not> is_mark p" using Cons.prems(2,4) e by (auto simp: unmarked_def)
  obtain r t1 mh1 mc1 where O: "evict_one T nm (k, p) t = Some (r, t1)" "two_rep rep t1 mh1 mc1" "view mh1 mc1 = view mh mc" "same_cfg t t1"
      "hot_counted t mh \<longrightarrow> hot_counted t1 mh1" "r = Ret () \<and> mh1 = mh(fold_u64 k := None) \<or> r = Jump \<and> mh1 = mh \<and> starved (cold t1)"
    using evict_one_ok [OF Cons.prems(1) h, of nm] by blast
  show ?case
  proof (cases r)
    case Jump
    then show ?thesis using O e Cons.prems(2) by auto
  next
    case (Ret x)
    have u: "unmarked mh1" "mh1 = mh(fold_u64 k := None)" using Ret O(6) Cons.prems(2) by (auto simp: unmarked_def)
    have "mh1 (fold_u64 j) = Some q" if "(j, q) \<in> set es" for j q
      using that Cons.prems(3) Cons.prems(4) [of j q] u(2) e by (auto simp: rev_image_eqI)
    from Cons.IH [OF O(2) u(1) _ this] obtain r2 t2 mh2 mc2 where
      "evict_loop T nm es t1 = Some (r2, t2) \<and> two_rep rep t2 mh2 mc2 \<and> view mh2 mc2 = view mh1 mc1 \<and> same_cfg t1 t2 \<and>
       (hot_counted t1 mh1 \<longrightarrow> hot_counted t2 mh2) \<and> unmarked mh2 \<and> dom mh2 \<subseteq> dom mh1 \<and> (r2 = Jump \<longrightarrow> starved (cold t2))"
      using Cons.prems(3) by auto
    moreover have "dom mh1 \<subseteq> dom mh" using u(2) by auto
    ultimately show ?thesis using Ret O(1,3,4,5) e
      by (intro exI [of _ r2] exI [of _ t2] exI [of _ mh2] exI [of _ mc2]) (simp, blast)
  qed
qed

end

lemma victims_of:
  assumes ds: "distinct (map fst vs)" and dom: "\<And>j v. (j, v) \<in> set vs \<Longrightarrow> m j = Some v" "dom m \<subseteq> range fold_u64"
    and m': "\<And>j. m' j = (case m j of Some v \<Rightarrow> Some (if (j, v) \<in> set vs then snd (evict_callback e j v) else v) | None \<Rightarrow> None)"
  shows "distinct (map fst (victims e vs))" "(k, p) \<in> set (victims e vs) \<Longrightarrow> m' (fold_u64 k) = Some p"
proof -
  have u: "\<exists>x. kb = fold_u64 x" if "(kb, v) \<in> set vs" for kb v using dom(1) [OF that] dom(2) by auto
  have fu: "fold_u64 (unfold_u64 kb) = kb" if "(kb, v) \<in> set vs" for kb v using u [OF that] unfold_fold_u64 by auto
  have inj: "inj_on unfold_u64 (fst ` set vs)"
  proof (rule inj_onI)
    fix x y assume "x \<in> fst ` set vs" "y \<in> fst ` set vs" "unfold_u64 x = unfold_u64 y"
    then show "x = y" by (metis fu imageE prod.collapse)
  qed
  have vi: "victims e vs = map (\<lambda>(kb, v). (unfold_u64 kb, butlast v @ [dec_reference_count (last v)]))
      (filter (\<lambda>(kb, v). unfold_u64 kb \<le> e \<and> \<not> tag_referenced (last v)) vs)"
    unfolding victims_def by (induction vs) (auto split: if_splits)
  have "map fst (victims e vs) = map unfold_u64 (map fst (filter (\<lambda>(kb, v). unfold_u64 kb \<le> e \<and> \<not> tag_referenced (last v)) vs))"
    unfolding vi by (induction vs) auto
  moreover have "distinct (map fst (filter (\<lambda>(kb, v). unfold_u64 kb \<le> e \<and> \<not> tag_referenced (last v)) vs))"
    by (rule distinct_map_filter [OF ds])
  ultimately show "distinct (map fst (victims e vs))"
    by (simp only: distinct_map) (auto intro: inj_on_subset [OF inj])
  assume "(k, p) \<in> set (victims e vs)"
  then obtain kb v where v: "(kb, v) \<in> set vs" "k = unfold_u64 kb" "unfold_u64 kb \<le> e" "\<not> tag_referenced (last v)"
      "p = butlast v @ [dec_reference_count (last v)]"
    unfolding vi by auto
  then show "m' (fold_u64 k) = Some p" using fu [OF v(1)] m' [of kb] dom(1) [OF v(1)] by (auto simp: evict_callback_def)
qed

context btree_contract
begin

lemma evict_range_ok:
  assumes "rep (hot t) mh"
  shows "evict_range T t = Some (None, t) \<or> (\<exists>s e ro t1. evict_range T t = Some (Some (s, e, ro), t1) \<and> hot t1 = hot t \<and> cold t1 = cold t \<and>
    same_cfg t t1 \<and> hot_partition_item_count t1 = hot_partition_item_count t \<and> hot_partition_size_bytes t1 = hot_partition_size_bytes t)"
proof -
  obtain k rw where "op_boundary T (hot t) (fold_u64 (clock_hand t)) kClockWalkSteps = Some (k, rw)"
    using boundary [OF assms] by fastforce
  then show ?thesis by (simp add: evict_range_def Let_def)
qed

lemma evict_ok:
  assumes R: "two_rep rep t mh mc" and um: "unmarked mh"
  shows "\<exists>r t' mh' mc'. evict_a_bunch T nm t = Some (r, t') \<and> two_rep rep t' mh' mc' \<and> view mh' mc' = view mh mc \<and> same_cfg t t' \<and>
    (hot_counted t mh \<longrightarrow> hot_counted t' mh') \<and> unmarked mh' \<and> dom mh' \<subseteq> dom mh \<and> (r = Jump \<longrightarrow> starved (cold t'))"
proof (cases "evict_range T t = Some (None, t)")
  case True
  then show ?thesis using assms by (auto simp: evict_a_bunch_def)
next
  case False
  note r = two_repD [OF R]
  obtain s e ro t1 where E: "evict_range T t = Some (Some (s, e, ro), t1)" "hot t1 = hot t" "cold t1 = cold t" "same_cfg t t1"
      "hot_partition_item_count t1 = hot_partition_item_count t" "hot_partition_size_bytes t1 = hot_partition_size_bytes t"
    using evict_range_ok [OF r(1)] False by blast
  have len: "length p = TaggedPayload_size t1" "p \<noteq> []" if "mh k = Some p" for k p
    using two_okD(3) [OF r(3) that] um that E(4) by (auto simp: hot_entry_ok_def unmarked_def TaggedPayload_size_def)
  have keeps: "length (snd (evict_callback e k p)) = length p" if "mh k = Some p" for k p
    using len(2) [OF that] by (simp add: evict_callback_def Let_def)
  define vs where "vs = fst (poked (evict_callback e) (filter (\<lambda>x. fold_u64 s \<le> fst x) (map_entries mh)))"
  obtain h mh1 where S: "op_scan_poke T (hot t) (fold_u64 s) (evict_callback e) = Some (vs, h)" "rep h mh1"
      "mh1 = mh ++ map_of (snd (poked (evict_callback e) (filter (\<lambda>x. fold_u64 s \<le> fst x) (map_entries mh))))"
    using scan_poke [OF r(1), of "evict_callback e" "fold_u64 s", OF keeps] vs_def by blast
  note pm = poked_map [OF rep_finite [OF r(1)] vs_def, folded S(3)]
  have rt: "retag mh mh1" by (rule retag_scan [OF pm(3) um]) (use len(2) in blast)
  have R1: "two_rep rep (t1\<lparr>hot := h\<rparr>) mh1 mc" using r(2) S(2) retag_two_ok [OF rt r(3)] E by (simp add: two_rep_def)
  have d: "dom mh \<subseteq> range fold_u64" using r(3) by (simp add: two_ok_def)
  obtain r2 t2 mh2 mc2 where L: "evict_loop T nm (victims e vs) (t1\<lparr>hot := h\<rparr>) = Some (r2, t2)" "two_rep rep t2 mh2 mc2" "view mh2 mc2 = view mh1 mc"
      "same_cfg (t1\<lparr>hot := h\<rparr>) t2" "hot_counted (t1\<lparr>hot := h\<rparr>) mh1 \<longrightarrow> hot_counted t2 mh2" "unmarked mh2" "dom mh2 \<subseteq> dom mh1" "r2 = Jump \<longrightarrow> starved (cold t2)"
    using evict_loop_ok [OF R1 _ victims_of [OF pm(1,2) d pm(3)], of nm] retag_unmarked [OF rt] um by blast
  have nb: "\<not> (\<exists>(kb, v) \<in> set vs. unfold_u64 kb \<le> e \<and> length v \<noteq> TaggedPayload_size t1)" using pm(2) len(1) by auto
  have ds: "dom mh2 \<subseteq> dom mh" using L(7) rt by (simp add: retag_def)
  have c: "hot_counted t mh \<longrightarrow> hot_counted t2 mh2" using L(5) counted_retag [OF _ rt] E by simp
  show ?thesis
  proof (cases r2)
    case Jump
    then show ?thesis using E S(1) nb L c ds retag_view [OF rt] by (auto simp: evict_a_bunch_def Let_def)
  next
    case (Ret x)
    let ?t = "t2\<lparr>eviction_items := eviction_items t2 + length (victims e vs), round_refs := (round_refs t2)(ro mod 2 := round_refs t2 (ro mod 2) - 1)\<rparr>"
    have "two_rep rep ?t mh2 mc2" using L(2) by (simp add: two_rep_def)
    then show ?thesis using Ret E S(1) nb L c ds retag_view [OF rt]
      by (intro exI [of _ "Ret ()"] exI [of _ ?t] exI [of _ mh2] exI [of _ mc2]) (simp add: evict_a_bunch_def Let_def)
  qed
qed

end

text \<open>The outcomes of an operation: it returns with the new map, or it waits for a free page with the map as it was.\<close>

definition outcome ::
  "('s \<Rightarrow> (bytes \<rightharpoonup> bytes) \<Rightarrow> bool) \<Rightarrow> ('s \<Rightarrow> bool) \<Rightarrow> 's two \<Rightarrow> (bytes \<rightharpoonup> bytes) \<Rightarrow> (bytes \<rightharpoonup> bytes) \<Rightarrow> (u64 \<rightharpoonup> bytes) \<Rightarrow> 'a \<Rightarrow>
   'a jmu \<times> 's two \<Rightarrow> bool" where
  "outcome rep starved t mh mc m a x \<longleftrightarrow> (case x of (r, t') \<Rightarrow> \<exists>mh' mc'. two_rep rep t' mh' mc' \<and> same_cfg t t' \<and> marks mh' = marks mh \<and>
     (r = Jump \<and> view mh' mc' = view mh mc \<and> (starved (hot t') \<or> starved (cold t')) \<or>
      r = Ret a \<and> view mh' mc' = m \<and> (hot_counted t mh \<longrightarrow> hot_counted t' mh')))"

definition admitted ::
  "('s \<Rightarrow> (bytes \<rightharpoonup> bytes) \<Rightarrow> bool) \<Rightarrow> ('s \<Rightarrow> bool) \<Rightarrow> 's two \<Rightarrow> (bytes \<rightharpoonup> bytes) \<Rightarrow> (bytes \<rightharpoonup> bytes) \<Rightarrow> bool jmu \<times> 's two \<Rightarrow> bool" where
  "admitted rep starved t mh mh' x \<longleftrightarrow> (case x of (r, t') \<Rightarrow> cold t' = cold t \<and> same_cfg t t' \<and>
     (r = Jump \<and> rep (hot t') mh \<and> starved (hot t') \<or> r = Ret False \<and> rep (hot t') mh \<and> (hot_counted t mh \<longrightarrow> hot_counted t' mh) \<or>
      r = Ret True \<and> rep (hot t') mh' \<and> (hot_counted t mh \<longrightarrow> hot_counted t' mh')))"

lemma admit_two_ok:
  fixes rf :: bool
  assumes "two_ok n incl mh mc" "mh (fold_u64 k) = None" "length v = n" "incl \<Longrightarrow> \<not> d \<Longrightarrow> mc (fold_u64 k) = Some v"
  defines "mh' \<equiv> mh(fold_u64 k \<mapsto> v @ [hot_tag d rf])" and "mc' \<equiv> if incl then mc else mc(fold_u64 k := None)"
  shows "two_ok n incl mh' mc'" "view mh' mc' = (view mh mc)(k \<mapsto> v)" "marks mh' = marks mh"
proof -
  have nm: "\<not> is_mark (v @ [hot_tag d rf])" using two_okD(1) [OF assms(1)] assms(3) by (simp add: is_mark_def)
  have "two_ok n incl mh mc'" using assms(1,2) two_ok_cold [OF assms(1,2), of None] by (cases incl) (simp_all add: mc'_def)
  then show "two_ok n incl mh' mc'" unfolding mh'_def
    by (rule two_ok_hot) (use assms(3,4) in \<open>auto simp: hot_entry_ok_def mc'_def\<close>)
  show "view mh' mc' = (view mh mc)(k \<mapsto> v)" unfolding mh'_def mc'_def
    using nm assms(2) by (simp add: view_hot view_cold)
  show "marks mh' = marks mh" using nm assms(2) by (auto simp: marks_def mh'_def)
qed

lemma retag_touch: "mh k = Some p \<Longrightarrow> p \<noteq> [] \<Longrightarrow> retag mh (mh(k \<mapsto> touch p))"
  by (auto simp: retag_def touch_def is_mark_def Let_def)

context btree_contract
begin

lemma try_eviction_ok:
  assumes "two_rep rep t mh mc" "evict_first env \<Longrightarrow> unmarked mh"
  shows "\<exists>r t' mh' mc'. try_eviction T env t = Some (r, t') \<and> two_rep rep t' mh' mc' \<and> view mh' mc' = view mh mc \<and> same_cfg t t' \<and>
    (hot_counted t mh \<longrightarrow> hot_counted t' mh') \<and> marks mh' = marks mh \<and> dom mh' \<subseteq> dom mh \<and> (r = Jump \<longrightarrow> starved (cold t'))"
proof (cases "evict_first env")
  case True
  then show ?thesis using evict_ok [OF assms(1) assms(2), of False] unmarked_marks [OF assms(2)]
    by (simp add: try_eviction_def) (metis unmarked_marks)
next
  case False
  then show ?thesis using assms(1) by (auto simp: try_eviction_def)
qed

text \<open>An operation that starts with \<open>try_eviction\<close> has the outcome of the rest.\<close>

lemma evict_then:
  assumes "two_rep rep t mh mc" "evict_first env \<Longrightarrow> unmarked mh"
    and rest: "\<And>t1 mh1 mc1. two_rep rep t1 mh1 mc1 \<Longrightarrow> view mh1 mc1 = view mh mc \<Longrightarrow> same_cfg t t1 \<Longrightarrow> marks mh1 = marks mh \<Longrightarrow> dom mh1 \<subseteq> dom mh \<Longrightarrow>
      \<exists>x. f t1 = Some x \<and> outcome rep starved t1 mh1 mc1 m a x"
  shows "\<exists>x. bindj (try_eviction T env t) (\<lambda>_ t. f t) = Some x \<and> outcome rep starved t mh mc m a x"
proof -
  obtain r t1 mh1 mc1 where E: "try_eviction T env t = Some (r, t1)" "two_rep rep t1 mh1 mc1" "view mh1 mc1 = view mh mc" "same_cfg t t1"
      "hot_counted t mh \<longrightarrow> hot_counted t1 mh1" "marks mh1 = marks mh" "dom mh1 \<subseteq> dom mh" "r = Jump \<longrightarrow> starved (cold t1)"
    using try_eviction_ok [OF assms(1,2)] by metis
  show ?thesis
  proof (cases r)
    case Jump
    then show ?thesis using E by (auto simp: outcome_def)
  next
    case (Ret u)
    obtain x where "f t1 = Some x" "outcome rep starved t1 mh1 mc1 m a x" using rest [OF E(2,3,4)] E(6,7) by blast
    then show ?thesis using E Ret unfolding outcome_def by (cases x) (simp, metis)
  qed
qed

lemma admit_choice:
  assumes "rep (hot t) mh" "mh (fold_u64 k) = None" "length v = payload_size t" "payload_size t + 1 \<le> 4096"
  shows "\<exists>x. bindj (admit_element T k v d rf t) (\<lambda>_ t. Some (Ret True, t)) = Some x \<and>
      admitted rep starved t mh (mh(fold_u64 k \<mapsto> v @ [hot_tag d rf])) x"
    "\<exists>x. admit_element_might_fail T k v d rf t = Some x \<and> admitted rep starved t mh (mh(fold_u64 k \<mapsto> v @ [hot_tag d rf])) x"
proof -
  obtain r t1 where "admit_element T k v d rf t = Some (r, t1)" "cold t1 = cold t \<and> same_cfg t t1 \<and>
    (r = Ret () \<and> rep (hot t1) (mh(fold_u64 k \<mapsto> v @ [hot_tag d rf])) \<and>
        (hot_counted t mh \<longrightarrow> hot_counted t1 (mh(fold_u64 k \<mapsto> v @ [hot_tag d rf]))) \<or>
     r = Jump \<and> rep (hot t1) mh \<and> starved (hot t1))"
    using admit_ok [OF assms, of d rf] by metis
  then show "\<exists>x. bindj (admit_element T k v d rf t) (\<lambda>_ t. Some (Ret True, t)) = Some x \<and>
      admitted rep starved t mh (mh(fold_u64 k \<mapsto> v @ [hot_tag d rf])) x"
    by (cases r) (auto simp: admitted_def)
  obtain r2 t2 where "admit_element_might_fail T k v d rf t = Some (Ret r2, t2)" "cold t2 = cold t \<and> same_cfg t t2 \<and>
    (if r2 then rep (hot t2) (mh(fold_u64 k \<mapsto> v @ [hot_tag d rf])) \<and>
        (hot_counted t mh \<longrightarrow> hot_counted t2 (mh(fold_u64 k \<mapsto> v @ [hot_tag d rf])))
     else rep (hot t2) mh \<and> (hot_counted t mh \<longrightarrow> hot_counted t2 mh))"
    using admit_might_fail_ok [OF assms, of d rf] by metis
  then show "\<exists>x. admit_element_might_fail T k v d rf t = Some x \<and> admitted rep starved t mh (mh(fold_u64 k \<mapsto> v @ [hot_tag d rf])) x"
    by (cases r2) (auto simp: admitted_def)
qed

end

context btree_contract
begin

text \<open>The last part of a migration: count it, and in the exclusive mode remove the cold copy.\<close>

lemma migrate_ok:
  assumes R: "two_rep rep t mh mc" and k: "mh (fold_u64 k) = None" "length v = payload_size t"
    "inclusive t \<Longrightarrow> \<not> d \<Longrightarrow> mc (fold_u64 k) = Some v"
    and A: "admitted rep starved t mh (mh(fold_u64 k \<mapsto> v @ [hot_tag d rf])) (r, t1)"
  shows "\<exists>y. bindj (Some (r, t1)) (\<lambda>res t.
        let t = (if res then t\<lparr>upward_migrations := upward_migrations t + 1\<rparr> else t\<lparr>failed_upward_migrations := failed_upward_migrations t + 1\<rparr>) in
        if \<not> inclusive t \<and> res then (case op_remove T (cold t) (fold_u64 k) False of None \<Rightarrow> None | Some (op_res, c) \<Rightarrow> Some (Ret a, t\<lparr>cold := c\<rparr>))
        else Some (Ret a, t)) = Some y \<and>
      outcome rep starved t mh mc (if r = Ret False then view mh mc else (view mh mc)(k \<mapsto> v)) a y"
proof -
  note R3 = two_repD [OF R]
  let ?mh = "mh(fold_u64 k \<mapsto> v @ [hot_tag d rf])"
  note M = admit_two_ok [OF R3(3) k, of d rf]
  consider (jump) "r = Jump" | (no) "r = Ret False" | (yes) "r = Ret True" by (cases r) auto
  then show ?thesis
  proof cases
    case jump
    then show ?thesis using A R3 by (auto simp: admitted_def outcome_def two_rep_def)
  next
    case no
    then show ?thesis using A R3 by (auto simp: admitted_def outcome_def two_rep_def)
  next
    case yes
    then have A': "cold t1 = cold t" "same_cfg t t1" "rep (hot t1) ?mh" "hot_counted t mh \<longrightarrow> hot_counted t1 ?mh"
      using A by (auto simp: admitted_def)
    show ?thesis
    proof (cases "inclusive t")
      case True
      have "outcome rep starved t mh mc ((view mh mc)(k \<mapsto> v)) a (Ret a, t1\<lparr>upward_migrations := upward_migrations t1 + 1\<rparr>)"
        unfolding outcome_def prod.case
        by (rule exI [of _ ?mh], rule exI [of _ mc]) (use True A' R3(2) M in \<open>simp add: two_rep_def\<close>)
      then show ?thesis using yes True A'(2) by simp
    next
      case False
      obtain c where c: "op_remove T (cold t) (fold_u64 k) False = Some (if fold_u64 k \<in> dom mc then OK else NOT_FOUND, c)"
          "rep c (mc(fold_u64 k := None))" using remove [OF R3(2)] by blast
      have "outcome rep starved t mh mc ((view mh mc)(k \<mapsto> v)) a (Ret a, t1\<lparr>upward_migrations := upward_migrations t1 + 1, cold := c\<rparr>)"
        unfolding outcome_def prod.case
        by (rule exI [of _ ?mh], rule exI [of _ "mc(fold_u64 k := None)"]) (use False A' c(2) M in \<open>simp add: two_rep_def\<close>)
      then show ?thesis using yes False A'(1,2) c(1) by simp
    qed
  qed
qed

lemma outcome_same:
  assumes "two_rep rep t' mh' mc" "same_cfg t t'" "retag mh mh' \<or> mh' = mh" "hot_partition_item_count t' = hot_partition_item_count t"
    "hot_partition_size_bytes t' = hot_partition_size_bytes t"
  shows "outcome rep starved t mh mc (view mh mc) a (Ret a, t')"
  unfolding outcome_def prod.case
  by (rule exI [of _ mh'], rule exI [of _ mc]) (use assms retag_view retag_marks counted_retag in auto)

lemma outcome_start:
  assumes "outcome rep starved t' mh mc m a x" "same_cfg t t'" "hot_partition_item_count t' = hot_partition_item_count t"
    "hot_partition_size_bytes t' = hot_partition_size_bytes t"
  shows "outcome rep starved t mh mc m a x"
  using assms by (auto simp: outcome_def split: prod.splits)

lemma lookup_internal_ok:
  assumes R: "two_rep rep t mh mc"
  shows "\<exists>x. lookup_internal T env k t = Some x \<and> outcome rep starved t mh mc (view mh mc) (view mh mc k \<noteq> None, view mh mc k) x"
proof (cases "mh (fold_u64 k)")
  case (Some p)
  note R3 = two_repD [OF R]
  have p: "is_mark p \<or> length p = payload_size t + 1" using two_okD(3) [OF R3(3) Some] by (auto simp: hot_entry_ok_def)
  then have "length (touch p) = length p" "p \<noteq> []" by (auto simp: touch_def is_mark_def Let_def)
  then obtain s' where s: "op_poke T (hot t) (fold_u64 k) touch = Some (OK, Some p, s')" "rep s' (mh(fold_u64 k \<mapsto> touch p))"
    using poke [OF R3(1), of "fold_u64 k" touch] Some by auto
  let ?t = "t\<lparr>total_lookups := total_lookups t + 1, hot := s'\<rparr>"
  note rt = retag_touch [of mh "fold_u64 k", OF Some \<open>p \<noteq> []\<close>]
  have "two_rep rep ?t (mh(fold_u64 k \<mapsto> touch p)) mc" using s(2) R3 retag_two_ok [OF rt] by (simp add: two_rep_def)
  then have "outcome rep starved t mh mc (view mh mc) a (Ret a, ?t)" for a :: "bool \<times> bytes option"
    by (rule outcome_same) (use rt in simp_all)
  moreover have "take (payload_size t) p = butlast p" if "\<not> is_mark p" using p that by (simp add: butlast_conv_take)
  ultimately show ?thesis using s(1) Some p by (cases "is_mark p") (auto simp: lookup_internal_def view_def is_mark_def)
next
  case None
  note R3 = two_repD [OF R]
  obtain s' where s: "op_poke T (hot t) (fold_u64 k) touch = Some (NOT_FOUND, None, s')" "rep s' mh"
    using poke [OF R3(1), of "fold_u64 k" touch] None by auto
  define t0 where "t0 = t\<lparr>total_lookups := total_lookups t + 1, hot := s'\<rparr>"
  have f: "hot t0 = s'" "cold t0 = cold t" "same_cfg t t0" "hot_partition_item_count t0 = hot_partition_item_count t"
      "hot_partition_size_bytes t0 = hot_partition_size_bytes t" by (simp_all add: t0_def)
  have R': "two_rep rep t0 mh mc" using s(2) R3 f by (simp add: two_rep_def)
  have st: "outcome rep starved t mh mc m a x" if "outcome rep starved t0 mh mc m a x" for m and a :: "bool \<times> bytes option" and x
    by (rule outcome_start [OF that]) (simp_all add: f)
  have same: "outcome rep starved t mh mc (view mh mc) a (Ret a, t0)" for a :: "bool \<times> bytes option"
    by (rule outcome_same [OF R']) (simp_all add: f)
  show ?thesis
  proof (cases "mc (fold_u64 k)")
    case N: None
    then show ?thesis using s(1) same None lookup [OF R3(2), of "fold_u64 k"] by (simp add: lookup_internal_def view_def t0_def)
  next
    case (Some v)
    have v: "length v = payload_size t" "payload_size t + 1 \<le> 4096" using two_okD(2,4) [OF R3(3)] Some by auto
    have vw: "view mh mc k = Some v" using None Some by (simp add: view_def)
    have L: "op_lookup T (cold t) (fold_u64 k) = Some (OK, Some v)" using lookup [OF R3(2), of "fold_u64 k"] Some by simp
    show ?thesis
    proof (cases "should_migrate env")
      case False
      then show ?thesis using s(1) same vw v L by (simp add: lookup_internal_def t0_def)
    next
      case True
      let ?X = "if cache_under_pressure_soft env \<and> \<not> cache_under_pressure env then
          (if admit_anyway env then bindj (admit_element T k v False False t0) (\<lambda>_ t. Some (Ret True, t))
           else admit_element_might_fail T k v False False t0)
        else bindj (admit_element T k v False False t0) (\<lambda>_ t. Some (Ret True, t))"
      obtain r t1 where X: "?X = Some (r, t1)" "admitted rep starved t0 mh (mh(fold_u64 k \<mapsto> v @ [hot_tag False False])) (r, t1)"
      proof -
        have "\<exists>x. ?X = Some x \<and> admitted rep starved t0 mh (mh(fold_u64 k \<mapsto> v @ [hot_tag False False])) x"
          using admit_choice [of t0 mh k v False False] None v s(2) f by simp
        then show ?thesis using that by auto
      qed
      have "(if r = Ret False then view mh mc else (view mh mc)(k \<mapsto> v)) = view mh mc" using vw by auto
      then obtain y where "bindj (Some (r, t1)) (\<lambda>res t.
          let t = (if res then t\<lparr>upward_migrations := upward_migrations t + 1\<rparr> else t\<lparr>failed_upward_migrations := failed_upward_migrations t + 1\<rparr>) in
          if \<not> inclusive t \<and> res then (case op_remove T (cold t) (fold_u64 k) False of None \<Rightarrow> None | Some (op_res, c) \<Rightarrow> Some (Ret (True, Some v), t\<lparr>cold := c\<rparr>))
          else Some (Ret (True, Some v), t)) = Some y" "outcome rep starved t0 mh mc (view mh mc) (True, Some v) y"
        using migrate_ok [OF R' None _ _ X(2), of "(True, Some v)"] v Some f by auto
      moreover have "lookup_internal T env k t = bindj ?X (\<lambda>res t.
          let t = (if res then t\<lparr>upward_migrations := upward_migrations t + 1\<rparr> else t\<lparr>failed_upward_migrations := failed_upward_migrations t + 1\<rparr>) in
          if \<not> inclusive t \<and> res then (case op_remove T (cold t) (fold_u64 k) False of None \<Rightarrow> None | Some (op_res, c) \<Rightarrow> Some (Ret (True, Some v), t\<lparr>cold := c\<rparr>))
          else Some (Ret (True, Some v), t))"
        using s(1) True v L by (simp add: lookup_internal_def t0_def Let_def cong del: if_weak_cong option.case_cong_weak)
      ultimately show ?thesis using vw st X(1) by simp
    qed
  qed
qed

end

end
