(* ===== verification/TwoTreeOps.thy ===== *)
theory TwoTreeOps
  imports TwoTreeCorrect
begin

text \<open>
  The operations of the two-tree adapter on the abstract map: lookup, insert, remove, update and put, with the branches on
  which the adapter loses an operation.
\<close>

lemma outcome_end:
  assumes "outcome rep starved t mh mc m a (r, t')" "hot t'' = hot t'" "cold t'' = cold t'" "same_cfg t' t''"
    "hot_partition_item_count t'' = hot_partition_item_count t'" "hot_partition_size_bytes t'' = hot_partition_size_bytes t'"
  shows "outcome rep starved t mh mc m a (r, t'')"
  using assms by (simp add: outcome_def two_rep_def)

lemma overwritten:
  assumes "two_ok n incl mh mc" "mh (fold_u64 k) = Some p" "\<not> is_mark p" "length v = n"
  shows "two_ok n incl (mh(fold_u64 k \<mapsto> overwrite v p)) mc" "view (mh(fold_u64 k \<mapsto> overwrite v p)) mc = (view mh mc)(k \<mapsto> v)"
    "marks (mh(fold_u64 k \<mapsto> overwrite v p)) = marks mh"
proof -
  have nm: "\<not> is_mark (overwrite v p)" using two_okD(1) [OF assms(1)] assms(4) by (simp add: is_mark_def overwrite_def)
  have "hot_entry_ok n incl mc (fold_u64 k) p" using two_okD(3) [OF assms(1,2)] .
  then show "two_ok n incl (mh(fold_u64 k \<mapsto> overwrite v p)) mc"
    using assms(3,4) by (intro two_ok_hot [OF assms(1)]) (auto simp: hot_entry_ok_def overwrite_def split: if_splits)
  show "view (mh(fold_u64 k \<mapsto> overwrite v p)) mc = (view mh mc)(k \<mapsto> v)" using nm by (simp add: view_hot) (simp add: overwrite_def)
  show "marks (mh(fold_u64 k \<mapsto> overwrite v p)) = marks mh" using nm assms(2,3) by (auto simp: marks_def)
qed

lemma counted_overwrite:
  assumes "counted a b mh" "mh k = Some p" "length q = length p"
  shows "counted a b (mh(k \<mapsto> q))"
proof -
  have "(\<Sum>j \<in> dom mh. 8 + int (length (the ((mh(k \<mapsto> q)) j)))) = (\<Sum>j \<in> dom mh. 8 + int (length (the (mh j))))"
    by (rule sum.cong) (use assms(2,3) in auto)
  moreover have "dom (mh(k \<mapsto> q)) = dom mh" using assms(2) by auto
  ultimately show ?thesis using assms(1) by (simp add: counted_def del: dom_fun_upd)
qed

context btree_contract
begin

lemma two_lookup_ok:
  assumes "two_rep rep t mh mc" "evict_first env \<Longrightarrow> unmarked mh"
  shows "\<exists>x. two_lookup T env k t = Some x \<and> outcome rep starved t mh mc (view mh mc) (view mh mc k \<noteq> None, view mh mc k) x"
  unfolding two_lookup_def
  by (rule evict_then [OF assms]) (use lookup_internal_ok in fastforce)+

lemma admit_outcome:
  assumes R: "two_rep rep t mh mc" and k: "mh (fold_u64 k) = None" "length v = payload_size t" "\<not> inclusive t \<Longrightarrow> mc (fold_u64 k) = None"
  shows "\<exists>x. admit_element T k v True rf t = Some x \<and> outcome rep starved t mh mc ((view mh mc)(k \<mapsto> v)) () x"
proof -
  note R3 = two_repD [OF R]
  let ?mh = "mh(fold_u64 k \<mapsto> v @ [hot_tag True rf])"
  obtain r t1 where A: "admit_element T k v True rf t = Some (r, t1)" "cold t1 = cold t" "same_cfg t t1"
      "r = Ret () \<and> rep (hot t1) ?mh \<and> (hot_counted t mh \<longrightarrow> hot_counted t1 ?mh) \<or> r = Jump \<and> rep (hot t1) mh \<and> starved (hot t1)"
    using admit_ok [OF R3(1) k(1,2) two_okD(2) [OF R3(3)], of True rf] by metis
  have mc: "(if inclusive t then mc else mc(fold_u64 k := None)) = mc" using k(3) by auto
  note M = admit_two_ok [OF R3(3) k(1,2), of True rf, unfolded mc]
  show ?thesis
  proof (cases r)
    case Jump
    then show ?thesis using A R3 by (auto simp: outcome_def two_rep_def)
  next
    case (Ret u)
    have "outcome rep starved t mh mc ((view mh mc)(k \<mapsto> v)) () (Ret (), t1)"
      unfolding outcome_def prod.case by (rule exI [of _ ?mh], rule exI [of _ mc]) (use Ret A R3(2) M in \<open>simp add: two_rep_def\<close>)
    then show ?thesis using Ret A(1) by simp
  qed
qed

lemma two_insert_ok:
  assumes R: "two_rep rep t mh mc" "evict_first env \<Longrightarrow> unmarked mh"
    and k: "mh (fold_u64 k) = None" "view mh mc k = None" "length v = payload_size t"
  shows "\<exists>x. two_insert T env k v t = Some x \<and> outcome rep starved t mh mc ((view mh mc)(k \<mapsto> v)) () x"
  unfolding two_insert_def
proof (rule evict_then [OF R])
  fix t1 mh1 mc1
  assume a: "two_rep rep t1 mh1 mc1" "view mh1 mc1 = view mh mc" "same_cfg t t1" "dom mh1 \<subseteq> dom mh"
  have n: "mh1 (fold_u64 k) = None" using a(4) k(1) by blast
  moreover have "mc1 (fold_u64 k) = None" using fun_cong [OF a(2), of k] k(2) n by (simp add: view_def)
  ultimately show "\<exists>x. admit_element T k v True False t1 = Some x \<and> outcome rep starved t1 mh1 mc1 ((view mh mc)(k \<mapsto> v)) () x"
    using admit_outcome [OF a(1), of k v False] a(2,3) k(3) by simp
qed simp

lemma put_hot:
  assumes R: "two_rep rep t mh mc" and k: "mh (fold_u64 k) = Some p" "\<not> is_mark p" "length v = payload_size t"
    and f: "f p = overwrite v p"
  shows "\<exists>s'. op_updateSameSize T (hot t) (fold_u64 k) f = Some (OK, s') \<and>
    (\<forall>t'. hot t' = s' \<longrightarrow> cold t' = cold t \<longrightarrow> same_cfg t t' \<longrightarrow> hot_partition_item_count t' = hot_partition_item_count t \<longrightarrow>
       hot_partition_size_bytes t' = hot_partition_size_bytes t \<longrightarrow> outcome rep starved t mh mc ((view mh mc)(k \<mapsto> v)) () (Ret (), t'))"
proof -
  note R3 = two_repD [OF R]
  have l: "length (overwrite v p) = length p"
    using two_okD(3) [OF R3(3) k(1)] k by (auto simp: hot_entry_ok_def overwrite_def)
  have "length (f q) = length q" if "mh (fold_u64 k) = Some q" for q using l that k(1) f by simp
  from update [of "hot t" mh "fold_u64 k" f, OF R3(1) this] obtain s' where s: "op_updateSameSize T (hot t) (fold_u64 k) f = Some (OK, s')" "rep s' (mh(fold_u64 k \<mapsto> overwrite v p))"
    using k(1) f by (auto simp: domI)
  note O = overwritten [OF R3(3) k]
  have "outcome rep starved t mh mc ((view mh mc)(k \<mapsto> v)) () (Ret (), t')"
    if "hot t' = s'" "cold t' = cold t" "same_cfg t t'" "hot_partition_item_count t' = hot_partition_item_count t"
      "hot_partition_size_bytes t' = hot_partition_size_bytes t" for t'
    unfolding outcome_def prod.case
    by (rule exI [of _ "mh(fold_u64 k \<mapsto> overwrite v p)"], rule exI [of _ mc])
      (use that s(2) R3(2) O counted_overwrite [of _ _ mh "fold_u64 k" p "overwrite v p", OF _ k(1) l] in \<open>simp add: two_rep_def\<close>)
  then show ?thesis using s(1) by blast
qed

lemma still_unmarked:
  assumes "view mh1 mc1 = view mh mc" "dom mh1 \<subseteq> dom mh" "\<And>p. mh (fold_u64 k) = Some p \<Longrightarrow> \<not> is_mark p" "mh1 (fold_u64 k) = Some p1"
  shows "\<not> is_mark p1"
proof
  assume "is_mark p1"
  then have "view mh mc k = None" using assms(4) by (simp add: assms(1) [symmetric] view_def)
  then show False using assms(2-4) by (auto simp: view_def split: option.splits)
qed

lemma put_cold:
  assumes R: "two_rep rep t mh mc" and k: "mh (fold_u64 k) = None" "length v = payload_size t"
  shows "\<exists>x. bindj (admit_element T k v True False t) (\<lambda>_ t.
      if \<not> inclusive t then (case op_remove T (cold t) (fold_u64 k) False of None \<Rightarrow> None | Some (op_res, c) \<Rightarrow> Some (Ret (), t\<lparr>cold := c\<rparr>))
      else Some (Ret (), t)) = Some x \<and> outcome rep starved t mh mc ((view mh mc)(k \<mapsto> v)) () x"
proof -
  note R3 = two_repD [OF R]
  obtain r t1 where X: "bindj (admit_element T k v True False t) (\<lambda>_ t. Some (Ret True, t)) = Some (r, t1)"
      "admitted rep starved t mh (mh(fold_u64 k \<mapsto> v @ [hot_tag True False])) (r, t1)"
    using admit_choice(1) [OF R3(1) k two_okD(2) [OF R3(3)], of True False] by auto
  obtain r0 t0 where A: "admit_element T k v True False t = Some (r0, t0)" using X(1) by (cases "admit_element T k v True False t") auto
  obtain y where y: "bindj (Some (r, t1)) (\<lambda>res t.
        let t = (if res then t\<lparr>upward_migrations := upward_migrations t + 1\<rparr> else t\<lparr>failed_upward_migrations := failed_upward_migrations t + 1\<rparr>) in
        if \<not> inclusive t \<and> res then (case op_remove T (cold t) (fold_u64 k) False of None \<Rightarrow> None | Some (op_res, c) \<Rightarrow> Some (Ret (), t\<lparr>cold := c\<rparr>))
        else Some (Ret (), t)) = Some y"
      "outcome rep starved t mh mc (if r = Ret False then view mh mc else (view mh mc)(k \<mapsto> v)) () y"
    using migrate_ok [OF R k _ X(2), of "()"] by auto
  show ?thesis
  proof (cases r0)
    case Jump
    then show ?thesis using A X(1) y by auto
  next
    case (Ret u)
    then have r: "r = Ret True" "t1 = t0" using A X(1) by auto
    show ?thesis
    proof (cases "inclusive t0")
      case True
      then have "outcome rep starved t mh mc ((view mh mc)(k \<mapsto> v)) () (Ret (), t0)"
        using r y by (auto intro: outcome_end)
      then show ?thesis using A Ret True by simp
    next
      case False
      then obtain q c where c: "op_remove T (cold t0) (fold_u64 k) False = Some (q, c)"
          "outcome rep starved t mh mc ((view mh mc)(k \<mapsto> v)) () (Ret (), t0\<lparr>upward_migrations := upward_migrations t0 + 1, cold := c\<rparr>)"
        using r y by (auto split: option.splits)
      then have "outcome rep starved t mh mc ((view mh mc)(k \<mapsto> v)) () (Ret (), t0\<lparr>cold := c\<rparr>)" by (auto intro: outcome_end)
      then show ?thesis using A Ret False c(1) by simp
    qed
  qed
qed

lemma two_put_ok:
  assumes R: "two_rep rep t mh mc" "evict_first env \<Longrightarrow> unmarked mh"
    and k: "\<And>p. mh (fold_u64 k) = Some p \<Longrightarrow> \<not> is_mark p" "length v = payload_size t"
  shows "\<exists>x. two_put T env k v t = Some x \<and> outcome rep starved t mh mc ((view mh mc)(k \<mapsto> v)) () x"
  unfolding two_put_def
proof (rule evict_then [OF R])
  fix t1 mh1 mc1
  assume a: "two_rep rep t1 mh1 mc1" "view mh1 mc1 = view mh mc" "same_cfg t t1" "dom mh1 \<subseteq> dom mh"
  note R3 = two_repD [OF a(1)]
  note L = lookup [OF R3(1), of "fold_u64 k"]
  show "\<exists>x. (case op_lookup T (hot t1) (fold_u64 k) of
         None \<Rightarrow> None
       | Some (_, p) \<Rightarrow>
           if (case p of Some p \<Rightarrow> length p \<noteq> TaggedPayload_size t1 | None \<Rightarrow> False) then None
           else
             case op_updateSameSize T (hot t1) (fold_u64 k) (overwrite v) of
               None \<Rightarrow> None
             | Some (op_res, h) \<Rightarrow>
                 (let t = t1\<lparr>hot := h\<rparr> in
                  if op_res = OK then Some (Ret (), t)
                  else
                    bindj (admit_element T k v True False t) (\<lambda>_ t.
                      if \<not> inclusive t then
                        (case op_remove T (cold t) (fold_u64 k) False of
                           None \<Rightarrow> None
                         | Some (op_res, c) \<Rightarrow> Some (Ret (), t\<lparr>cold := c\<rparr>))
                      else Some (Ret (), t)))) = Some x \<and> outcome rep starved t1 mh1 mc1 ((view mh mc)(k \<mapsto> v)) () x"
  proof (cases "mh1 (fold_u64 k)")
    case (Some p)
    have nm: "\<not> is_mark p" by (rule still_unmarked [OF a(2,4) _ Some]) (use k(1) in blast)
    then have "length p = TaggedPayload_size t1" using two_okD(3) [OF R3(3) Some] by (auto simp: hot_entry_ok_def TaggedPayload_size_def)
    then show ?thesis using L Some put_hot [OF a(1) Some nm, of v "overwrite v"] k(2) a(2,3) by auto
  next
    case None
    obtain s' where s: "op_updateSameSize T (hot t1) (fold_u64 k) (overwrite v) = Some (NOT_FOUND, s')" "rep s' mh1"
      using update [OF R3(1), of "fold_u64 k" "overwrite v"] None by (auto simp: domIff)
    have "two_rep rep (t1\<lparr>hot := s'\<rparr>) mh1 mc1" using R3 s(2) by (simp add: two_rep_def)
    from put_cold [OF this None, of v] obtain x where x: "bindj (admit_element T k v True False (t1\<lparr>hot := s'\<rparr>)) (\<lambda>_ t.
      if \<not> inclusive t then (case op_remove T (cold t) (fold_u64 k) False of None \<Rightarrow> None | Some (op_res, c) \<Rightarrow> Some (Ret (), t\<lparr>cold := c\<rparr>))
      else Some (Ret (), t)) = Some x" "outcome rep starved (t1\<lparr>hot := s'\<rparr>) mh1 mc1 ((view mh1 mc1)(k \<mapsto> v)) () x"
      using a(3) k(2) by auto
    have "outcome rep starved t1 mh1 mc1 ((view mh1 mc1)(k \<mapsto> v)) () x" by (rule outcome_start [OF x(2)]) simp_all
    then show ?thesis using L None s x(1) a(2) by simp
  qed
qed simp

end

context btree_contract
begin

lemma two_update_ok:
  assumes R: "two_rep rep t mh mc" "evict_first env \<Longrightarrow> unmarked mh"
    and k: "view mh mc k \<noteq> None" "length v = payload_size t" and env: "\<not> (should_migrate env \<and> cache_under_pressure_soft env)"
  shows "\<exists>x. two_update T env k v t = Some x \<and> outcome rep starved t mh mc ((view mh mc)(k \<mapsto> v)) () x"
  unfolding two_update_def
proof (rule evict_then [OF R])
  fix t1 mh1 mc1
  assume a: "two_rep rep t1 mh1 mc1" "view mh1 mc1 = view mh mc" "same_cfg t t1" "dom mh1 \<subseteq> dom mh"
  define t0 where "t0 = t1\<lparr>total_lookups := total_lookups t1 + 1\<rparr>"
  have f: "hot t0 = hot t1" "cold t0 = cold t1" "same_cfg t t0" "payload_size t1 = payload_size t" "inclusive t1 = inclusive t"
      "hot_partition_item_count t0 = hot_partition_item_count t1" "hot_partition_size_bytes t0 = hot_partition_size_bytes t1"
    using a(3) by (simp_all add: t0_def)
  have R0: "two_rep rep t0 mh1 mc1" using a(1) f by (simp add: two_rep_def)
  note R3 = two_repD [OF R0]
  have st: "outcome rep starved t1 mh1 mc1 m () x" if "outcome rep starved t0 mh1 mc1 m () x" for m x
    by (rule outcome_start [OF that]) (simp_all add: f)
  have v: "length v = payload_size t0" "payload_size t0 + 1 \<le> 4096" using k(2) f two_okD(2) [OF R3(3)] by simp_all
  show "\<exists>x. (let t = t1\<lparr>total_lookups := total_lookups t1 + 1\<rparr> in
       case op_updateSameSize T (hot t) (fold_u64 k) (update_callback v) of
         None \<Rightarrow> None
       | Some (op_res, h) \<Rightarrow>
           (let t = t\<lparr>hot := h\<rparr> in
            if op_res = OK then Some (Ret (), t\<lparr>lookups_hit_top := lookups_hit_top t + 1\<rparr>)
            else
              case op_lookup T (cold t) (fold_u64 k) of
                None \<Rightarrow> None
              | Some (cres, old_v) \<Rightarrow>
                  if should_migrate env then
                    bindj
                      (if cache_under_pressure_soft env then admit_element_might_fail T k v False True t
                       else bindj (admit_element T k v True False t) (\<lambda>_ t. Some (Ret True, t)))
                      (\<lambda>res t.
                         let t = (if res then t\<lparr>upward_migrations := upward_migrations t + 1\<rparr>
                                  else t\<lparr>failed_upward_migrations := failed_upward_migrations t + 1\<rparr>) in
                         if \<not> inclusive t \<and> res then
                           (case op_remove T (cold t) (fold_u64 k) False of
                              None \<Rightarrow> None
                            | Some (op_res, c) \<Rightarrow> Some (Ret (), t\<lparr>cold := c\<rparr>))
                         else Some (Ret (), t))
                  else
                    (case op_updateSameSize T (cold t) (fold_u64 k) (\<lambda>p. v @ drop (payload_size t) p) of
                       None \<Rightarrow> None
                     | Some (op_res, c) \<Rightarrow> Some (Ret (), t\<lparr>cold := c\<rparr>)))) = Some x \<and> outcome rep starved t1 mh1 mc1 ((view mh mc)(k \<mapsto> v)) () x"
  proof (cases "mh1 (fold_u64 k)")
    case (Some p)
    have nm: "\<not> is_mark p" using Some k(1) fun_cong [OF a(2), of k] by (auto simp: view_def)
    then have "update_callback v p = overwrite v p" by (simp add: update_callback_def is_mark_def)
    from put_hot [of t0 mh1 mc1 k p v "update_callback v", OF R0 Some nm v(1) this] obtain s' where s: "op_updateSameSize T (hot t0) (fold_u64 k) (update_callback v) = Some (OK, s')"
        "outcome rep starved t0 mh1 mc1 ((view mh1 mc1)(k \<mapsto> v)) () (Ret (), t0\<lparr>hot := s', lookups_hit_top := lookups_hit_top t0 + 1\<rparr>)"
      by auto
    then show ?thesis using st a(2) f(1) by (simp add: t0_def)
  next
    case None
    obtain s' where s: "op_updateSameSize T (hot t0) (fold_u64 k) (update_callback v) = Some (NOT_FOUND, s')" "rep s' mh1"
      using update [OF R3(1), of "fold_u64 k" "update_callback v"] None by (auto simp: domIff)
    obtain old where old: "mc1 (fold_u64 k) = Some old" using None k(1) fun_cong [OF a(2), of k] by (auto simp: view_def)
    have L: "op_lookup T (cold t0) (fold_u64 k) = Some (OK, Some old)" using lookup [OF R3(2), of "fold_u64 k"] old by simp
    define t2 where "t2 = t0\<lparr>hot := s'\<rparr>"
    have g: "hot t2 = s'" "cold t2 = cold t0" "same_cfg t0 t2" "hot_partition_item_count t2 = hot_partition_item_count t0"
      "hot_partition_size_bytes t2 = hot_partition_size_bytes t0" by (simp_all add: t2_def)
    have R2: "two_rep rep t2 mh1 mc1" using R3 s(2) g by (simp add: two_rep_def)
    have st2: "outcome rep starved t1 mh1 mc1 m () x" if "outcome rep starved t2 mh1 mc1 m () x" for m x
      by (rule st, rule outcome_start [OF that]) (simp_all add: g)
    have t2: "t2 = t1\<lparr>total_lookups := total_lookups t1 + 1, hot := s'\<rparr>" by (simp add: t2_def t0_def)
    show ?thesis
    proof (cases "should_migrate env")
      case True
      obtain r t3 where X: "bindj (admit_element T k v True False t2) (\<lambda>_ t. Some (Ret True, t)) = Some (r, t3)"
          "admitted rep starved t2 mh1 (mh1(fold_u64 k \<mapsto> v @ [hot_tag True False])) (r, t3)"
        using admit_choice(1) [of t2 mh1 k v True False] None v g s(2) by auto
      then have nf: "r \<noteq> Ret False" by (auto simp: bindj_def split: option.splits jmu.splits)
      have v2: "length v = payload_size t2" using v g by simp
      show ?thesis using migrate_ok [OF R2 None v2 _ X(2), of "()"] nf st2 a(2) True env s(1) L X(1) f(1)
        by (auto simp: t2 t0_def Let_def cong del: if_weak_cong option.case_cong_weak)
    next
      case False
      have "length (v @ drop (payload_size t2) p) = length p" if "mc1 (fold_u64 k) = Some p" for p
        using two_okD(4) [OF R3(3) that] v g by simp
      from update [of "cold t2" mc1 "fold_u64 k" "\<lambda>p. v @ drop (payload_size t2) p", OF _ this]
      obtain c where c: "op_updateSameSize T (cold t2) (fold_u64 k) (\<lambda>p. v @ drop (payload_size t2) p) = Some (OK, c)" "rep c (mc1(fold_u64 k \<mapsto> v))"
        using R3(2) g old two_okD(4) [OF R3(3) old] by (auto simp: domI)
      have "two_ok (payload_size t0) (inclusive t0) mh1 (mc1(fold_u64 k \<mapsto> v))" by (rule two_ok_cold [OF R3(3) None]) (use v in simp)
      then have "outcome rep starved t1 mh1 mc1 ((view mh1 mc1)(k \<mapsto> v)) () (Ret (), t2\<lparr>cold := c\<rparr>)"
        unfolding outcome_def prod.case
        by (intro exI [of _ mh1] exI [of _ "mc1(fold_u64 k \<mapsto> v)"]) (use c(2) s(2) None g f in \<open>simp add: two_rep_def view_cold\<close>)
      then show ?thesis using False s(1) L c(1) a(2) f(1) by (simp add: t2 t0_def)
    qed
  qed
qed simp

lemma two_remove_ok:
  assumes R: "two_rep rep t mh mc"
  shows "\<exists>r t' mh'. two_remove T k t = Some (r, t') \<and> two_rep rep t' mh' mc \<and> same_cfg t t' \<and>
    (r = Ret True \<and> marks mh' = insert k (marks mh) \<and> view mh' mc = (view mh mc)(k := None) \<and> (hot_counted t mh \<longrightarrow> hot_counted t' mh') \<or>
     r = Jump \<and> (mh' = mh \<or> mh' = mh(fold_u64 k := None)) \<and> starved (hot t'))"
proof -
  note R3 = two_repD [OF R]
  have L: "op_lookup T (hot t) (fold_u64 k) = Some (case mh (fold_u64 k) of Some v \<Rightarrow> (OK, Some v) | None \<Rightarrow> (NOT_FOUND, None))"
    by (rule lookup [OF R3(1)])
  have mark: "\<exists>r t' mh'. bindj (admit_delete_mark_element T k t1) (\<lambda>_ t. Some (Ret True, t)) = Some (r, t') \<and> two_rep rep t' mh' mc \<and> same_cfg t t' \<and>
    (r = Ret True \<and> marks mh' = insert k (marks mh) \<and> view mh' mc = (view mh mc)(k := None) \<and> (hot_counted t1 (mh(fold_u64 k := None)) \<longrightarrow> hot_counted t' mh') \<or>
     r = Jump \<and> mh' = mh(fold_u64 k := None) \<and> starved (hot t'))"
    if h: "rep (hot t1) (mh(fold_u64 k := None))" "cold t1 = cold t" "same_cfg t t1" for t1
  proof -
    let ?gone = "mh(fold_u64 k := None)" and ?m = "mh(fold_u64 k \<mapsto> [kDeletedBits])"
    obtain r t' where A: "admit_delete_mark_element T k t1 = Some (r, t')" "cold t' = cold t1" "same_cfg t1 t'"
        "r = Ret () \<and> rep (hot t') ?m \<and> (hot_counted t1 ?gone \<longrightarrow> hot_counted t' ?m) \<or> r = Jump \<and> rep (hot t') ?gone \<and> starved (hot t')"
      using admit_mark_ok [OF h(1), of k, unfolded fun_upd_upd] by (metis fun_upd_same)
    have "marks ?m = insert k (marks mh)" by (auto simp: marks_def is_mark_def)
    moreover have "two_ok (payload_size t) (inclusive t) ?m mc" "view ?m mc = (view mh mc)(k := None)"
      using two_ok_hot [OF R3(3), of k "[kDeletedBits]"] by (simp_all add: hot_entry_ok_def is_mark_def view_hot)
    ultimately show ?thesis using A h R3 two_ok_hot_del [OF R3(3), of k]
      by (cases r) (force simp: two_rep_def)+
  qed
  show ?thesis
  proof (cases "mh (fold_u64 k)")
    case None
    then have "mh(fold_u64 k := None) = mh" by auto
    then show ?thesis using mark [of t] R3 L None by (auto simp: two_remove_def)
  next
    case (Some p)
    show ?thesis
    proof (cases "is_mark p")
      case True
      then have "view mh mc = (view mh mc)(k := None)" "marks mh = insert k (marks mh)" using Some by (auto simp: view_def marks_def)
      then show ?thesis using L Some True R
        by (intro exI [of _ "Ret True"] exI [of _ t] exI [of _ mh]) (simp add: two_remove_def is_mark_def)
    next
      case False
      have p: "length p = payload_size t + 1" using two_okD(3) [OF R3(3) Some] False by (simp add: hot_entry_ok_def)
      obtain s' where s: "op_remove T (hot t) (fold_u64 k) False = Some (OK, s')" "rep s' (mh(fold_u64 k := None))"
        using remove [OF R3(1), of "fold_u64 k" False] Some by (auto simp: domI)
      let ?t1 = "t\<lparr>hot := s', hot_partition_item_count := hot_partition_item_count t - 1,
          hot_partition_size_bytes := hot_partition_size_bytes t - (8 + int (TaggedPayload_size t))\<rparr>"
      have "hot_counted t mh \<longrightarrow> hot_counted ?t1 (mh(fold_u64 k := None))"
        using counted_del [OF _ rep_finite [OF R3(1)] Some] p by (simp add: TaggedPayload_size_def)
      then show ?thesis using mark [of ?t1] s L Some False by (auto simp: two_remove_def is_mark_def)
    qed
  qed
qed

end

context btree_contract
begin

text \<open>The insertion of a key that is in the hot tree, a removed one for example, is dropped.\<close>

lemma insert_dropped:
  assumes R: "two_rep rep t mh mc" and k: "mh (fold_u64 k) \<noteq> None" "length v = payload_size t" "\<not> evict_first env"
  shows "\<exists>t'. two_insert T env k v t = Some (Ret (), t') \<and> two_rep rep t' mh mc"
proof -
  note R3 = two_repD [OF R]
  let ?p = "v @ [hot_tag True False]"
  have v: "val_ok ?p" using k(2) two_okD(2) [OF R3(3)] by (simp add: val_ok_def)
  obtain s' where "op_insert T (hot t) (fold_u64 k) ?p = Some (Ret DUPLICATE, s')" "rep s' mh"
    using insert [OF R3(1) fold_ok [of k] v] k(1) by (auto simp: domIff)
  then show ?thesis using k(3) R3
    by (simp add: two_insert_def try_eviction_def admit_element_def insert_hot_partition_def Let_def two_rep_def)
qed

text \<open>An update of a cold record under soft pressure, in the inclusive mode: the record is not admitted, or it is admitted
  without the modified bit, so that its eviction brings the old payload back.\<close>

lemma update_dropped:
  assumes R: "two_rep rep t mh mc" and k: "mh (fold_u64 k) = None" "mc (fold_u64 k) = Some old" "length v = payload_size t"
    and env: "\<not> evict_first env" "should_migrate env" "cache_under_pressure_soft env" and incl: "inclusive t"
  shows "\<exists>t' mh'. two_update T env k v t = Some (Ret (), t') \<and> rep (hot t') mh' \<and> rep (cold t') mc \<and> same_cfg t t' \<and>
    (mh' = mh \<or> mh' = mh(fold_u64 k \<mapsto> v @ [hot_tag False True]))"
proof -
  note R3 = two_repD [OF R]
  obtain s' where s: "op_updateSameSize T (hot t) (fold_u64 k) (update_callback v) = Some (NOT_FOUND, s')" "rep s' mh"
    using update [OF R3(1), of "fold_u64 k" "update_callback v"] k(1) by (auto simp: domIff)
  have L: "op_lookup T (cold t) (fold_u64 k) = Some (OK, Some old)" using lookup [OF R3(2), of "fold_u64 k"] k(2) by simp
  define t2 where "t2 = t\<lparr>total_lookups := total_lookups t + 1, hot := s'\<rparr>"
  obtain r t3 where A: "admit_element_might_fail T k v False True t2 = Some (Ret r, t3)" "cold t3 = cold t" "same_cfg t t3"
      "if r then rep (hot t3) (mh(fold_u64 k \<mapsto> v @ [hot_tag False True])) else rep (hot t3) mh"
    using admit_might_fail_ok [of t2 mh k v False True] s(2) k two_okD(2) [OF R3(3)] by (auto simp: t2_def)
  show ?thesis
    by (rule exI [of _ "if r then t3\<lparr>upward_migrations := upward_migrations t3 + 1\<rparr> else t3\<lparr>failed_upward_migrations := failed_upward_migrations t3 + 1\<rparr>"],
        rule exI [of _ "if r then mh(fold_u64 k \<mapsto> v @ [hot_tag False True]) else mh"])
      (use A s L env incl R3(2) in \<open>auto simp: two_update_def try_eviction_def t2_def Let_def\<close>)
qed

text \<open>The eviction of an unmodified record in the inclusive mode does not write to the cold tree.\<close>

lemma evict_unmodified:
  assumes "rep (hot t) (mh(fold_u64 k \<mapsto> p))" "mh (fold_u64 k) = None" "rep (cold t) mc" "inclusive t" "\<not> tag_modified (last p)"
  shows "\<exists>t'. evict_one T nm (k, p) t = Some (Ret (), t') \<and> rep (hot t') mh \<and> rep (cold t') mc"
proof -
  have "(mh(fold_u64 k \<mapsto> p))(fold_u64 k := None) = mh" using assms(2) by auto
  then obtain s' where "op_remove T (hot t) (fold_u64 k) nm = Some (OK, s')" "rep s' mh"
    using remove [OF assms(1), of "fold_u64 k" nm] by auto
  then show ?thesis using assms(3-5) by (simp add: evict_one_def)
qed

end

end
