(* ===== verification/TwoTreeScan.thy ===== *)
theory TwoTreeScan
  imports TwoTreeOps
begin

text \<open>
  The range scan of the two-tree adapter (twotree/ConcurrentTwoBTree.hpp, \<open>scan\<close>) and its counting of the entries of a tree
  (\<open>btree_entries\<close>). Both read a tree in chunks: a buffer is filled by a scan of the tree, and the next chunk starts behind
  the last key of the buffer. The processor of a scan is a predicate on the list of the records handed out so far.
\<close>

section \<open>Definitions\<close>

text \<open>A buffer: its items, the items from the index on, and whether the end of the tree was reached.\<close>

record scan_buf =
  sb_items :: "(u64 \<times> bytes) list"
  sb_rest :: "(u64 \<times> bytes) list"
  sb_end :: bool

definition empty_buf :: scan_buf where
  "empty_buf = \<lparr>sb_items = [], sb_rest = [], sb_end = False\<rparr>"

definition scan_buffer_size :: nat where
  "scan_buffer_size = 8"

text \<open>A payload shorter than \<open>width\<close> bytes, which a delete mark is, would be read beyond its end: \<open>None\<close>.\<close>

definition fill_scan_buffer :: "'s btree_ops \<Rightarrow> 's \<Rightarrow> nat \<Rightarrow> nat \<Rightarrow> nat \<Rightarrow> u64 \<Rightarrow> scan_buf \<Rightarrow> scan_buf option" where
  "fill_scan_buffer T s cap width n startk b =
     (if length (sb_items b) < cap \<and> \<not> sb_end b then
        (case op_scanAsc T s (fold_u64 startk) (\<lambda>vs. length (sb_items b) + length vs < cap) of
           None \<Rightarrow> None
         | Some vs \<Rightarrow>
             if \<exists>e \<in> set vs. length (snd e) < width then None
             else
               (let new = map (\<lambda>e. (unfold_u64 (fst e), take n (snd e))) vs; items = sb_items b @ new in
                Some (b\<lparr>sb_items := items, sb_rest := sb_rest b @ new, sb_end := length items < cap\<rparr>)))
      else Some b)"

text \<open>The loops of \<open>scan\<close>: hand out the smaller of the two next keys while both buffers have one, and hand out the rest of one
  buffer. Each returns whether the processor asked to stop, what is left of the buffers, and what was handed out.\<close>

type_synonym items = "(u64 \<times> bytes) list"

fun merge_loop :: "(items \<Rightarrow> bool) \<Rightarrow> items \<Rightarrow> items \<Rightarrow> items \<Rightarrow> bool \<times> items \<times> items \<times> items" where
  "merge_loop processor (h # hs) (c # cs) out =
     (if fst h \<le> fst c then
        (if processor (out @ [h]) then (True, h # hs, c # cs, out @ [h]) else merge_loop processor hs (c # cs) (out @ [h]))
      else
        (if processor (out @ [c]) then (True, h # hs, c # cs, out @ [c]) else merge_loop processor (h # hs) cs (out @ [c])))"
| "merge_loop processor hs cs out = (False, hs, cs, out)"

fun drain_loop :: "(items \<Rightarrow> bool) \<Rightarrow> items \<Rightarrow> items \<Rightarrow> bool \<times> items \<times> items" where
  "drain_loop processor [] out = (False, [], out)"
| "drain_loop processor (h # hs) out =
     (if processor (out @ [h]) then (True, h # hs, out @ [h]) else drain_loop processor hs (out @ [h]))"

definition refill_hot :: "'s btree_ops \<Rightarrow> 's two \<Rightarrow> scan_buf \<Rightarrow> scan_buf option" where
  "refill_hot T t b =
     (if sb_rest b = [] \<and> \<not> sb_end b
      then fill_scan_buffer T (hot t) scan_buffer_size (TaggedPayload_size t) (payload_size t) (fst (last (sb_items b)) + 1) (b\<lparr>sb_items := []\<rparr>)
      else Some b)"

definition refill_cold :: "'s btree_ops \<Rightarrow> 's two \<Rightarrow> scan_buf \<Rightarrow> scan_buf option" where
  "refill_cold T t b =
     (if sb_rest b = [] \<and> \<not> sb_end b
      then fill_scan_buffer T (cold t) scan_buffer_size (payload_size t) (payload_size t) (fst (last (sb_items b)) + 1) (b\<lparr>sb_items := []\<rparr>)
      else Some b)"

text \<open>The three loops of one round, the drains guarded by the end of the other tree.\<close>

definition scan_round :: "(items \<Rightarrow> bool) \<Rightarrow> scan_buf \<Rightarrow> scan_buf \<Rightarrow> items \<Rightarrow> bool \<times> items \<times> items \<times> items" where
  "scan_round processor hb cb out =
     (case merge_loop processor (sb_rest hb) (sb_rest cb) out of (stop, hr, cr, out) \<Rightarrow>
        if stop then (True, hr, cr, out)
        else
          (case (if hr \<noteq> [] \<and> cr = [] \<and> sb_end cb then drain_loop processor hr out else (False, hr, out)) of (stop, hr, out) \<Rightarrow>
             if stop then (True, hr, cr, out)
             else
               (case (if cr \<noteq> [] \<and> hr = [] \<and> sb_end hb then drain_loop processor cr out else (False, cr, out)) of (stop, cr, out) \<Rightarrow>
                  (stop, hr, cr, out))))"

partial_function (option) scan_loop :: "'s btree_ops \<Rightarrow> 's two \<Rightarrow> (items \<Rightarrow> bool) \<Rightarrow> scan_buf \<Rightarrow> scan_buf \<Rightarrow> items \<Rightarrow> items option" where
  "scan_loop T t processor hb cb out =
     (case scan_round processor hb cb out of (stop, hr, cr, out) \<Rightarrow>
        if stop then Some out
        else
          (case refill_hot T t (hb\<lparr>sb_rest := hr\<rparr>) of
             None \<Rightarrow> None
           | Some hb \<Rightarrow>
               (case refill_cold T t (cb\<lparr>sb_rest := cr\<rparr>) of
                  None \<Rightarrow> None
                | Some cb \<Rightarrow>
                    if sb_rest cb = [] \<and> sb_end cb \<and> sb_rest hb = [] \<and> sb_end hb then Some out
                    else scan_loop T t processor hb cb out)))"

definition two_scan :: "'s btree_ops \<Rightarrow> u64 \<Rightarrow> (items \<Rightarrow> bool) \<Rightarrow> 's two \<Rightarrow> (items \<times> 's two) option" where
  "two_scan T start_key processor t =
     (let t = t\<lparr>scan_ops := scan_ops t + 1\<rparr> in
      case fill_scan_buffer T (hot t) scan_buffer_size (TaggedPayload_size t) (payload_size t) start_key empty_buf of
        None \<Rightarrow> None
      | Some hb \<Rightarrow>
          (case fill_scan_buffer T (cold t) scan_buffer_size (payload_size t) (payload_size t) start_key empty_buf of
             None \<Rightarrow> None
           | Some cb \<Rightarrow> map_option (\<lambda>out. (out, t)) (scan_loop T t processor hb cb [])))"

text \<open>\<open>btree_entries\<close>, without its count of the pages.\<close>

partial_function (option) btree_entries_loop :: "'s btree_ops \<Rightarrow> 's \<Rightarrow> u64 \<Rightarrow> nat \<Rightarrow> nat option" where
  "btree_entries_loop T s start_key acc =
     (case fill_scan_buffer T s 64 0 0 start_key empty_buf of
        None \<Rightarrow> None
      | Some b \<Rightarrow>
          (let acc = acc + length (sb_items b) in
           if sb_end b then Some acc else btree_entries_loop T s (fst (last (sb_items b)) + 1) acc))"

definition btree_entries :: "'s btree_ops \<Rightarrow> 's \<Rightarrow> nat option" where
  "btree_entries T s = btree_entries_loop T s 0 0"

section \<open>The records of a tree\<close>

definition items_of :: "nat \<Rightarrow> (bytes \<rightharpoonup> bytes) \<Rightarrow> u64 \<Rightarrow> items" where
  "items_of n m startk = map (\<lambda>e. (unfold_u64 (fst e), take n (snd e))) (filter (\<lambda>e. fold_u64 startk \<le> fst e) (map_entries m))"

lemma visit_take: "visit (\<lambda>vs. a + length vs < cap) acc es = acc @ take (if a + length acc < cap then cap - a - length acc else 1) es"
proof (induction es arbitrary: acc)
  case (Cons e es)
  show ?case
  proof (cases "a + length (acc @ [e]) < cap")
    case True
    then have "cap - a - length acc = Suc (cap - a - length (acc @ [e]))" "a + length acc < cap" by auto
    then show ?thesis using Cons.IH [of "acc @ [e]"] True by simp
  next
    case False
    then have "(if a + length acc < cap then cap - a - length acc else 1) = Suc 0" by auto
    then show ?thesis using False by simp
  qed
qed simp

definition all_items :: "nat \<Rightarrow> (bytes \<rightharpoonup> bytes) \<Rightarrow> items" where
  "all_items n m = map (\<lambda>e. (unfold_u64 (fst e), take n (snd e))) (map_entries m)"

lemma items_of_filter:
  assumes "dom m \<subseteq> range fold_u64" "finite (dom m)"
  shows "items_of n m k = filter (\<lambda>e. k \<le> fst e) (all_items n m)"
proof -
  have "filter (\<lambda>e. fold_u64 k \<le> fst e) (map_entries m) = filter (\<lambda>e. k \<le> unfold_u64 (fst e)) (map_entries m)"
    by (rule filter_cong [OF refl]) (use assms in \<open>auto simp: set_map_entries unfold_fold_u64\<close>)
  then show ?thesis by (simp add: items_of_def all_items_def filter_map comp_def)
qed

lemma all_items_sorted:
  assumes "dom m \<subseteq> range fold_u64" "finite (dom m)"
  shows "sorted_wrt (<) (map fst (all_items n m))"
proof -
  have "sorted_wrt (\<lambda>x y. unfold_u64 x < unfold_u64 y) (map fst (map_entries m))"
  proof (rule sorted_wrt_mono_rel [OF _ sorted_map_entries])
    fix x y assume "x \<in> set (map fst (map_entries m))" "y \<in> set (map fst (map_entries m))" "x < y"
    moreover from this obtain x' y' where "x = fold_u64 x'" "y = fold_u64 y'" using assms by (fastforce simp: set_map_entries dom_def)
    ultimately show "unfold_u64 x < unfold_u64 y" by (simp add: unfold_fold_u64)
  qed
  then show ?thesis by (simp add: all_items_def comp_def sorted_wrt_map)
qed

lemma items_sorted:
  assumes "dom m \<subseteq> range fold_u64" "finite (dom m)"
  shows "sorted_wrt (<) (map fst (items_of n m k))"
  using sorted_wrt_filter [OF all_items_sorted [OF assms], of "\<lambda>x. k \<le> x"] by (simp add: items_of_filter [OF assms] filter_map comp_def)

lemma word_succ_le: "(x :: u64) \<noteq> -1 \<Longrightarrow> x + 1 \<le> y \<longleftrightarrow> x < y"
proof -
  assume "x \<noteq> -1"
  then have "1 + x \<noteq> 0" by (metis add.inverse_unique add.commute)
  then have "unat (1 + x) = Suc (unat x)" by (rule unatSuc)
  then show ?thesis by (simp add: word_less_nat_alt word_le_nat_alt add.commute Suc_le_eq)
qed

lemma filter_above_sorted:
  assumes "sorted_wrt (<) (map fst L)" "i < length L"
  shows "filter (\<lambda>e. fst (L ! i) < fst e) (L :: (u64 \<times> bytes) list) = drop (Suc i) L"
proof -
  have s: "fst (L ! j) < fst (L ! j')" if "j < j'" "j' < length L" for j j'
    using assms(1) that by (auto simp: sorted_wrt_iff_nth_less)
  have "\<not> fst (L ! i) < fst e" if "e \<in> set (take (Suc i) L)" for e
  proof -
    obtain j where "j < Suc i" "e = L ! j" using \<open>e \<in> set (take (Suc i) L)\<close> assms(2) by (auto simp: in_set_conv_nth)
    then show ?thesis using s [of j i] assms(2) by (cases "j = i") auto
  qed
  then have "filter (\<lambda>e. fst (L ! i) < fst e) (take (Suc i) L) = []" by (simp add: filter_empty_conv)
  moreover have "fst (L ! i) < fst e" if "e \<in> set (drop (Suc i) L)" for e
  proof -
    obtain j where "Suc i + j < length L" "e = L ! (Suc i + j)"
      using \<open>e \<in> set (drop (Suc i) L)\<close> assms(2) by (auto simp: in_set_conv_nth less_diff_conv add.commute)
    then show ?thesis using s [of i "Suc i + j"] by simp
  qed
  then have "filter (\<lambda>e. fst (L ! i) < fst e) (drop (Suc i) L) = drop (Suc i) L" by (simp add: filter_id_conv)
  ultimately show ?thesis by (metis append_Nil append_take_drop_id filter_append)
qed

lemma next_chunk:
  assumes "dom m \<subseteq> range fold_u64" "finite (dom m)" "i < length (items_of n m k)" "fst (items_of n m k ! i) \<noteq> -1"
  shows "items_of n m (fst (items_of n m k ! i) + 1) = drop (Suc i) (items_of n m k)"
proof -
  define L where "L = items_of n m k"
  define x where "x = fst (L ! i)"
  have L: "L = filter (\<lambda>e. k \<le> fst e) (all_items n m)" by (simp add: L_def items_of_filter [OF assms(1,2)])
  have "L ! i \<in> set L" using assms(3) by (simp add: L_def)
  then have kx: "k \<le> x" by (simp add: x_def L)
  have "x \<noteq> -1" using assms(4) by (simp add: x_def L_def)
  then have "items_of n m (x + 1) = filter (\<lambda>e. x < fst e) (all_items n m)"
    by (simp add: items_of_filter [OF assms(1,2), of n "x + 1"] word_succ_le)
  also have "\<dots> = filter (\<lambda>e. x < fst e) L"
    unfolding L filter_filter by (rule filter_cong [OF refl]) (use kx in auto)
  also have "\<dots> = drop (Suc i) L" unfolding x_def
    by (rule filter_above_sorted) (use items_sorted [OF assms(1,2)] assms(3) in \<open>simp_all add: L_def\<close>)
  finally show ?thesis by (simp add: x_def L_def)
qed

section \<open>Buffers\<close>

definition behind :: "nat \<Rightarrow> (bytes \<rightharpoonup> bytes) \<Rightarrow> scan_buf \<Rightarrow> items" where
  "behind n m b = (if sb_end b then [] else items_of n m (fst (last (sb_items b)) + 1))"

definition pending :: "nat \<Rightarrow> (bytes \<rightharpoonup> bytes) \<Rightarrow> scan_buf \<Rightarrow> items" where
  "pending n m b = sb_rest b @ behind n m b"

fun merge_items :: "items \<Rightarrow> items \<Rightarrow> items" where
  "merge_items (h # hs) (c # cs) = (if fst h \<le> fst c then h # merge_items hs (c # cs) else c # merge_items (h # hs) cs)"
| "merge_items hs cs = hs @ cs"

lemma merge_items_Nil [simp]: "merge_items [] cs = cs" "merge_items hs [] = hs"
  by (cases cs; simp) (cases hs; simp)

abbreviation handed :: "(items \<Rightarrow> bool) \<Rightarrow> items \<Rightarrow> items \<Rightarrow> items" where
  "handed processor \<equiv> visit (\<lambda>out. \<not> processor out)"

lemma merge_loop_handed:
  "merge_loop pr hs cs out = (stop, hr, cr, out') \<Longrightarrow>
     handed pr out (merge_items (hs @ A) (cs @ B)) = (if stop then out' else handed pr out' (merge_items (hr @ A) (cr @ B))) \<and>
     (stop \<or> hr = [] \<or> cr = []) \<and> length hr \<le> length hs \<and> length cr \<le> length cs \<and>
     (hs \<noteq> [] \<and> cs \<noteq> [] \<longrightarrow> stop \<or> length hr + length cr < length hs + length cs)"
proof (induction pr hs cs out rule: merge_loop.induct)
  case (1 pr h hs c cs out)
  show ?case
  proof (cases "fst h \<le> fst c")
    case True
    then show ?thesis using 1 by (cases "pr (out @ [h])") auto
  next
    case False
    then show ?thesis using 1 by (cases "pr (out @ [c])") auto
  qed
qed auto

lemma drain_loop_handed:
  "drain_loop pr hs out = (stop, hr, out') \<Longrightarrow>
     handed pr out (hs @ A) = (if stop then out' else handed pr out' A) \<and> (stop \<or> hr = [])"
  by (induction pr hs out rule: drain_loop.induct) (auto split: if_splits)

lemma scan_round_handed:
  assumes r: "scan_round pr hb cb out = (stop, hr, cr, out')" and e: "sb_end hb \<longrightarrow> A = []" "sb_end cb \<longrightarrow> B = []"
    "sb_rest hb = [] \<longrightarrow> sb_end hb" "sb_rest cb = [] \<longrightarrow> sb_end cb"
  shows "handed pr out (merge_items (sb_rest hb @ A) (sb_rest cb @ B)) =
      (if stop then out' else handed pr out' (merge_items (hr @ A) (cr @ B)))"
    "stop \<or> length hr + length cr < length (sb_rest hb) + length (sb_rest cb) \<or> sb_rest hb = [] \<and> sb_rest cb = [] \<and> hr = [] \<and> cr = []"
proof -
  obtain s1 h1 c1 o1 where M: "merge_loop pr (sb_rest hb) (sb_rest cb) out = (s1, h1, c1, o1)" by (metis prod_cases4)
  note m = merge_loop_handed [OF M, of A B]
  have *: "handed pr out (merge_items (sb_rest hb @ A) (sb_rest cb @ B)) = (if stop then out' else handed pr out' (merge_items (hr @ A) (cr @ B))) \<and>
    (stop \<or> length hr + length cr < length (sb_rest hb) + length (sb_rest cb) \<or> sb_rest hb = [] \<and> sb_rest cb = [] \<and> hr = [] \<and> cr = [])"
  proof (cases "s1")
    case True
    then show ?thesis using r M m by (auto simp: scan_round_def)
  next
    case s1: False
    show ?thesis
    proof (cases "h1 \<noteq> [] \<and> c1 = [] \<and> sb_end cb")
      case True
      obtain s2 h2 o2 where D: "drain_loop pr h1 o1 = (s2, h2, o2)" by (metis prod_cases3)
      then show ?thesis using r M m s1 True e drain_loop_handed [OF D, of A]
        by (cases s2) (auto simp: scan_round_def)
    next
      case nd: False
      show ?thesis
      proof (cases "c1 \<noteq> [] \<and> h1 = [] \<and> sb_end hb")
        case True
        obtain s2 c2 o2 where D: "drain_loop pr c1 o1 = (s2, c2, o2)" by (metis prod_cases3)
        then show ?thesis using r M m s1 True nd e drain_loop_handed [OF D, of B]
          by (cases s2) (auto simp: scan_round_def)
      next
        case False
        then have "stop = False" "hr = h1" "cr = c1" "out' = o1" using r M s1 nd by (auto simp: scan_round_def)
        then show ?thesis using m s1 nd False e by auto
      qed
    qed
  qed
  then show "handed pr out (merge_items (sb_rest hb @ A) (sb_rest cb @ B)) =
      (if stop then out' else handed pr out' (merge_items (hr @ A) (cr @ B)))"
    "stop \<or> length hr + length cr < length (sb_rest hb) + length (sb_rest cb) \<or> sb_rest hb = [] \<and> sb_rest cb = [] \<and> hr = [] \<and> cr = []"
    by blast+
qed

context btree_contract
begin

lemma fill_result:
  assumes s: "rep s m" and w: "\<forall>k v. m k = Some v \<longrightarrow> width \<le> length v"
    and cap: "0 < cap" and b: "sb_items b = []" "sb_rest b = []" "\<not> sb_end b"
  shows "fill_scan_buffer T s cap width n k b = Some (b\<lparr>sb_items := take cap (items_of n m k), sb_rest := take cap (items_of n m k),
    sb_end := length (items_of n m k) < cap\<rparr>)"
proof -
  let ?es = "filter (\<lambda>e. fold_u64 k \<le> fst e) (map_entries m)"
  note fin = rep_finite [OF s(1)]
  have sc: "op_scanAsc T s (fold_u64 k) (\<lambda>vs. length (sb_items b) + length vs < cap) = Some (take cap ?es)"
    using scan [OF s(1)] visit_take [of 0 cap "[]" ?es] b(1) cap by simp
  have sub: "(j, v) \<in> set (take cap ?es) \<Longrightarrow> m j = Some v" for j v using set_take_subset fin by (fastforce simp: set_map_entries)
  have w': "\<not> (\<exists>e \<in> set (take cap ?es). length (snd e) < width)" using sub w by (force simp: not_less)
  have "(min (length ?es) cap < cap) = (length ?es < cap)" by auto
  then show ?thesis using sc w' b cap by (simp add: fill_scan_buffer_def items_of_def take_map Let_def)
qed

lemma fill_ok:
  assumes s: "rep s m" "dom m \<subseteq> range fold_u64" and mx: "m (fold_u64 (-1)) = None" and w: "\<forall>k v. m k = Some v \<longrightarrow> width \<le> length v"
    and cap: "0 < cap" and b: "sb_items b = []" "sb_rest b = []" "\<not> sb_end b"
  shows "\<exists>b'. fill_scan_buffer T s cap width n k b = Some b' \<and> pending n m b' = items_of n m k \<and> sb_rest b' = sb_items b' \<and>
    sb_items b' = take cap (items_of n m k) \<and> sb_end b' = (length (items_of n m k) < cap) \<and> (sb_rest b' = [] \<longrightarrow> sb_end b')"
proof -
  let ?new = "take cap (items_of n m k)"
  let ?b = "b\<lparr>sb_items := ?new, sb_rest := ?new, sb_end := length (items_of n m k) < cap\<rparr>"
  have "pending n m ?b = items_of n m k"
  proof (cases "length (items_of n m k) < cap")
    case True
    then show ?thesis by (simp add: pending_def behind_def)
  next
    case False
    then have i: "cap - 1 < length (items_of n m k)" "last ?new = items_of n m k ! (cap - 1)"
      using cap by (auto, subst last_conv_nth) auto
    have "fst (items_of n m k ! (cap - 1)) \<noteq> -1"
    proof
      assume "fst (items_of n m k ! (cap - 1)) = -1"
      then obtain j v where "m j = Some v" "unfold_u64 j = -1"
        using nth_mem [OF i(1)] rep_finite [OF s(1)] by (auto simp: items_of_def set_map_entries)
      then show False using mx s(2) by (metis domI option.distinct(1) rangeE subsetD unfold_fold_u64)
    qed
    from next_chunk [OF s(2) rep_finite [OF s(1)] i(1) this] show ?thesis using i False cap by (simp add: pending_def behind_def)
  qed
  then show ?thesis using fill_result [OF s(1) w cap b, of n k] cap by (intro exI [of _ ?b]) auto
qed

end

lemma empty_buf_simps: "sb_items empty_buf = []" "sb_rest empty_buf = []" "\<not> sb_end empty_buf"
  by (simp_all add: empty_buf_def)

lemma scan_buffer_pos: "0 < scan_buffer_size"
  by (simp add: scan_buffer_size_def)

context btree_contract
begin

lemma refill_ok:
  assumes s: "rep s m" "dom m \<subseteq> range fold_u64" "m (fold_u64 (-1)) = None" and w: "\<forall>k v. m k = Some v \<longrightarrow> width \<le> length v"
  shows "\<exists>b'. (if sb_rest b = [] \<and> \<not> sb_end b
      then fill_scan_buffer T s scan_buffer_size width n (fst (last (sb_items b)) + 1) (b\<lparr>sb_items := []\<rparr>) else Some b) = Some b' \<and>
    pending n m b' = pending n m b \<and> (sb_rest b' = [] \<longrightarrow> sb_end b')"
proof (cases "sb_rest b = [] \<and> \<not> sb_end b")
  case True
  let ?k = "fst (last (sb_items b)) + 1"
  obtain b' where b': "fill_scan_buffer T s scan_buffer_size width n ?k (b\<lparr>sb_items := []\<rparr>) = Some b'" "pending n m b' = items_of n m ?k"
      "sb_rest b' = take scan_buffer_size (items_of n m ?k)" "sb_end b' = (length (items_of n m ?k) < scan_buffer_size)"
    using fill_ok [OF s w, of scan_buffer_size "b\<lparr>sb_items := []\<rparr>" n ?k] True by (auto simp: scan_buffer_size_def)
  then show ?thesis using True by (auto simp: pending_def behind_def scan_buffer_size_def)
next
  case False
  then show ?thesis by auto
qed

lemma scan_loop_ok:
  assumes R: "two_rep rep t mh mc" and um: "unmarked mh" and mx: "mh (fold_u64 (-1)) = None" "mc (fold_u64 (-1)) = None"
    and b: "sb_rest hb = [] \<longrightarrow> sb_end hb" "sb_rest cb = [] \<longrightarrow> sb_end cb"
  defines "n \<equiv> payload_size t"
  shows "scan_loop T t pr hb cb out = Some (handed pr out (merge_items (pending n mh hb) (pending n mc cb)))"
  using b
proof (induction "length (pending n mh hb) + length (pending n mc cb)" arbitrary: hb cb out rule: less_induct)
  case less
  note r = two_repD [OF R]
  have dh: "dom mh \<subseteq> range fold_u64" "dom mc \<subseteq> range fold_u64" using r(3) by (simp_all add: two_ok_def)
  have wh: "\<forall>k v. mh k = Some v \<longrightarrow> TaggedPayload_size t \<le> length v"
    using two_okD(3) [OF r(3)] um by (fastforce simp: hot_entry_ok_def unmarked_def TaggedPayload_size_def)
  have wc: "\<forall>k v. mc k = Some v \<longrightarrow> payload_size t \<le> length v" using two_okD(4) [OF r(3)] by fastforce
  obtain stop hr cr out' where S: "scan_round pr hb cb out = (stop, hr, cr, out')" by (metis prod_cases4)
  have e: "sb_end hb \<longrightarrow> behind n mh hb = []" "sb_end cb \<longrightarrow> behind n mc cb = []" by (simp_all add: behind_def)
  note H = scan_round_handed [OF S e less.prems, folded pending_def]
  let ?h = "hb\<lparr>sb_rest := hr\<rparr>" and ?c = "cb\<lparr>sb_rest := cr\<rparr>"
  have pend: "pending n mh ?h = hr @ behind n mh hb" "pending n mc ?c = cr @ behind n mc cb" by (simp_all add: pending_def behind_def)
  show ?case
  proof (cases stop)
    case True
    then show ?thesis using S H(1) by (simp add: scan_loop.simps [of T t pr hb cb out])
  next
    case False
    obtain hb' where h: "refill_hot T t ?h = Some hb'" "pending n mh hb' = pending n mh ?h" "sb_rest hb' = [] \<longrightarrow> sb_end hb'"
      using refill_ok [OF r(1) dh(1) mx(1) wh, of ?h n] unfolding refill_hot_def n_def by blast
    obtain cb' where c: "refill_cold T t ?c = Some cb'" "pending n mc cb' = pending n mc ?c" "sb_rest cb' = [] \<longrightarrow> sb_end cb'"
      using refill_ok [OF r(2) dh(2) mx(2) wc, of ?c n] unfolding refill_cold_def n_def by blast
    have out: "handed pr out (merge_items (pending n mh hb) (pending n mc cb)) = handed pr out' (merge_items (pending n mh hb') (pending n mc cb'))"
      using H(1) False h(2) c(2) pend by simp
    show ?thesis
    proof (cases "sb_rest cb' = [] \<and> sb_end cb' \<and> sb_rest hb' = [] \<and> sb_end hb'")
      case True
      then have "pending n mh hb' = []" "pending n mc cb' = []" by (simp_all add: pending_def behind_def)
      then show ?thesis using S False h(1) c(1) True out by (simp add: scan_loop.simps [of T t pr hb cb out])
    next
      case go: False
      have "length (pending n mh hb') + length (pending n mc cb') < length (pending n mh hb) + length (pending n mc cb)"
      proof -
        have "\<not> (sb_rest hb = [] \<and> sb_rest cb = [] \<and> hr = [] \<and> cr = [])"
        proof
          assume z: "sb_rest hb = [] \<and> sb_rest cb = [] \<and> hr = [] \<and> cr = []"
          then have "sb_end hb" "sb_end cb" using less.prems by auto
          then have "hb' = ?h" "cb' = ?c" using h(1) c(1) by (auto simp: refill_hot_def refill_cold_def)
          then show False using go z \<open>sb_end hb\<close> \<open>sb_end cb\<close> by simp
        qed
        then have "length hr + length cr < length (sb_rest hb) + length (sb_rest cb)" using H(2) False by blast
        then show ?thesis using h(2) c(2) pend by (simp add: pending_def)
      qed
      from less.hyps [OF this h(3) c(3)] show ?thesis
        using S False h(1) c(1) go out by (auto simp: scan_loop.simps [of T t pr hb cb out])
    qed
  qed
qed

lemma two_scan_ok:
  assumes R: "two_rep rep t mh mc" and um: "unmarked mh" and mx: "mh (fold_u64 (-1)) = None" "mc (fold_u64 (-1)) = None"
  defines "n \<equiv> payload_size t"
  shows "two_scan T start pr t = Some (handed pr [] (merge_items (items_of n mh start) (items_of n mc start)), t\<lparr>scan_ops := scan_ops t + 1\<rparr>)"
proof -
  let ?t = "t\<lparr>scan_ops := scan_ops t + 1\<rparr>"
  have R': "two_rep rep ?t mh mc" using R by (simp add: two_rep_def)
  note r = two_repD [OF R']
  have dh: "dom mh \<subseteq> range fold_u64" "dom mc \<subseteq> range fold_u64" using r(3) by (simp_all add: two_ok_def)
  have wh: "\<forall>k v. mh k = Some v \<longrightarrow> TaggedPayload_size ?t \<le> length v"
    using two_okD(3) [OF r(3)] um by (fastforce simp: hot_entry_ok_def unmarked_def TaggedPayload_size_def)
  have wc: "\<forall>k v. mc k = Some v \<longrightarrow> payload_size ?t \<le> length v" using two_okD(4) [OF r(3)] by fastforce
  obtain hb where h: "fill_scan_buffer T (hot ?t) scan_buffer_size (TaggedPayload_size ?t) n start empty_buf = Some hb"
      "pending n mh hb = items_of n mh start" "sb_rest hb = [] \<longrightarrow> sb_end hb"
    using fill_ok [OF r(1) dh(1) mx(1) wh, of scan_buffer_size empty_buf n start] empty_buf_simps scan_buffer_pos by blast
  obtain cb where c: "fill_scan_buffer T (cold ?t) scan_buffer_size (payload_size ?t) n start empty_buf = Some cb"
      "pending n mc cb = items_of n mc start" "sb_rest cb = [] \<longrightarrow> sb_end cb"
    using fill_ok [OF r(2) dh(2) mx(2) wc, of scan_buffer_size empty_buf n start] empty_buf_simps scan_buffer_pos by blast
  have "scan_loop T ?t pr hb cb [] = Some (handed pr [] (merge_items (items_of n mh start) (items_of n mc start)))"
    using scan_loop_ok [OF R' um mx h(3) c(3), of pr "[]"] h(2) c(2) by (simp add: n_def)
  then show ?thesis using h(1) c(1) by (simp add: two_scan_def Let_def n_def)
qed

lemma btree_entries_loop_ok:
  assumes "rep s m" "dom m \<subseteq> range fold_u64" "m (fold_u64 (-1)) = None"
  shows "btree_entries_loop T s k a = Some (a + length (items_of 0 m k))"
proof (induction "length (items_of 0 m k)" arbitrary: k a rule: less_induct)
  case less
  obtain b where b: "fill_scan_buffer T s 64 0 0 k empty_buf = Some b" "pending 0 m b = items_of 0 m k" "sb_rest b = sb_items b"
      "sb_items b = take 64 (items_of 0 m k)" "sb_end b = (length (items_of 0 m k) < 64)"
    using fill_ok [OF assms, of 0 64 empty_buf 0 k] by (auto simp: empty_buf_def)
  show ?case
  proof (cases "sb_end b")
    case True
    then show ?thesis using b by (simp add: btree_entries_loop.simps [of T s k a])
  next
    case False
    let ?k = "fst (last (sb_items b)) + 1"
    have L: "items_of 0 m k = sb_items b @ items_of 0 m ?k" using b(2,3) False by (simp add: pending_def behind_def)
    then have l: "length (items_of 0 m k) = length (sb_items b) + length (items_of 0 m ?k)" by (metis length_append)
    have "length (sb_items b) = 64" using b(4,5) False by simp
    then have "length (items_of 0 m ?k) < length (items_of 0 m k)" using l by simp
    from less.hyps [OF this, of "a + length (sb_items b)"] show ?thesis
      using b(1) False l by (simp add: btree_entries_loop.simps [of T s k a])
  qed
qed

end

section \<open>A key at the top of its type\<close>

lemma length_items_of: "dom m \<subseteq> range fold_u64 \<Longrightarrow> finite (dom m) \<Longrightarrow> length (items_of n m 0) = card (dom m)"
  by (simp add: items_of_filter all_items_def map_entries_def)

lemma last_items_of:
  assumes "dom m \<subseteq> range fold_u64" "finite (dom m)" "m (fold_u64 (-1)) \<noteq> None"
  shows "fst (last (items_of n m 0)) = -1"
proof -
  let ?L = "items_of n m 0"
  have L: "?L = all_items n m" by (simp add: items_of_filter [OF assms(1,2)])
  obtain v where "m (fold_u64 (-1)) = Some v" using assms(3) by blast
  then have "(-1, take n v) \<in> set ?L"
    unfolding L all_items_def by (force simp: set_map_entries [OF assms(2)] unfold_fold_u64)
  then obtain i where i: "i < length ?L" "fst (?L ! i) = -1" by (metis fst_conv in_set_conv_nth)
  have "i = length ?L - 1"
  proof (rule ccontr)
    assume "i \<noteq> length ?L - 1"
    then have "fst (?L ! i) < fst (?L ! (length ?L - 1))"
      using items_sorted [OF assms(1,2), of n 0] i(1) by (auto simp: sorted_wrt_iff_nth_less)
    then show False using i(2) by (simp add: word_less_nat_alt) (metis not_less_iff_gr_or_eq word_less_nat_alt word_order.not_eq_extremum)
  qed
  moreover have "?L \<noteq> []" using i(1) by auto
  ultimately show ?thesis using i(2) by (simp add: last_conv_nth)
qed

context btree_contract
begin

lemma btree_entries_diverges:
  assumes "rep s m" "dom m \<subseteq> range fold_u64" "m (fold_u64 (-1)) \<noteq> None" "card (dom m) = 64"
  shows "btree_entries T s = None"
proof -
  let ?L = "items_of 0 m 0"
  note fin = rep_finite [OF assms(1)]
  have l: "length ?L = 64" using length_items_of [OF assms(2) fin] assms(4) by simp
  let ?b = "empty_buf\<lparr>sb_items := ?L, sb_rest := ?L, sb_end := False\<rparr>"
  have f: "fill_scan_buffer T s 64 0 0 0 empty_buf = Some ?b"
    using fill_result [OF assms(1), of 0 64 empty_buf 0 0] l empty_buf_simps by simp
  have w: "fst (last ?L) + 1 = 0" using last_items_of [OF assms(2) fin assms(3)] by simp
  have "T = T \<longrightarrow> s = s \<longrightarrow> (0 :: u64) \<noteq> 0" if "btree_entries_loop T s 0 0 = Some y" for y
    using that
    by (rule btree_entries_loop.raw_induct [where P = "\<lambda>T' s' k a y. T' = T \<longrightarrow> s' = s \<longrightarrow> k \<noteq> 0", rotated]) (fastforce simp: f w)
  then show ?thesis unfolding btree_entries_def by (cases "btree_entries_loop T s 0 0") auto
qed

end

section \<open>The exclusive mode\<close>

definition view_items :: "(u64 \<rightharpoonup> bytes) \<Rightarrow> u64 \<Rightarrow> items" where
  "view_items m k = map (\<lambda>x. (x, the (m x))) (sorted_list_of_set {x \<in> dom m. k \<le> x})"

lemma set_merge_items: "set (merge_items hs cs) = set hs \<union> set cs"
  by (induction hs cs rule: merge_items.induct) auto

lemma sorted_merge_items:
  assumes "sorted_wrt (<) (map fst hs)" "sorted_wrt (<) (map fst cs)" "fst ` set hs \<inter> fst ` set cs = {}"
  shows "sorted_wrt (<) (map fst (merge_items hs cs))"
  using assms
proof (induction hs cs rule: merge_items.induct)
  case (1 h hs c cs)
  then show ?case by (cases "fst h \<le> fst c") (auto simp: set_merge_items order.order_iff_strict intro: order.strict_trans)
qed auto

lemma set_items_of:
  assumes "dom m \<subseteq> range fold_u64" "finite (dom m)"
  shows "set (items_of n m k) = {(x, take n v) |x v. m (fold_u64 x) = Some v \<and> k \<le> x}"
proof -
  have "set (all_items n m) = {(x, take n v) |x v. m (fold_u64 x) = Some v}"
    using assms unfolding all_items_def by (force simp: set_map_entries unfold_fold_u64 image_iff)
  then show ?thesis by (auto simp: items_of_filter [OF assms])
qed

lemma view_items_unique:
  assumes "sorted_wrt (<) (map fst L)" "set L = {(x, v). m x = Some v \<and> k \<le> x}"
  shows "L = view_items m k"
proof -
  have s: "fst ` set L = {x \<in> dom m. k \<le> x}" using assms(2) by force
  have d: "distinct (map fst L)" by (rule sorted_wrt_less_distinct [OF assms(1)])
  have "sorted_list_of_set (fst ` set L) = map fst L"
    using assms(1) d sorted_list_of_set.idem_if_sorted_distinct [of "map fst L"]
    by (simp add: sorted_wrt_mono_rel [of "map fst L" "(<)" "(\<le>)"])
  then have "view_items m k = map (\<lambda>e. (fst e, the (m (fst e)))) L" by (simp add: view_items_def s [symmetric] comp_def)
  also have "\<dots> = map (\<lambda>e. e) L" by (rule map_cong [OF refl]) (use assms(2) in auto)
  finally show ?thesis by simp
qed

lemma exclusive_items:
  assumes ok: "two_ok n False mh mc" and um: "unmarked mh" and fin: "finite (dom mh)" "finite (dom mc)"
  shows "merge_items (items_of n mh k) (items_of n mc k) = view_items (view mh mc) k"
proof (rule view_items_unique)
  have d: "dom mh \<subseteq> range fold_u64" "dom mc \<subseteq> range fold_u64" using ok by (simp_all add: two_ok_def)
  have h: "length p = n + 1 \<and> mc j = None" if "mh j = Some p" for j p
    using two_okD(3) [OF ok that] um that by (auto simp: hot_entry_ok_def unmarked_def)
  have c: "length v = n" if "mc j = Some v" for j v using two_okD(4) [OF ok that] .
  have tk: "take n p = butlast p" if "mh j = Some p" for j p using h [OF that] by (simp add: butlast_conv_take)
  note S = set_items_of [OF d(1) fin(1), of n k] set_items_of [OF d(2) fin(2), of n k]
  show "sorted_wrt (<) (map fst (merge_items (items_of n mh k) (items_of n mc k)))"
    by (rule sorted_merge_items) (use items_sorted d fin S h in auto)
  have "view mh mc x = Some v \<longleftrightarrow> (\<exists>p. mh (fold_u64 x) = Some p \<and> v = take n p) \<or> (\<exists>w. mc (fold_u64 x) = Some w \<and> v = take n w)" for x v
    using h [of "fold_u64 x"] c [of "fold_u64 x"] tk [of "fold_u64 x"] um
    by (cases "mh (fold_u64 x)"; cases "mc (fold_u64 x)") (auto simp: view_def unmarked_def)
  then show "set (merge_items (items_of n mh k) (items_of n mc k)) = {(x, v). view mh mc x = Some v \<and> k \<le> x}"
    unfolding set_merge_items S by blast
qed

end
