(* ===== verification/BTreeProps.thy ===== *)
theory BTreeProps
  imports BTreeInterface
begin

text \<open>
  The properties of the B-tree: what the operations of \<open>BTreeLL\<close> and \<open>BTreeGeneric\<close> guarantee to their callers, with a
  freshly created tree as the instance at which each of them is used.
\<close>

section \<open>A new tree\<close>

lemma create_ok:
  assumes f: "free_list b = w # ws" and d: "distinct (meta # w # ws)" and h: "height b = 1"
  shows "\<exists>b'. create b meta = Some b' \<and> btree_inv b' (PLeaf w) \<and> entries b' (PLeaf w) = [] \<and> free_list b' = ws"
proof -
  let ?b = "b\<lparr>free_list := ws, bfs := (bfs b)(w := new_node True, meta := (bfs b meta)\<lparr>upper := w\<rparr>), meta_node_bf := meta\<rparr>"
  have ne: "w \<noteq> meta" using d by auto
  have c: "create b meta = Some ?b" using f ne by (simp add: create_def allocatePage_def set_page_def)
  have "leaf_ok (new_node True) None None"
    by (simp add: leaf_ok_def page_fences_def wf_new_node) (simp add: new_node_def getLowerFenceKey_def getUpperFenceKey_def)
  then have "btree_inv ?b (PLeaf w)" using d h ne by (auto simp: btree_inv_def root_bf_def)
  then show ?thesis using c ne by (auto simp: entries_def)
qed

text \<open>Frames 1 to 9 are free, frame 0 becomes the meta node.\<close>

definition sample_btree :: btree where
  "sample_btree = the (create \<lparr>bfs = \<lambda>_. new_node True, meta_node_bf = 0, height = 1,
     free_list = [1, 2, 3, 4, 5, 6, 7, 8, 9], bulk_insert = False\<rparr> 0)"

lemma sample_btree: "btree_inv sample_btree (PLeaf 1)" "tree_map sample_btree (PLeaf 1) = Map.empty"
proof -
  have "\<exists>b'. create \<lparr>bfs = \<lambda>_. new_node True, meta_node_bf = 0, height = 1,
     free_list = [1, 2, 3, 4, 5, 6, 7, 8, 9], bulk_insert = False\<rparr> 0 = Some b' \<and> btree_inv b' (PLeaf 1) \<and>
     entries b' (PLeaf 1) = [] \<and> free_list b' = [2, 3, 4, 5, 6, 7, 8, 9]"
    by (rule create_ok) simp_all
  then show "btree_inv sample_btree (PLeaf 1)" "tree_map sample_btree (PLeaf 1) = Map.empty"
    by (auto simp: sample_btree_def tree_map_def)
qed

lemma sample_is_btree: "is_btree sample_btree Map.empty"
  using sample_btree by (rule is_btreeI)

section \<open>A tree with two leaves\<close>

text \<open>A leaf with the keys (1,0), (2,0), (3,0), split at the separator (3): no key equals the fence between the leaves.\<close>

definition wide_leaf :: btree_node where
  "wide_leaf = snd (node_insert (snd (node_insert (snd (node_insert (new_node True) [1, 0] [])) [2, 0] [])) [3, 0] [])"

lemma wide_leaf_simps [simp]:
  "wf_node wide_leaf" "content wide_leaf = [([1, 0], []), ([2, 0], []), ([3, 0], [])]" "is_leaf wide_leaf"
  "getLowerFenceKey wide_leaf = None" "getUpperFenceKey wide_leaf = None"
proof -
  let ?n0 = "new_node True"
  have f0: "getLowerFenceKey ?n0 = None" "getUpperFenceKey ?n0 = None" "space_used ?n0 = 0"
    by (simp_all add: new_node_def getLowerFenceKey_def getUpperFenceKey_def)
  note A = insert_no_fences [of ?n0 "[1, 0]" "[]", OF wf_new_node f0(1,2)]
  define n1 where "n1 = snd (node_insert ?n0 [1, 0] [])"
  have n1: "wf_node n1" "content n1 = [([1, 0], [])]" "getLowerFenceKey n1 = None" "getUpperFenceKey n1 = None"
    "is_leaf n1" "space_used n1 = 2"
    using A f0 by (simp_all add: n1_def slots_end_def insert_at_def)
  have k1: "keys n1 = [[1, 0]]" "count n1 = 1" using n1(2) length_content [of n1] by (simp_all add: keys_def)
  note B = insert_no_fences [of n1 "[2, 0]" "[]", OF n1(1,3,4)]
  define n2 where "n2 = snd (node_insert n1 [2, 0] [])"
  have n2: "wf_node n2" "content n2 = [([1, 0], []), ([2, 0], [])]" "getLowerFenceKey n2 = None" "getUpperFenceKey n2 = None"
    "is_leaf n2" "space_used n2 = 4"
    using B n1 k1 by (simp_all add: n2_def slots_end_def insert_at_def rank_def)
  have k2: "keys n2 = [[1, 0], [2, 0]]" "count n2 = 2" using n2(2) length_content [of n2] by (simp_all add: keys_def)
  note C = insert_no_fences [of n2 "[3, 0]" "[]", OF n2(1,3,4)]
  have "wide_leaf = snd (node_insert n2 [3, 0] [])" by (simp add: wide_leaf_def n2_def n1_def)
  then show "wf_node wide_leaf" "content wide_leaf = [([1, 0], []), ([2, 0], []), ([3, 0], [])]" "is_leaf wide_leaf"
    "getLowerFenceKey wide_leaf = None" "getUpperFenceKey wide_leaf = None"
    using C n2 k2 by (simp_all add: slots_end_def insert_at_def rank_def)
qed

lemma wide_leaf_keys [simp]: "keys wide_leaf = [[1, 0], [2, 0], [3, 0]]" "count wide_leaf = 3"
  using length_content [of wide_leaf] by (simp_all add: keys_def)

text \<open>Frame 3 is the root, frames 1 and 2 are the leaves.\<close>

definition two_leaf_btree :: btree where
  "two_leaf_btree =
     (case node_split wide_leaf ((new_node False)\<lparr>upper := 2\<rparr>) (new_node True) 1 1 [3] of (right, root, left) \<Rightarrow>
        \<lparr>bfs = (\<lambda>_. new_node True)(0 := (new_node True)\<lparr>upper := 3\<rparr>, 3 := root, 1 := left, 2 := right),
         meta_node_bf = 0, height = 2, free_list = [4, 5], bulk_insert = False\<rparr>)"

definition two_leaf_ptree :: ptree where
  "two_leaf_ptree = PInner 3 [PLeaf 1, PLeaf 2]"

lemma two_leaf_pages:
  "leaf_ok (bfs two_leaf_btree 1) None (Some [3])" "content (bfs two_leaf_btree 1) = [([1, 0], []), ([2, 0], [])]"
  "leaf_ok (bfs two_leaf_btree 2) (Some [3]) None" "content (bfs two_leaf_btree 2) = [([3, 0], [])]"
  "inner_ok (bfs two_leaf_btree 3) None None [1, 2]" "keys (bfs two_leaf_btree 3) = [[3]]"
  "root_bf two_leaf_btree = 3" "height two_leaf_btree = 2" "meta_node_bf two_leaf_btree = 0" "free_list two_leaf_btree = [4, 5]"
proof -
  have s: "separates wide_leaf 1 [3]" by (simp add: separates_def)
  obtain r p l where sp: "node_split wide_leaf ((new_node False)\<lparr>upper := 2\<rparr>) (new_node (is_leaf wide_leaf)) 1 1 [3] = (r, p, l)"
    by (metis prod_cases3)
  have so: "split_ok wide_leaf 1 [3] l r" "p = snd (node_insert ((new_node False)\<lparr>upper := 2\<rparr>) [3] (swip_bytes 1))"
    using node_split_spec [OF _ s, of "(new_node False)\<lparr>upper := 2\<rparr>" 1] split_room_short [OF s] sp by simp_all
  have b: "bfs two_leaf_btree 1 = l" "bfs two_leaf_btree 2 = r" "bfs two_leaf_btree 3 = p" "root_bf two_leaf_btree = 3"
    using sp by (simp_all add: two_leaf_btree_def root_bf_def)
  show "height two_leaf_btree = 2" "meta_node_bf two_leaf_btree = 0" "free_list two_leaf_btree = [4, 5]" "root_bf two_leaf_btree = 3"
    using sp b by (simp_all add: two_leaf_btree_def)
  show "inner_ok (bfs two_leaf_btree 3) None None [1, 2]" "keys (bfs two_leaf_btree 3) = [[3]]"
    using new_root_ok [of "[3]" 2 1] so(2) by (simp_all add: b key_ok_def)
  have w: "leaf_ok wide_leaf None None" by (simp add: leaf_ok_def page_fences_def key_ok_def val_ok_def)
  show "leaf_ok (bfs two_leaf_btree 1) None (Some [3])" "leaf_ok (bfs two_leaf_btree 2) (Some [3]) None"
    using leaf_halves [OF w s so(1)] by (simp_all add: b)
  show "content (bfs two_leaf_btree 1) = [([1, 0], []), ([2, 0], [])]" "content (bfs two_leaf_btree 2) = [([3, 0], [])]"
    using so(1) by (simp_all add: b split_ok_def eval_nat_numeral)
qed

lemma two_leaf_inv:
  "btree_inv two_leaf_btree two_leaf_ptree"
  "entries two_leaf_btree two_leaf_ptree = [([1, 0], []), ([2, 0], []), ([3, 0], [])]"
  using two_leaf_pages by (simp_all add: two_leaf_ptree_def btree_inv_def entries_def flat_inner)

lemma two_leaf_sub:
  "sub (bfs two_leaf_btree) (height two_leaf_btree) two_leaf_ptree None None 2 (PInner 3 [PLeaf 1, PLeaf 2]) None None"
  "sub (bfs two_leaf_btree) (height two_leaf_btree) two_leaf_ptree None None 1 (PLeaf 1) None (Some [3])"
  "sub (bfs two_leaf_btree) (height two_leaf_btree) two_leaf_ptree None None 1 (PLeaf 2) (Some [3]) None"
proof -
  show s: "sub (bfs two_leaf_btree) (height two_leaf_btree) two_leaf_ptree None None 2 (PInner 3 [PLeaf 1, PLeaf 2]) None None"
    using sub_refl two_leaf_pages(8) by (simp add: two_leaf_ptree_def)
  have s': "sub (bfs two_leaf_btree) (height two_leaf_btree) two_leaf_ptree None None (Suc 1) (PInner 3 [PLeaf 1, PLeaf 2]) None None"
    using s by (simp add: numeral_2_eq_2)
  show "sub (bfs two_leaf_btree) (height two_leaf_btree) two_leaf_ptree None None 1 (PLeaf 1) None (Some [3])"
    "sub (bfs two_leaf_btree) (height two_leaf_btree) two_leaf_ptree None None 1 (PLeaf 2) (Some [3]) None"
    using sub_child [OF s', of 0] sub_child [OF s', of 1] two_leaf_pages(6) by (simp_all add: lb_def ub_def)
qed

section \<open>Properties\<close>



text \<open>C3. \<open>BTreeLL::lookup\<close> returns, and hands the payload of the key to the callback exactly when the key is present.\<close>

theorem lookup_refines_map:
  assumes "is_btree b m"
  shows "ll_lookup b k = Some (case m k of Some v \<Rightarrow> (OK, Some v) | None \<Rightarrow> (NOT_FOUND, None))"
  using assms ll_lookup_ok by (auto simp: is_btree_def)

theorem lookup_refines_map_witness: "ll_lookup sample_btree [1] = Some (NOT_FOUND, None)"
  using lookup_refines_map [OF sample_is_btree, of "[1]"] by simp

text \<open>C2. \<open>BTreeLL::remove\<close>, with and without the no-merge flag, returns, reports whether the key was present, and removes
  exactly that key; the merges that it triggers do not lose or duplicate entries.\<close>

theorem remove_refines_map:
  assumes "is_btree b m"
  shows "(\<exists>b'. ll_remove b k = Some (if k \<in> dom m then OK else NOT_FOUND, b') \<and> is_btree b' (m(k := None))) \<and>
    (\<exists>b'. remove_no_merge b k no_merge = Some (if k \<in> dom m then OK else NOT_FOUND, b') \<and> is_btree b' (m(k := None)))"
  using assms ll_remove_ok(1) [of b _ k] ll_remove_ok(2) [of b _ k no_merge] unfolding is_btree_def [of b m] by blast

theorem remove_refines_map_witness:
  "\<exists>b'. ll_remove sample_btree [1] = Some (NOT_FOUND, b') \<and> is_btree b' Map.empty"
  using remove_refines_map [OF sample_is_btree, of "[1]"] by simp

text \<open>C8. \<open>BTreeLL::updateSameSize\<close> with a callback that keeps the length returns, replaces the payload of a present key by
  the callback's result and changes nothing else, whether or not contention management then splits the leaf.\<close>

theorem update_refines_map:
  assumes "is_btree b m" "\<And>v. m k = Some v \<Longrightarrow> length (f v) = length v"
  shows "\<exists>b'. updateSameSize flags rnd faced tr b k f = Some (if k \<in> dom m then OK else NOT_FOUND, b') \<and>
    is_btree b' (case m k of Some v \<Rightarrow> m(k \<mapsto> f v) | None \<Rightarrow> m)"
proof -
  obtain t where t: "btree_inv b t" "tree_map b t = m" using assms(1) by (auto simp: is_btree_def)
  show ?thesis using updateSameSize_ok [OF t(1), unfolded t(2), OF assms(2)] by blast
qed

theorem update_refines_map_witness:
  "\<exists>b'. updateSameSize \<lparr>cm_update_on = 7, cm_period = 14, cm_slowpath_threshold = 1\<rparr> 0 False
     \<lparr>restarts_counter = 0, access_counter = 0, last_modified_pos = -1\<rparr> sample_btree [1] (\<lambda>v. v) = Some (NOT_FOUND, b') \<and>
     is_btree b' Map.empty"
  using update_refines_map [OF sample_is_btree, where k = "[1]" and f = "\<lambda>v. v"] by simp



text \<open>C7. \<open>BTreeLL::scanAsc\<close> returns, and calls the callback on exactly the entries whose key is at least the start key, in
  ascending key order, until the callback asks to stop; empty leaves are skipped.\<close>

theorem scanAsc_visits_in_order:
  assumes "btree_inv b t"
  shows "scanAsc b k f s = Some (scan_list f s (filter (\<lambda>e. k \<le> fst e) (entries b t))) \<and>
    sorted_wrt (<) (map fst (entries b t))"
  using scanAsc_ok [OF assms, of k f s] entries_sorted [OF assms] by blast

theorem scanAsc_visits_in_order_witness:
  "scanAsc two_leaf_btree [2] (\<lambda>s k v. (True, s @ [k])) [] = Some (NOT_FOUND, [[2, 0], [3, 0]])"
  using scanAsc_visits_in_order [OF two_leaf_inv(1), of "[2]" "\<lambda>s k v. (True, s @ [k])" "[]"] two_leaf_inv(2) by simp

text \<open>C5. \<open>trySplit\<close> of any page of the tree, at any favoured position, returns and preserves the tree invariant and the
  sequence of entries. A page with more than two entries is split, or an ancestor is: a frame is taken from the free
  list; only when fewer than two frames are left does the call jump.\<close>

theorem trySplit_keeps_tree:
  assumes "btree_inv b t" "sub (bfs b) (height b) t None None h' p l u"
  shows "\<exists>r b' t'. trySplit b (addr p) fav = Some (r, b') \<and> btree_inv b' t' \<and> entries b' t' = entries b t \<and>
    (if count (bfs b (addr p)) \<le> 2 then r \<and> b' = b
     else if r then length (free_list b') < length (free_list b) else length (free_list b') < 2)"
  using trySplit_ok [OF assms, of fav] by blast

theorem trySplit_keeps_tree_witness: "\<exists>r b'. trySplit sample_btree 1 (-1) = Some (r, b')"
proof -
  have "height sample_btree = 1" using btree_invD(1) [OF sample_btree(1)] by simp
  then have "sub (bfs sample_btree) (height sample_btree) (PLeaf 1) None None 1 (PLeaf 1) None None" by (simp add: sub_refl)
  from trySplit_keeps_tree [OF sample_btree(1) this, of "-1"] show ?thesis by auto
qed

text \<open>C6. \<open>tryMerge\<close> of any page of the tree returns and preserves the tree invariant, the height and the sequence of
  entries, however many levels it merges.\<close>

theorem tryMerge_keeps_tree:
  assumes "btree_inv b t" "sub (bfs b) (height b) t None None h' p l u"
  shows "\<exists>r b' t'. tryMerge b (addr p) = Some (Ret r, b') \<and> btree_inv b' t' \<and> entries b' t' = entries b t \<and>
    height b' = height b"
  using tryMerge_ok [OF assms] by blast

theorem tryMerge_keeps_tree_witness: "\<exists>r b'. tryMerge sample_btree 1 = Some (Ret r, b')"
proof -
  have "height sample_btree = 1" using btree_invD(1) [OF sample_btree(1)] by simp
  then have "sub (bfs sample_btree) (height sample_btree) (PLeaf 1) None None 1 (PLeaf 1) None None" by (simp add: sub_refl)
  from tryMerge_keeps_tree [OF sample_btree(1) this] show ?thesis by auto
qed

text \<open>C13. \<open>findParent\<close> of a page that is not the root reaches the page's parent and the page's position in it.\<close>

theorem findParent_correct:
  assumes "btree_inv b t" "sub (bfs b) (height b) t None None (Suc h') (PInner w ts) l u" "j < length ts"
  shows "findParent b (addr (ts ! j)) = Some (Ret (w, int j)) \<and> child_at (bfs b w) (int j) = addr (ts ! j)"
proof -
  have n: "inner_ok (bfs b w) l u (map addr ts)" using sub_ok [OF assms(2) btree_invD(1) [OF assms(1)]] by simp
  then have "j \<le> count (bfs b w)" using assms(3) by (simp add: inner_ok_def)
  then show ?thesis using findParent_ok [OF assms] inner_child [OF n] assms(3) by simp
qed

text \<open>C14. \<open>countEntries\<close> and \<open>countPages\<close> return the number of entries and of frames of the tree.\<close>

theorem counts_correct:
  assumes "btree_inv b t"
  shows "countEntries b = Some (length (entries b t)) \<and> countPages b = Some (length (frames t))"
  using iterateAllPagesRec_ok [OF btree_invD(1) [OF assms]] btree_invD(2) [OF assms]
  by (simp add: countEntries_def countPages_def iterateAllPages_def page_sum_count page_sum_pages [simplified] entries_def)

theorem counts_correct_witness: "countEntries sample_btree = Some 0 \<and> countPages sample_btree = Some 1"
proof -
  have "entries sample_btree (PLeaf 1) = []" using sample_btree(2) by (simp add: tree_map_def)
  then show ?thesis using counts_correct [OF sample_btree(1)] by simp
qed

theorem findParent_correct_witness: "findParent two_leaf_btree 2 = Some (Ret (3, 1))"
  using findParent_correct [OF two_leaf_inv(1) two_leaf_sub(1) [unfolded numeral_2_eq_2], of 1] by simp

text \<open>\<open>prev\<close>, stepping to the left neighbour whose last key is not the fence, moves back twice.\<close>

lemma two_leaf_leaf_for:
  "findLeafCanJump two_leaf_btree [255] = Some 2" "findLeafCanJump two_leaf_btree [3] = Some 1"
proof -
  note F = sub_findLeaf [OF _ btree_invD(1) [OF two_leaf_inv(1)] rng_None(1)]
  show "findLeafCanJump two_leaf_btree [255] = Some 2" "findLeafCanJump two_leaf_btree [3] = Some 1"
    using F [OF two_leaf_sub(3), of "[255]"] F [OF two_leaf_sub(2), of "[3]"] btree_invD(2) [OF two_leaf_inv(1)]
    by (simp_all add: findLeafCanJump_def between_def above_def upto_def)
qed

lemma two_leaf_facts:
  "count (bfs two_leaf_btree 1) = 2" "count (bfs two_leaf_btree 2) = 1"
  "lowerBound False (bfs two_leaf_btree 2) [255] = (1, False)" "lowerBound False (bfs two_leaf_btree 1) [3] = (2, False)"
  "f_length (lower_fence (bfs two_leaf_btree 1)) = 0" "f_length (lower_fence (bfs two_leaf_btree 2)) \<noteq> 0"
  "fence_bytes (bfs two_leaf_btree 2) (lower_fence (bfs two_leaf_btree 2)) = [3]"
proof -
  note P = two_leaf_pages
  have wf: "wf_node (bfs two_leaf_btree 1)" "wf_node (bfs two_leaf_btree 2)" using P(1,3) by (simp_all add: leaf_ok_def)
  have f: "getLowerFenceKey (bfs two_leaf_btree 1) = None" "getLowerFenceKey (bfs two_leaf_btree 2) = Some [3]"
    using P(1,3) by (simp_all add: leaf_ok_def page_fences_def)
  show c: "count (bfs two_leaf_btree 1) = 2" "count (bfs two_leaf_btree 2) = 1"
    using P(2,4) length_content [of "bfs two_leaf_btree 1"] length_content [of "bfs two_leaf_btree 2"] by simp_all
  have k: "keys (bfs two_leaf_btree 1) = [[1, 0], [2, 0]]" "keys (bfs two_leaf_btree 2) = [[3, 0]]"
    using P(2,4) by (simp_all add: keys_def)
  show "lowerBound False (bfs two_leaf_btree 2) [255] = (1, False)" "lowerBound False (bfs two_leaf_btree 1) [3] = (2, False)"
    using lowerBound_spec [OF wf(2), of "[255]"] lowerBound_spec [OF wf(1), of "[3]"] k by (simp_all add: rank_def)
  show "f_length (lower_fence (bfs two_leaf_btree 1)) = 0" "f_length (lower_fence (bfs two_leaf_btree 2)) \<noteq> 0"
    "fence_bytes (bfs two_leaf_btree 2) (lower_fence (bfs two_leaf_btree 2)) = [3]"
    using fence_facts(2) [OF wf(1)] fence_facts(2,4) [OF wf(2)] f by simp_all
qed

text \<open>C12. A descending scan can skip entries: in the tree with the leaves (1,0), (2,0) and (3,0), whose separator (3) is not
  itself a key, \<open>scanDesc\<close> from the largest key visits (3,0) and (1,0) but not (2,0). \<open>prev\<close> moves to the last entry of
  the left neighbour and then goes round its loop once more instead of returning.\<close>

theorem scanDesc_skips_entry:
  "map fst (entries two_leaf_btree two_leaf_ptree) = [[1, 0], [2, 0], [3, 0]] \<and> btree_inv two_leaf_btree two_leaf_ptree \<and>
   scanDesc two_leaf_btree [255] (\<lambda>s k v. (True, s @ [k])) [] = Some (NOT_FOUND, [[3, 0], [1, 0]])"
proof -
  let ?b = two_leaf_btree
  note F = two_leaf_facts
  let ?i = "\<lambda>w c. \<lparr>it_leaf = w, cur = c\<rparr>"
  have lv: "leaf_of ?b (?i w c) = bfs ?b w" for w c by (simp add: leaf_of_def)
  have bk: "iter_prev ?b (?i 1 1) = Some (OK, ?i 1 0)" by (subst iter_prev.simps) (simp add: Let_def)
  have p2: "iter_prev ?b (?i 2 0) = Some (OK, ?i 1 0)"
    by (subst iter_prev.simps)
      (simp add: Let_def lv F findLeafAndLatch_def two_leaf_leaf_for bk)
  have p1: "iter_prev ?b (?i 1 0) = Some (NOT_FOUND, ?i 1 0)" by (subst iter_prev.simps) (simp add: Let_def lv F)
  have sk: "seekForPrev ?b new_iter [255] = Some (OK, ?i 2 0)"
    by (simp add: seekForPrev_def find_unless_here_def findLeafAndLatch_def new_iter_def two_leaf_leaf_for lv F Let_def)
  have k: "iter_key ?b (?i 2 0) = [3, 0]" "iter_key ?b (?i 1 0) = [1, 0]"
    using content_nth [of 0 "bfs ?b 2"] content_nth [of 0 "bfs ?b 1"] two_leaf_pages(2,4) F(1,2)
    by (simp_all add: iter_key_def lv)
  have l1: "scanDesc_loop ?b (\<lambda>s k v. (True, s @ [k])) s (?i 1 0) = Some (NOT_FOUND, s @ [[1, 0]])" for s
    by (subst scanDesc_loop.simps) (simp add: p1 k)
  have "scanDesc_loop ?b (\<lambda>s k v. (True, s @ [k])) [] (?i 2 0) = Some (NOT_FOUND, [[3, 0], [1, 0]])"
    by (subst scanDesc_loop.simps) (simp add: p2 k l1)
  then show ?thesis using sk two_leaf_inv by (simp add: scanDesc_def)
qed

end
