(* ===== verification/TwoTreeProps.thy ===== *)
theory TwoTreeProps
  imports TwoTreeScan BTreeProps
begin

text \<open>
  The properties of the two-tree adapter over \<open>BTreeLL\<close>: its operations implement those of one map, and the branches on which
  they do not.
\<close>

section \<open>A tree with one record\<close>

definition record_btree :: "bytes \<Rightarrow> bytes \<Rightarrow> btree" where
  "record_btree k v = \<lparr>bfs = (\<lambda>_. new_node True)(0 := (new_node True)\<lparr>upper := 1\<rparr>, 1 := snd (node_insert (new_node True) k v)),
     meta_node_bf = 0, height = 1, free_list = [2, 3, 4], bulk_insert = False\<rparr>"

lemma record_is_btree:
  assumes "key_ok k" "val_ok v"
  shows "is_btree (record_btree k v) [k \<mapsto> v]"
proof -
  let ?e = "new_node True" and ?n = "snd (node_insert (new_node True) k v)"
  have f0: "getLowerFenceKey ?e = None" "getUpperFenceKey ?e = None" "space_used ?e = 0"
    by (simp_all add: new_node_def getLowerFenceKey_def getUpperFenceKey_def)
  have sp: "SIZEOF_SLOT + length k + length v + slots_end (count ?e) + space_used ?e \<le> EFFECTIVE_PAGE_SIZE"
    using assms by (simp add: key_ok_def val_ok_def f0 slots_end_def)
  note A = insert_no_fences [of ?e k v, OF wf_new_node f0(1,2) _ sp]
  have n: "wf_node ?n" "content ?n = [(k, v)]" "getLowerFenceKey ?n = None" "getUpperFenceKey ?n = None" "is_leaf ?n"
    using A by (simp_all add: insert_at_def)
  have "leaf_ok ?n None None" using n assms by (simp add: leaf_ok_def page_fences_def keys_def)
  then have "btree_inv (record_btree k v) (PLeaf 1)" by (auto simp: btree_inv_def root_bf_def record_btree_def)
  moreover have "tree_map (record_btree k v) (PLeaf 1) = [k \<mapsto> v]" using n(2) by (simp add: tree_map_def entries_def record_btree_def)
  ultimately show ?thesis by (rule is_btreeI)
qed

section \<open>The adapter over BTreeLL\<close>

text \<open>\<open>two_tree t m D\<close>: the two trees of \<open>t\<close> hold the map \<open>m\<close>, the keys of \<open>D\<close> have a delete mark in the hot tree, and the
  counters of the hot partition are right. \<open>two_waiting\<close> is the state of a call that waits for a free page.\<close>

definition two_tree :: "btree two \<Rightarrow> (u64 \<rightharpoonup> bytes) \<Rightarrow> u64 set \<Rightarrow> bool" where
  "two_tree t m D \<longleftrightarrow> (\<exists>mh mc. two_rep is_btree t mh mc \<and> view mh mc = m \<and> marks mh = D \<and> hot_counted t mh)"

abbreviation no_free_page :: "btree \<Rightarrow> bool" where
  "no_free_page b \<equiv> length (free_list b) < 2"

definition two_waiting :: "btree two \<Rightarrow> (u64 \<rightharpoonup> bytes) \<Rightarrow> u64 set \<Rightarrow> bool" where
  "two_waiting t m D \<longleftrightarrow> (\<exists>mh mc. two_rep is_btree t mh mc \<and> view mh mc = m \<and> marks mh = D) \<and> (no_free_page (hot t) \<or> no_free_page (cold t))"

lemma marks_empty: "two_ok n incl mh mc \<Longrightarrow> marks mh = {} \<Longrightarrow> unmarked mh"
  unfolding two_ok_def marks_def unmarked_def by blast

lemma outcome_two_tree:
  assumes "\<exists>x. f = Some x \<and> outcome is_btree no_free_page t mh mc m' a x" "view mh mc = m" "marks mh = D" "hot_counted t mh"
  shows "\<exists>r t'. f = Some (r, t') \<and> (r = Ret a \<and> two_tree t' m' D \<or> r = Jump \<and> two_waiting t' m D)"
proof -
  obtain r t' mh' mc' where x: "f = Some (r, t')" "two_rep is_btree t' mh' mc'" "marks mh' = D"
      "r = Jump \<and> view mh' mc' = m \<and> (no_free_page (hot t') \<or> no_free_page (cold t')) \<or> r = Ret a \<and> view mh' mc' = m' \<and> hot_counted t' mh'"
    using assms by (auto simp: outcome_def)
  then show ?thesis unfolding two_tree_def two_waiting_def by blast
qed

lemma two_treeE:
  assumes "two_tree t m D" "evict \<Longrightarrow> D = {}"
  obtains mh mc where "two_rep is_btree t mh mc" "view mh mc = m" "marks mh = D" "hot_counted t mh" "evict \<longrightarrow> unmarked mh"
proof -
  obtain mh mc where R: "two_rep is_btree t mh mc" "view mh mc = m" "marks mh = D" "hot_counted t mh"
    using assms(1) by (auto simp: two_tree_def)
  have "unmarked mh" if "evict" using assms(2) [OF that] R(3) marks_empty [OF two_repD(3) [OF R(1)]] by simp
  then show ?thesis using that R by blast
qed

text \<open>States for the witnesses: an empty hot tree over a cold tree with the record 5 or with no record, 1-byte payloads.\<close>

definition sample_two :: "bool \<Rightarrow> btree \<Rightarrow> btree two" where
  "sample_two incl c = \<lparr>hot = sample_btree, cold = c, payload_size = 1, inclusive = incl, clock_hand = 0, eviction_round = 0,
     round_refs = \<lambda>_. 0, hot_partition_item_count = 0, hot_partition_size_bytes = 0, eviction_items = 0, upward_migrations = 0,
     failed_upward_migrations = 0, downward_migrations = 0, total_lookups = 0, lookups_hit_top = 0, scan_ops = 0\<rparr>"

definition quiet :: two_env where
  "quiet = \<lparr>evict_first = True, cache_under_pressure = False, cache_under_pressure_soft = False, should_migrate = True, admit_anyway = False\<rparr>"

definition no_cm :: cm_flags where
  "no_cm = \<lparr>cm_update_on = 7, cm_period = 14, cm_slowpath_threshold = 1\<rparr>"

definition no_env :: "btree \<Rightarrow> u64 \<times> bool \<times> ContentionTracker" where
  "no_env b = (0, False, \<lparr>restarts_counter = 0, access_counter = 0, last_modified_pos = -1\<rparr>)"

lemma sample_rep:
  "two_rep is_btree (sample_two incl (record_btree (fold_u64 5) [9])) Map.empty [fold_u64 5 \<mapsto> [9]]"
  "two_rep is_btree (sample_two incl sample_btree) Map.empty Map.empty"
  using record_is_btree [of "fold_u64 5" "[9]"] sample_is_btree
  by (auto simp: two_rep_def sample_two_def two_ok_def val_ok_def)

lemma sample_two_tree:
  "two_tree (sample_two incl (record_btree (fold_u64 5) [9])) [5 \<mapsto> [9]] {}"
  "two_tree (sample_two incl sample_btree) Map.empty {}"
proof -
  have c: "hot_counted (sample_two incl c) Map.empty" for c by (simp add: sample_two_def counted_def)
  have v: "view Map.empty [fold_u64 5 \<mapsto> [9]] = [5 \<mapsto> [9]]" by (rule ext) (simp add: view_def)
  show "two_tree (sample_two incl (record_btree (fold_u64 5) [9])) [5 \<mapsto> [9]] {}"
    unfolding two_tree_def by (intro exI conjI, rule sample_rep(1), rule v) (simp_all add: marks_def c)
  show "two_tree (sample_two incl sample_btree) Map.empty {}"
    unfolding two_tree_def by (intro exI conjI, rule sample_rep(2)) (auto simp: marks_def view_def c)
qed

section \<open>Properties\<close>

text \<open>C26. \<open>ConcurrentTwoBTreeAdapter::lookup\<close>, with the eviction that may precede it and the migration that may follow it, whatever
  the memory pressure and the random choices, in the inclusive and the exclusive mode: it returns the payload of the key in
  the one map that the two trees represent, and leaves the map, the delete marks and the counters of the hot partition
  right; or it waits for a free page, with the map unchanged. Eviction is not defined when there are delete marks.\<close>

theorem two_lookup_refines:
  assumes "two_tree t m D" "evict_first env \<Longrightarrow> D = {}"
  shows "\<exists>r t'. two_lookup (ll_ops flags e) env k t = Some (r, t') \<and>
    (r = Ret (m k \<noteq> None, m k) \<and> two_tree t' m D \<or> r = Jump \<and> two_waiting t' m D)"
proof -
  obtain mh mc where R: "two_rep is_btree t mh mc" "view mh mc = m" "marks mh = D" "hot_counted t mh" "evict_first env \<longrightarrow> unmarked mh"
    using two_treeE [OF assms] by blast
  have "\<exists>x. two_lookup (ll_ops flags e) env k t = Some x \<and> outcome is_btree no_free_page t mh mc (view mh mc) (view mh mc k \<noteq> None, view mh mc k) x"
    by (rule ll.two_lookup_ok [OF R(1) R(5) [rule_format]])
  from outcome_two_tree [OF this R(2-4)] show ?thesis using R(2) by simp
qed

theorem two_lookup_refines_witness:
  "\<exists>r t'. two_lookup (ll_ops no_cm no_env) quiet 5 (sample_two False (record_btree (fold_u64 5) [9])) = Some (r, t') \<and>
     (r = Ret (True, Some [9]) \<and> two_tree t' [5 \<mapsto> [9]] {} \<or> r = Jump \<and> two_waiting t' [5 \<mapsto> [9]] {})"
  using two_lookup_refines [OF sample_two_tree(1), of quiet no_cm no_env 5 False] by simp
















end
