(* ===== verification/FreeList.thy ===== *)
theory FreeList
  imports Prelude
begin

text \<open>
  The list of free buffer frames (storage/buffer-manager/FreeList.cpp), a stack linked through the headers of the frames, and
  the batch of freed frames of the page provider. A frame is an address, 0 is the null pointer. The operations are given
  twice: as one worker runs them alone (every compare-and-exchange then succeeds at once), and as threads that interleave
  at the granularity of one atomic action.
\<close>

section \<open>One worker\<close>

record FreeList =
  head :: u64
  counter :: u64
  next_free_bf :: "u64 \<Rightarrow> u64"

definition fl_push :: "u64 \<Rightarrow> FreeList \<Rightarrow> FreeList" where
  "fl_push bf l = l\<lparr>next_free_bf := (next_free_bf l)(bf := head l), head := bf, counter := counter l + 1\<rparr>"

definition fl_batchPush :: "u64 \<Rightarrow> u64 \<Rightarrow> nat \<Rightarrow> FreeList \<Rightarrow> FreeList" where
  "fl_batchPush batch_head batch_tail batch_counter l =
     l\<lparr>next_free_bf := (next_free_bf l)(batch_tail := head l), head := batch_head, counter := counter l + of_nat batch_counter\<rparr>"

definition fl_pop :: "FreeList \<Rightarrow> u64 jmu \<times> FreeList" where
  "fl_pop l =
     (let c_header = head l in
      if c_header = 0 then (Jump, l)
      else (Ret c_header, l\<lparr>head := next_free_bf l c_header, next_free_bf := (next_free_bf l)(c_header := 0), counter := counter l - 1\<rparr>))"

definition fl_tryPop :: "FreeList \<Rightarrow> u64 \<times> FreeList" where
  "fl_tryPop l = (case fl_pop l of (Jump, l) \<Rightarrow> (0, l) | (Ret bf, l) \<Rightarrow> (bf, l))"

text \<open>The batch of the page provider.\<close>

record FreedBfsBatch =
  freed_bfs_batch_head :: u64
  freed_bfs_batch_tail :: u64
  freed_bfs_counter :: nat

definition batch_reset :: FreedBfsBatch where
  "batch_reset = \<lparr>freed_bfs_batch_head = 0, freed_bfs_batch_tail = 0, freed_bfs_counter = 0\<rparr>"

definition batch_add :: "u64 \<Rightarrow> FreedBfsBatch \<times> FreeList \<Rightarrow> FreedBfsBatch \<times> FreeList" where
  "batch_add bf bl =
     (case bl of (b, l) \<Rightarrow>
        (b\<lparr>freed_bfs_batch_tail := (if freed_bfs_batch_head b = 0 then bf else freed_bfs_batch_tail b),
           freed_bfs_batch_head := bf, freed_bfs_counter := freed_bfs_counter b + 1\<rparr>,
         l\<lparr>next_free_bf := (next_free_bf l)(bf := freed_bfs_batch_head b)\<rparr>))"

definition batch_push :: "FreedBfsBatch \<times> FreeList \<Rightarrow> FreedBfsBatch \<times> FreeList" where
  "batch_push bl =
     (case bl of (b, l) \<Rightarrow> (batch_reset, fl_batchPush (freed_bfs_batch_head b) (freed_bfs_batch_tail b) (freed_bfs_counter b) l))"

section \<open>The list is a stack\<close>

primrec linked :: "(u64 \<Rightarrow> u64) \<Rightarrow> u64 \<Rightarrow> u64 list \<Rightarrow> u64 \<Rightarrow> bool" where
  "linked nx a [] z \<longleftrightarrow> a = z"
| "linked nx a (x # xs) z \<longleftrightarrow> a = x \<and> x \<noteq> 0 \<and> x \<notin> set xs \<and> linked nx (nx x) xs z"

definition fl_rep :: "FreeList \<Rightarrow> u64 list \<Rightarrow> bool" where
  "fl_rep l xs \<longleftrightarrow> linked (next_free_bf l) (head l) xs 0 \<and> counter l = of_nat (length xs)"

lemma linked_upd [simp]: "x \<notin> set xs \<Longrightarrow> linked (nx(x := y)) a xs z = linked nx a xs z"
  by (induction xs arbitrary: a) auto

lemma linked_distinct: "linked nx a xs z \<Longrightarrow> distinct xs \<and> 0 \<notin> set xs"
  by (induction xs arbitrary: a) auto

lemma linked_append: "linked nx a (xs @ ys) z \<longleftrightarrow> (\<exists>y. linked nx a xs y \<and> linked nx y ys z) \<and> set xs \<inter> set ys = {}"
  by (induction xs arbitrary: a) auto

lemma fl_push_rep: "fl_rep l xs \<Longrightarrow> bf \<noteq> 0 \<Longrightarrow> bf \<notin> set xs \<Longrightarrow> fl_rep (fl_push bf l) (bf # xs)"
  by (simp add: fl_rep_def fl_push_def)

lemma fl_pop_rep:
  assumes "fl_rep l xs"
  shows "case xs of [] \<Rightarrow> fl_pop l = (Jump, l) | x # ys \<Rightarrow> \<exists>l'. fl_pop l = (Ret x, l') \<and> fl_rep l' ys"
  using assms by (cases xs) (auto simp: fl_rep_def fl_pop_def Let_def)

text \<open>A batch is a list of its own, from its head to its tail.\<close>

definition batch_rep :: "FreedBfsBatch \<times> FreeList \<Rightarrow> u64 list \<Rightarrow> bool" where
  "batch_rep bl bs \<longleftrightarrow> (case bl of (b, l) \<Rightarrow> linked (next_free_bf l) (freed_bfs_batch_head b) bs 0 \<and>
     (bs \<noteq> [] \<longrightarrow> freed_bfs_batch_tail b = last bs) \<and> freed_bfs_counter b = length bs)"

lemma batch_add_rep:
  assumes "batch_rep (b, l) bs" "fl_rep l xs" "bf \<noteq> 0" "bf \<notin> set bs" "bf \<notin> set xs"
  shows "batch_rep (batch_add bf (b, l)) (bf # bs) \<and> fl_rep (snd (batch_add bf (b, l))) xs"
  using assms by (cases bs) (auto simp: batch_rep_def batch_add_def fl_rep_def)

lemma batch_push_rep:
  assumes "batch_rep (b, l) bs" "fl_rep l xs" "bs \<noteq> []" "set bs \<inter> set xs = {}"
  shows "fl_rep (snd (batch_push (b, l))) (bs @ xs) \<and> fst (batch_push (b, l)) = batch_reset"
proof -
  obtain ys t where bs: "bs = ys @ [t]" using assms(3) by (metis rev_exhaust)
  have "linked (next_free_bf l) (freed_bfs_batch_head b) (ys @ [t]) 0" "freed_bfs_batch_tail b = t"
    using assms(1) bs by (auto simp: batch_rep_def)
  moreover have "t \<notin> set ys" using calculation(1) by (auto simp: linked_append)
  ultimately show ?thesis using assms bs
    by (auto simp: batch_push_def fl_batchPush_def fl_rep_def batch_rep_def linked_append)
qed

section \<open>Threads\<close>

text \<open>
  The program counter of a thread inside \<open>pop\<close>, \<open>tryPop()\<close> and \<open>tryPop(lock)\<close>, which only differ in what an empty list and a
  failed exchange lead to, and inside \<open>push\<close> and \<open>batchPush\<close>: one constructor for each access to the shared memory.
\<close>

datatype pop_kind = Pop | TryPop | TryPopLock

datatype fl_pc =
    Idle
  | PopLoad pop_kind
  | PopNext pop_kind u64
  | PopCAS pop_kind u64 u64
  | PopClear u64
  | PopCount u64
  | Popped u64
  | Jumped
  | PushLoad u64 u64 nat
  | PushStore u64 u64 nat u64
  | PushCAS u64 u64 nat
  | PushCount nat
  | Pushed

definition pop_empty :: "pop_kind \<Rightarrow> fl_pc" where
  "pop_empty k = (if k = TryPop then Popped 0 else Jumped)"

definition pop_failed :: "pop_kind \<Rightarrow> u64 \<Rightarrow> fl_pc" where
  "pop_failed k c_header =
     (case k of TryPopLock \<Rightarrow> Jumped | _ \<Rightarrow> if c_header = 0 then pop_empty k else PopLoad k)"

fun fl_act :: "fl_pc \<Rightarrow> FreeList \<Rightarrow> (fl_pc \<times> FreeList) option" where
  "fl_act (PopLoad k) l = Some (if head l = 0 then pop_empty k else PopNext k (head l), l)"
| "fl_act (PopNext k c_header) l = Some (PopCAS k c_header (next_free_bf l c_header), l)"
| "fl_act (PopCAS k c_header nxt) l =
     (if head l = c_header then Some (PopClear c_header, l\<lparr>head := nxt\<rparr>) else Some (pop_failed k (head l), l))"
| "fl_act (PopClear free_bf) l = Some (PopCount free_bf, l\<lparr>next_free_bf := (next_free_bf l)(free_bf := 0)\<rparr>)"
| "fl_act (PopCount free_bf) l = Some (Popped free_bf, l\<lparr>counter := counter l - 1\<rparr>)"
| "fl_act (PushLoad h t n) l = Some (PushStore h t n (head l), l)"
| "fl_act (PushStore h t n old) l = Some (PushCAS h t n, l\<lparr>next_free_bf := (next_free_bf l)(t := old)\<rparr>)"
| "fl_act (PushCAS h t n) l =
     (if head l = next_free_bf l t then Some (PushCount n, l\<lparr>head := h\<rparr>)
      else Some (PushCAS h t n, l\<lparr>next_free_bf := (next_free_bf l)(t := head l)\<rparr>))"
| "fl_act (PushCount n) l = Some (Pushed, l\<lparr>counter := counter l + of_nat n\<rparr>)"
| "fl_act pc l = None"

text \<open>A thread that is not interrupted runs to the end of its call, with the result of the operation above.\<close>

primrec fl_run :: "nat \<Rightarrow> fl_pc \<Rightarrow> FreeList \<Rightarrow> fl_pc \<times> FreeList" where
  "fl_run 0 pc l = (pc, l)"
| "fl_run (Suc n) pc l = (case fl_act pc l of None \<Rightarrow> (pc, l) | Some (pc', l') \<Rightarrow> fl_run n pc' l')"

lemma fl_run_pop:
  "fl_run 5 (PopLoad k) l =
     (case fl_pop l of (Jump, l') \<Rightarrow> (pop_empty k, l') | (Ret bf, l') \<Rightarrow> (Popped bf, l'))"
  by (simp add: eval_nat_numeral fl_pop_def pop_empty_def Let_def)

lemma fl_run_push: "fl_run 4 (PushLoad h t n) l = (Pushed, fl_batchPush h t n l)"
  by (simp add: eval_nat_numeral fl_batchPush_def)

text \<open>
  Any number of threads. A thread that is outside every call may pop; one that has popped a frame may push it back, when
  the relation allows pushes.
\<close>

record fl_sys =
  flist :: FreeList
  pcs :: "nat \<Rightarrow> fl_pc"

inductive fl_step :: "bool \<Rightarrow> fl_sys \<Rightarrow> fl_sys \<Rightarrow> bool" for pushes :: bool where
  act: "fl_act (pcs s i) (flist s) = Some (pc', l') \<Longrightarrow> fl_step pushes s (s\<lparr>flist := l', pcs := (pcs s)(i := pc')\<rparr>)"
| call_pop: "pcs s i \<in> {Idle, Jumped, Pushed, Popped 0} \<Longrightarrow> fl_step pushes s (s\<lparr>pcs := (pcs s)(i := PopLoad k)\<rparr>)"
| call_push: "pushes \<Longrightarrow> pcs s i = Popped bf \<Longrightarrow> bf \<noteq> 0 \<Longrightarrow> fl_step pushes s (s\<lparr>pcs := (pcs s)(i := PushLoad bf bf 1)\<rparr>)"

primrec fl_links :: "u64 list \<Rightarrow> u64 \<Rightarrow> u64" where
  "fl_links [] = (\<lambda>_. 0)"
| "fl_links (x # xs) = (fl_links xs)(x := (if xs = [] then 0 else hd xs))"

definition fl_init :: "u64 list \<Rightarrow> fl_sys" where
  "fl_init xs =
     \<lparr>flist = \<lparr>head = (if xs = [] then 0 else hd xs), counter = of_nat (length xs), next_free_bf = fl_links xs\<rparr>, pcs = \<lambda>_. Idle\<rparr>"

fun holding :: "fl_pc \<Rightarrow> u64 option" where
  "holding (PopClear c) = Some c"
| "holding (PopCount c) = Some c"
| "holding (Popped c) = (if c = 0 then None else Some c)"
| "holding pc = None"

fun seen :: "FreeList \<Rightarrow> fl_pc \<Rightarrow> u64 set \<Rightarrow> bool" where
  "seen l (PopNext k c) C \<longleftrightarrow> c \<in> C"
| "seen l (PopCAS k c n) C \<longleftrightarrow> c \<in> C \<and> (head l = c \<longrightarrow> n = next_free_bf l c)"
| "seen l (PushLoad h t n) C \<longleftrightarrow> False"
| "seen l (PushStore h t n old) C \<longleftrightarrow> False"
| "seen l (PushCAS h t n) C \<longleftrightarrow> False"
| "seen l (PushCount n) C \<longleftrightarrow> False"
| "seen l pc C \<longleftrightarrow> True"

text \<open>Without pushes, the frames split into those that were handed out and those still linked from the head.\<close>

definition fl_inv :: "u64 list \<Rightarrow> u64 list \<Rightarrow> fl_sys \<Rightarrow> bool" where
  "fl_inv out rest s \<longleftrightarrow>
     distinct (out @ rest) \<and> 0 \<notin> set out \<and> linked (next_free_bf (flist s)) (head (flist s)) rest 0 \<and>
     (\<forall>i c. holding (pcs s i) = Some c \<longrightarrow> c \<in> set out \<and> (\<forall>j. holding (pcs s j) = Some c \<longrightarrow> j = i)) \<and>
     (\<forall>i. seen (flist s) (pcs s i) (set (out @ take 1 rest)))"

lemma linked_head: "linked nx a xs 0 \<Longrightarrow> (a = 0 \<longleftrightarrow> xs = []) \<and> (xs \<noteq> [] \<longrightarrow> a = hd xs)"
  by (cases xs) auto

lemma fl_inv_local:
  assumes "fl_inv out rest s" "holding pc = None" "seen (flist s) pc (set (out @ take 1 rest))"
  shows "fl_inv out rest (s\<lparr>pcs := (pcs s)(i := pc)\<rparr>)"
  using assms by (auto simp: fl_inv_def)

lemma fl_inv_hold:
  assumes "fl_inv out rest s" "holding pc = holding (pcs s i)" "seen (flist s) pc (set (out @ take 1 rest))"
    "\<forall>pc. seen l' pc (set (out @ take 1 rest)) = seen (flist s) pc (set (out @ take 1 rest))"
    "linked (next_free_bf l') (head l') rest 0"
  shows "fl_inv out rest (s\<lparr>flist := l', pcs := (pcs s)(i := pc)\<rparr>)"
  using assms by (fastforce simp: fl_inv_def split: if_splits)

lemma fl_inv_cas:
  assumes inv: "fl_inv out rest s" and pc: "pcs s i = PopCAS k c n" and h: "head (flist s) = c"
  shows "fl_inv (out @ [c]) (tl rest) (s\<lparr>flist := (flist s)\<lparr>head := n\<rparr>, pcs := (pcs s)(i := PopClear c)\<rparr>)"
proof -
  have nx: "n = next_free_bf (flist s) c" and c: "c \<in> set (out @ take 1 rest)"
    using inv pc h by (auto simp: fl_inv_def dest!: spec [of _ i])
  have l: "linked (next_free_bf (flist s)) c rest 0" and d: "distinct (out @ rest)" "0 \<notin> set out"
    using inv h by (auto simp: fl_inv_def)
  obtain r where r: "rest = c # r" using l d c by (cases rest) auto
  have ln: "linked (next_free_bf (flist s)) n r 0" "c \<noteq> 0" using l r nx by auto
  have sn: "seen ((flist s)\<lparr>head := n\<rparr>) (pcs s j) (set ((out @ [c]) @ take 1 r))" for j
  proof -
    have "seen (flist s) (pcs s j) (set (out @ [c]))" using inv r by (auto simp: fl_inv_def)
    moreover have "n \<notin> set (out @ [c])" using linked_head [OF ln(1)] d r ln(2) by (cases r) auto
    ultimately show ?thesis by (cases "pcs s j") auto
  qed
  have "c \<notin> set out" using d r by auto
  then show ?thesis using inv ln d r sn by (auto simp: fl_inv_def)
qed

lemma seen_clear:
  assumes "linked nx (head l) rest 0" "c \<notin> set rest" "c \<noteq> 0"
  shows "seen (l\<lparr>next_free_bf := (next_free_bf l)(c := v)\<rparr>) pc C = seen l pc C"
  using assms linked_head [OF assms(1)] by (cases pc; cases rest) auto

lemma fl_inv_holding: "fl_inv out rest s \<Longrightarrow> holding (pcs s i) = Some c \<Longrightarrow> c \<in> set out \<and> c \<noteq> 0 \<and> c \<notin> set rest"
  by (force simp: fl_inv_def)

lemma fl_inv_act:
  assumes inv: "fl_inv out rest s" and "fl_act (pcs s i) (flist s) = Some (pc', l')"
  shows "\<exists>out' rest'. out' @ rest' = out @ rest \<and> fl_inv out' rest' (s\<lparr>flist := l', pcs := (pcs s)(i := pc')\<rparr>)"
proof -
  have l: "linked (next_free_bf (flist s)) (head (flist s)) rest 0" using inv by (simp add: fl_inv_def)
  have sn: "seen (flist s) (pcs s i) (set (out @ take 1 rest))" using inv by (simp add: fl_inv_def)
  show ?thesis
  proof (cases "pcs s i")
    case (PopLoad k)
    have "head (flist s) \<noteq> 0 \<Longrightarrow> head (flist s) \<in> set (take 1 rest)" using l by (cases rest) auto
    then show ?thesis using assms PopLoad fl_inv_local [OF inv, of pc' i]
      by (intro exI [of _ out] exI [of _ rest]) (auto simp: pop_empty_def split: if_splits)
  next
    case (PopNext k c)
    then show ?thesis using assms sn fl_inv_local [OF inv, of pc' i]
      by (intro exI [of _ out] exI [of _ rest]) auto
  next
    case (PopCAS k c n)
    show ?thesis
    proof (cases "head (flist s) = c")
      case True
      have "c \<in> set (out @ take 1 rest)" using sn PopCAS by auto
      then have "rest \<noteq> []" "c = hd rest"
        using l True inv linked_head [OF l] by (auto simp: fl_inv_def)
      then show ?thesis using fl_inv_cas [OF inv PopCAS True] assms(2) PopCAS True
        by (intro exI [of _ "out @ [c]"] exI [of _ "tl rest"]) auto
    next
      case False
      then show ?thesis using assms PopCAS fl_inv_local [OF inv, of pc' i]
        by (intro exI [of _ out] exI [of _ rest]) (auto simp: pop_failed_def pop_empty_def split: if_splits pop_kind.splits)
    qed
  next
    case (PopClear c)
    then have "c \<notin> set rest" "c \<noteq> 0" using fl_inv_holding [OF inv, of i c] by auto
    then show ?thesis using assms PopClear l seen_clear [OF l]
      by (intro exI [of _ out] exI [of _ rest]) (auto intro!: fl_inv_hold [OF inv])
  next
    case (PopCount c)
    then have "c \<noteq> 0" using fl_inv_holding [OF inv, of i c] by auto
    moreover have "seen ((flist s)\<lparr>counter := x\<rparr>) pc C = seen (flist s) pc C" for x pc C by (cases pc) auto
    ultimately show ?thesis using assms PopCount l
      by (intro exI [of _ out] exI [of _ rest]) (auto intro!: fl_inv_hold [OF inv])
  qed (use assms sn in auto)
qed

lemma fl_inv_step:
  assumes "fl_step False s s'" "fl_inv out rest s"
  shows "\<exists>out' rest'. out' @ rest' = out @ rest \<and> fl_inv out' rest' s'"
  using assms
proof cases
  case (act i pc' l')
  then show ?thesis using fl_inv_act [OF assms(2)] by blast
next
  case (call_pop i k)
  then show ?thesis using fl_inv_local [OF assms(2), of "PopLoad k" i] by auto
qed simp

lemma fl_links_linked: "distinct xs \<Longrightarrow> 0 \<notin> set xs \<Longrightarrow> linked (fl_links xs) (if xs = [] then 0 else hd xs) xs 0"
proof (induction xs)
  case (Cons x xs)
  then have "linked (fl_links xs) (if xs = [] then 0 else hd xs) xs 0" by simp
  then show ?case using Cons.prems by (auto simp: fun_upd_def [symmetric])
qed simp

lemma fl_inv_init: "distinct xs \<Longrightarrow> 0 \<notin> set xs \<Longrightarrow> fl_inv [] xs (fl_init xs)"
  using fl_links_linked [of xs] by (simp add: fl_inv_def fl_init_def)

lemma fl_inv_reach:
  assumes "(fl_step False)\<^sup>*\<^sup>* (fl_init xs) s" "distinct xs" "0 \<notin> set xs"
  shows "\<exists>out rest. out @ rest = xs \<and> fl_inv out rest s"
  using assms
proof (induction rule: rtranclp_induct)
  case base
  then show ?case using fl_inv_init by fastforce
next
  case (step s s')
  then show ?case by (metis fl_inv_step)
qed

lemma fl_alone:
  "fl_run n (pcs s i) (flist s) = (pc, l) \<Longrightarrow> (fl_step b)\<^sup>*\<^sup>* s (s\<lparr>flist := l, pcs := (pcs s)(i := pc)\<rparr>)"
proof (induction n arbitrary: s)
  case (Suc n)
  show ?case
  proof (cases "fl_act (pcs s i) (flist s)")
    case (Some r)
    obtain pc' l' where r: "r = (pc', l')" by fastforce
    have "fl_step b s (s\<lparr>flist := l', pcs := (pcs s)(i := pc')\<rparr>)" using Some r by (auto intro: fl_step.act)
    moreover have "(fl_step b)\<^sup>*\<^sup>* (s\<lparr>flist := l', pcs := (pcs s)(i := pc')\<rparr>) (s\<lparr>flist := l, pcs := (pcs s)(i := pc)\<rparr>)"
      using Suc.IH [of "s\<lparr>flist := l', pcs := (pcs s)(i := pc')\<rparr>"] Suc.prems Some r
      by (simp add: fun_upd_same del: fun_upd_apply)
    ultimately show ?thesis by (rule converse_rtranclp_into_rtranclp)
  qed (use Suc.prems in \<open>auto simp del: fun_upd_apply\<close>)
qed (auto simp del: fun_upd_apply)

lemma fl_run_numeral [simp]:
  "fl_run (numeral k) pc l = (case fl_act pc l of None \<Rightarrow> (pc, l) | Some (pc', l') \<Rightarrow> fl_run (pred_numeral k) pc' l')"
  by (simp add: numeral_eq_Suc)

text \<open>A schedule lets a thread start a call or take a number of actions.\<close>

datatype fl_event = StartPop nat pop_kind | StartPush nat | Run nat nat

primrec fl_turn :: "fl_sys \<Rightarrow> fl_event \<Rightarrow> fl_sys" where
  "fl_turn s (StartPop i k) =
     (if pcs s i \<in> {Idle, Jumped, Pushed, Popped 0} then s\<lparr>pcs := (pcs s)(i := PopLoad k)\<rparr> else s)"
| "fl_turn s (StartPush i) =
     (case pcs s i of Popped bf \<Rightarrow> if bf = 0 then s else s\<lparr>pcs := (pcs s)(i := PushLoad bf bf 1)\<rparr> | _ \<Rightarrow> s)"
| "fl_turn s (Run i n) = (case fl_run n (pcs s i) (flist s) of (pc, l) \<Rightarrow> s\<lparr>flist := l, pcs := (pcs s)(i := pc)\<rparr>)"

lemma fl_turn_step: "pushes \<or> (\<forall>i. t \<noteq> StartPush i) \<Longrightarrow> (fl_step pushes)\<^sup>*\<^sup>* s (fl_turn s t)"
proof (cases t)
  case (StartPush i)
  then show "pushes \<or> (\<forall>i. t \<noteq> StartPush i) \<Longrightarrow> ?thesis" using fl_step.call_push [of pushes s i] by (auto split: fl_pc.split)
next
  case (Run i n)
  then show ?thesis using fl_alone [of n s i] by (auto split: prod.split)
qed (auto intro: fl_step.call_pop)

lemma fl_schedule: "pushes \<or> (\<forall>i. StartPush i \<notin> set ts) \<Longrightarrow> (fl_step pushes)\<^sup>*\<^sup>* s (foldl fl_turn s ts)"
proof (induction ts arbitrary: s)
  case (Cons t ts)
  then have "(fl_step pushes)\<^sup>*\<^sup>* s (fl_turn s t)" by (intro fl_turn_step) auto
  then show ?case using Cons by (auto intro: rtranclp_trans)
qed simp

text \<open>C39. The free list hands every frame to one thread as long as frames are only popped: whatever the interleaving of \<open>pop\<close>,
  \<open>tryPop()\<close> and \<open>tryPop(lock)\<close>, two threads never hold the same frame. With pushes it does not: \<open>pop\<close> reads the successor of
  the head before it exchanges the head, and when the head was popped and pushed back in between (the ABA problem) the
  exchange installs a successor that another thread already owns, which is then handed out a second time.\<close>

theorem free_list_exclusive_until_aba:
  "(distinct xs \<and> 0 \<notin> set xs \<and> (fl_step False)\<^sup>*\<^sup>* (fl_init xs) s \<and> i \<noteq> j \<longrightarrow>
      pcs s i = Popped a \<and> pcs s j = Popped b \<and> a \<noteq> 0 \<longrightarrow> a \<noteq> b) \<and>
   (\<exists>s'. (fl_step True)\<^sup>*\<^sup>* (fl_init [1, 2, 3]) s' \<and> pcs s' 1 = Popped 2 \<and> pcs s' 2 = Popped 2)"
proof (intro conjI impI)
  assume *: "distinct xs \<and> 0 \<notin> set xs \<and> (fl_step False)\<^sup>*\<^sup>* (fl_init xs) s \<and> i \<noteq> j"
    "pcs s i = Popped a \<and> pcs s j = Popped b \<and> a \<noteq> 0"
  then obtain out rest where "fl_inv out rest s" using fl_inv_reach by blast
  then show "a \<noteq> b" using * by (fastforce simp: fl_inv_def)
next
  let ?s = "foldl fl_turn (fl_init [1, 2, 3])
    [StartPop 0 Pop, Run 0 2, StartPop 1 Pop, Run 1 5, StartPop 2 Pop, Run 2 5, StartPush 1, Run 1 4, Run 0 3, StartPop 1 Pop, Run 1 5]"
  have "pcs ?s 1 = Popped 2 \<and> pcs ?s 2 = Popped 2"
    by code_simp
  then show "\<exists>s'. (fl_step True)\<^sup>*\<^sup>* (fl_init [1, 2, 3]) s' \<and> pcs s' 1 = Popped 2 \<and> pcs s' 2 = Popped 2"
    using fl_schedule [of True] by blast
qed

theorem free_list_exclusive_until_aba_witness:
  "let s = foldl fl_turn (fl_init [7, 9]) [StartPop 0 Pop, StartPop 1 TryPop, Run 0 2, Run 1 5, Run 0 6] in
   (fl_step False)\<^sup>*\<^sup>* (fl_init [7, 9]) s \<and> pcs s 0 = Popped 9 \<and> pcs s 1 = Popped 7 \<and> (9 :: u64) \<noteq> 7"
proof -
  let ?ts = "[StartPop 0 Pop, StartPop 1 TryPop, Run 0 2, Run 1 5, Run 0 6]"
  let ?s = "foldl fl_turn (fl_init [7, 9]) ?ts"
  have r: "(fl_step False)\<^sup>*\<^sup>* (fl_init [7, 9]) ?s" by (rule fl_schedule) simp
  have p: "pcs ?s 0 = Popped 9 \<and> pcs ?s 1 = Popped 7"
    by code_simp
  have d: "distinct [7, 9 :: u64]" "0 \<notin> set [7, 9 :: u64]" "(0 :: nat) \<noteq> 1" "(9 :: u64) \<noteq> 0" by simp_all
  then have "(9 :: u64) \<noteq> 7" using r p free_list_exclusive_until_aba [of "[7, 9]" ?s 0 1 9 7] by blast
  then show ?thesis using r p unfolding Let_def by blast
qed

end
