(* ===== verification/Swip.thy ===== *)
theory Swip
  imports Prelude
begin

text \<open>
  Swips (storage/buffer-manager/Swip.hpp): a 64-bit word that is the address of a buffer frame, such an address with the
  cooling bit, or the number of an evicted page with the evicted bit.
\<close>

unbundle bit_operations_syntax

section \<open>Definitions\<close>

definition evicted_bit :: u64 where
  "evicted_bit = push_bit 63 1"

definition evicted_mask :: u64 where
  "evicted_mask = NOT (push_bit 63 1)"

definition cool_bit :: u64 where
  "cool_bit = push_bit 62 1"

definition hot_mask :: u64 where
  "hot_mask = NOT (push_bit 62 3)"

definition isHOT :: "u64 \<Rightarrow> bool" where
  "isHOT s \<longleftrightarrow> s AND (evicted_bit OR cool_bit) = 0"

definition isCOOL :: "u64 \<Rightarrow> bool" where
  "isCOOL s \<longleftrightarrow> s AND cool_bit \<noteq> 0"

definition isEVICTED :: "u64 \<Rightarrow> bool" where
  "isEVICTED s \<longleftrightarrow> s AND evicted_bit \<noteq> 0"

definition asPageID :: "u64 \<Rightarrow> u64" where
  "asPageID s = s AND evicted_mask"

definition bfPtrAsHot :: "u64 \<Rightarrow> u64" where
  "bfPtrAsHot s = s AND hot_mask"

definition swip_warm :: "u64 \<Rightarrow> u64" where
  "swip_warm s = s AND NOT cool_bit"

definition swip_cool :: "u64 \<Rightarrow> u64" where
  "swip_cool s = s OR cool_bit"

definition swip_evict :: "u64 \<Rightarrow> u64" where
  "swip_evict pid = pid OR evicted_bit"

section \<open>Decoding\<close>

text \<open>Addresses and page numbers below \<open>2 ^ 62\<close> leave the two tag bits alone.\<close>

definition untagged :: "u64 \<Rightarrow> bool" where
  "untagged x \<longleftrightarrow> x < 2 ^ 62"

lemma untagged_bits: "untagged x \<Longrightarrow> \<not> bit x 62 \<and> \<not> bit x 63"
proof -
  assume "untagged x"
  then have "unat x < 2 ^ 62" by (simp add: untagged_def word_less_nat_alt)
  then have "take_bit 62 (unat x) = unat x" by (rule take_bit_nat_eq_self)
  then have "\<not> bit (unat x) n" if "62 \<le> n" for n using that by (metis bit_take_bit_iff not_less)
  then show ?thesis by (simp add: bit_unsigned_iff)
qed

lemma and_push_bit_eq_0: "(s :: u64) AND push_bit n 1 = 0 \<longleftrightarrow> \<not> bit s n"
  by (simp only: push_bit_of_1 and_exp_eq_0_iff_not_bit)

lemma swip_bits:
  "isEVICTED s \<longleftrightarrow> bit s 63" "isCOOL s \<longleftrightarrow> bit s 62" "isHOT s \<longleftrightarrow> \<not> bit s 62 \<and> \<not> bit s 63"
proof -
  show e: "isEVICTED s \<longleftrightarrow> bit s 63" "isCOOL s \<longleftrightarrow> bit s 62"
    by (simp_all only: isEVICTED_def isCOOL_def evicted_bit_def cool_bit_def and_push_bit_eq_0 not_not)
  have "s AND (evicted_bit OR cool_bit) = 0 \<longleftrightarrow> s AND evicted_bit = 0 \<and> s AND cool_bit = 0"
    by (simp only: bit.conj_disj_distrib or_eq_0_iff)
  then show "isHOT s \<longleftrightarrow> \<not> bit s 62 \<and> \<not> bit s 63"
    using e by (auto simp: isHOT_def isEVICTED_def isCOOL_def)
qed

lemma bit_swip:
  "bit (swip_cool s) n = (bit s n \<or> n = 62)" "bit (swip_evict s) n = (bit s n \<or> n = 63)"
  "bit (swip_warm s) n = (bit s n \<and> n \<noteq> 62)" "bit (asPageID s) n = (bit s n \<and> n \<noteq> 63)"
  "bit (bfPtrAsHot s) n = (bit s n \<and> n \<noteq> 62 \<and> n \<noteq> 63)"
proof -
  have b: "bit (push_bit 62 1 :: u64) n = (n = 62)" "bit (push_bit 63 1 :: u64) n = (n = 63)" for n
    by (simp_all only: bit_push_bit_iff bit_1_iff) auto
  have b3: "bit (push_bit 62 3 :: u64) n = (n = 62 \<or> n = 63)" for n
  proof -
    have "(3 :: u64) = mask 2" by (simp add: mask_eq_exp_minus_1)
    then show ?thesis by (simp only: bit_push_bit_iff bit_mask_iff) auto
  qed
  have l: "bit s n \<Longrightarrow> n < 64" using bit_imp_le_length [of s n] by simp
  show "bit (swip_cool s) n = (bit s n \<or> n = 62)" "bit (swip_evict s) n = (bit s n \<or> n = 63)"
    by (simp_all only: swip_cool_def swip_evict_def cool_bit_def evicted_bit_def bit_or_iff b)
  show "bit (swip_warm s) n = (bit s n \<and> n \<noteq> 62)" "bit (asPageID s) n = (bit s n \<and> n \<noteq> 63)"
    "bit (bfPtrAsHot s) n = (bit s n \<and> n \<noteq> 62 \<and> n \<noteq> 63)"
    using l by (simp_all only: swip_warm_def asPageID_def bfPtrAsHot_def cool_bit_def evicted_mask_def hot_mask_def bit_and_iff bit_not_iff b b3) auto
qed

text \<open>What a swip stands for, in the order in which \<open>resolveSwip\<close> tests it.\<close>

datatype swip_view = Hot u64 | Cool u64 | Evicted u64

definition swip_view :: "u64 \<Rightarrow> swip_view" where
  "swip_view s = (if isHOT s then Hot s else if isCOOL s then Cool (bfPtrAsHot s) else Evicted (asPageID s))"

lemma swip_view_simps:
  assumes "untagged x"
  shows "swip_view x = Hot x" "swip_view (swip_cool x) = Cool x" "swip_view (swip_evict x) = Evicted x"
    "swip_warm (swip_cool x) = x" "isEVICTED (swip_evict x)" "\<not> isEVICTED x" "\<not> isEVICTED (swip_cool x)"
proof -
  note u = untagged_bits [OF assms]
  have c: "bfPtrAsHot (swip_cool x) = x" "asPageID (swip_evict x) = x" "swip_warm (swip_cool x) = x"
    by (rule bit_word_eqI; use u in \<open>auto simp: bit_swip\<close>)+
  then show "swip_view x = Hot x" "swip_view (swip_cool x) = Cool x" "swip_view (swip_evict x) = Evicted x"
    "swip_warm (swip_cool x) = x" "isEVICTED (swip_evict x)" "\<not> isEVICTED x" "\<not> isEVICTED (swip_cool x)"
    using u by (simp_all add: swip_view_def swip_bits bit_swip)
qed

end
