(* ===== verification/Partition.thy ===== *)
theory Partition
  imports Swip "HOL-Library.Log_Nat"
begin

text \<open>
  The parts of a buffer partition (storage/buffer-manager/Partition.hpp, .cpp): the chained hash table of the pages that
  are being read, and the numbers of the pages on the device.
\<close>

unbundle bit_operations_syntax

section \<open>The table of I/O frames\<close>

text \<open>
  A bucket is the chain of its entries. A handler, the address of the pointer that leads to an entry, is the bucket and the
  position in its chain.
\<close>

record 'f HashTable =
  ht_mask :: u64
  entries :: "u64 \<Rightarrow> (u64 \<times> 'f) list"

definition getBitsNeeded :: "nat \<Rightarrow> nat" where
  "getBitsNeeded input = max (floorlog 2 input) 1"

definition new_HashTable :: "nat \<Rightarrow> 'f HashTable" where
  "new_HashTable sizeInBits = \<lparr>ht_mask = push_bit sizeInBits 1 - 1, entries = \<lambda>_. []\<rparr>"

definition hashKey :: "u64 \<Rightarrow> u64" where
  "hashKey k =
     (let m = 0xc6a4a7935bd1e995;
          h = 0x8445d61a4e774912 XOR (8 * m);
          k = k * m;
          k = k XOR drop_bit 47 k;
          k = k * m;
          h = h XOR k;
          h = h * m;
          h = h XOR drop_bit 47 h;
          h = h * m;
          h = h XOR drop_bit 47 h
      in h)"

definition ht_pos :: "'f HashTable \<Rightarrow> u64 \<Rightarrow> u64" where
  "ht_pos t key = hashKey key AND ht_mask t"

definition ht_insert :: "u64 \<Rightarrow> 'f \<Rightarrow> 'f HashTable \<Rightarrow> 'f HashTable" where
  "ht_insert key value t =
     (let pos = ht_pos t key in t\<lparr>entries := (entries t)(pos := (key, value) # entries t pos)\<rparr>)"

fun chain_lookup :: "u64 \<Rightarrow> (u64 \<times> 'f) list \<Rightarrow> nat \<Rightarrow> nat option" where
  "chain_lookup key [] e_ptr = None"
| "chain_lookup key (e # es) e_ptr = (if fst e = key then Some e_ptr else chain_lookup key es (e_ptr + 1))"

definition ht_lookup :: "'f HashTable \<Rightarrow> u64 \<Rightarrow> (u64 \<times> nat) option" where
  "ht_lookup t key =
     (let pos = ht_pos t key in
      case chain_lookup key (entries t pos) 0 of None \<Rightarrow> None | Some e_ptr \<Rightarrow> Some (pos, e_ptr))"

definition ht_frame :: "'f HashTable \<Rightarrow> u64 \<times> nat \<Rightarrow> 'f" where
  "ht_frame t handler = snd (entries t (fst handler) ! snd handler)"

definition ht_remove :: "u64 \<times> nat \<Rightarrow> 'f HashTable \<Rightarrow> 'f HashTable" where
  "ht_remove handler t =
     (case handler of (pos, e_ptr) \<Rightarrow>
        t\<lparr>entries := (entries t)(pos := take e_ptr (entries t pos) @ drop (e_ptr + 1) (entries t pos))\<rparr>)"

text \<open>\<open>remove\<close> of a key that is not there dereferences the null handler.\<close>

definition ht_remove_key :: "u64 \<Rightarrow> 'f HashTable \<Rightarrow> 'f HashTable option" where
  "ht_remove_key key t = map_option (\<lambda>handler. ht_remove handler t) (ht_lookup t key)"

fun chain_has :: "u64 \<Rightarrow> (u64 \<times> 'f) list \<Rightarrow> bool" where
  "chain_has key [] = False"
| "chain_has key (e # es) = (if fst e = key then True else chain_has key es)"

definition ht_has :: "u64 \<Rightarrow> 'f HashTable \<Rightarrow> bool" where
  "ht_has key t = chain_has key (entries t (ht_pos t key))"

text \<open>Assignments through the reference to the I/O frame of an entry.\<close>

definition ht_assign :: "u64 \<times> nat \<Rightarrow> 'f \<Rightarrow> 'f HashTable \<Rightarrow> 'f HashTable" where
  "ht_assign handler value t =
     (case handler of (pos, e_ptr) \<Rightarrow>
        t\<lparr>entries := (entries t)(pos := (entries t pos)[e_ptr := (fst (entries t pos ! e_ptr), value)])\<rparr>)"

section \<open>The contract of a table\<close>

text \<open>
  What the buffer manager relies on: a partial map with insertion of an absent key, assignment to a present one and
  removal of a present one.
\<close>

locale io_table =
  fixes get :: "'t \<Rightarrow> 'k \<Rightarrow> 'f option"
    and ins :: "'k \<Rightarrow> 'f \<Rightarrow> 't \<Rightarrow> 't"
    and upd :: "'k \<Rightarrow> 'f \<Rightarrow> 't \<Rightarrow> 't"
    and del :: "'k \<Rightarrow> 't \<Rightarrow> 't"
    and ok :: "'t \<Rightarrow> bool"
  assumes ins_law: "ok t \<Longrightarrow> get t k = None \<Longrightarrow> ok (ins k f t) \<and> get (ins k f t) = (get t)(k \<mapsto> f)"
    and upd_law: "ok t \<Longrightarrow> get t k \<noteq> None \<Longrightarrow> ok (upd k f t) \<and> get (upd k f t) = (get t)(k \<mapsto> f)"
    and del_law: "ok t \<Longrightarrow> get t k \<noteq> None \<Longrightarrow> ok (del k t) \<and> get (del k t) = (get t)(k := None)"
begin

lemma ins_upd_del:
  assumes "ok t" "get t k = None"
  shows "ok (del k (upd k g (ins k f t))) \<and> get (del k (upd k g (ins k f t))) = get t"
proof -
  have 1: "ok (ins k f t)" "get (ins k f t) = (get t)(k \<mapsto> f)" using ins_law [OF assms] by auto
  have 2: "ok (upd k g (ins k f t))" "get (upd k g (ins k f t)) = (get t)(k \<mapsto> g)"
    using upd_law [OF 1(1), of k g] 1(2) by auto
  show ?thesis using del_law [OF 2(1), of k] 2(2) assms(2) by auto
qed

end

section \<open>The hash table satisfies it\<close>

definition ht_get :: "'f HashTable \<Rightarrow> u64 \<Rightarrow> 'f option" where
  "ht_get t key = map_option (ht_frame t) (ht_lookup t key)"

definition ht_update :: "u64 \<Rightarrow> 'f \<Rightarrow> 'f HashTable \<Rightarrow> 'f HashTable" where
  "ht_update key value t = (case ht_lookup t key of None \<Rightarrow> t | Some handler \<Rightarrow> ht_assign handler value t)"

definition ht_delete :: "u64 \<Rightarrow> 'f HashTable \<Rightarrow> 'f HashTable" where
  "ht_delete key t = (case ht_remove_key key t of None \<Rightarrow> t | Some t' \<Rightarrow> t')"

definition ht_ok :: "'f HashTable \<Rightarrow> bool" where
  "ht_ok t \<longleftrightarrow> (\<forall>pos. distinct (map fst (entries t pos)))"

lemma chain_lookup_shift: "chain_lookup k es n = map_option (\<lambda>i. n + i) (chain_lookup k es 0)"
proof (induction es arbitrary: n)
  case (Cons e es)
  have "chain_lookup k es (n + 1) = map_option (\<lambda>i. n + 1 + i) (chain_lookup k es 0)" by (rule Cons.IH)
  moreover have "chain_lookup k es 1 = map_option (\<lambda>i. 1 + i) (chain_lookup k es 0)" by (rule Cons.IH)
  ultimately show ?case by (simp add: option.map_comp comp_def)
qed simp

lemma chain_lookup_map_of: "map_option (\<lambda>i. snd (es ! i)) (chain_lookup k es 0) = map_of es k"
proof (induction es)
  case (Cons e es)
  have "map_option (\<lambda>i. snd ((e # es) ! i)) (chain_lookup k es 1) = map_of es k"
    using Cons by (simp add: chain_lookup_shift [of _ _ "Suc 0"] option.map_comp comp_def)
  then show ?case by (cases e) auto
qed simp

lemma chain_lookup_Some: "chain_lookup k es 0 = Some i \<Longrightarrow> i < length es \<and> fst (es ! i) = k"
proof (induction es arbitrary: i)
  case (Cons e es)
  then show ?case by (auto simp: chain_lookup_shift [of _ _ "Suc 0"] split: if_splits)
qed simp

lemma chain_lookup_None: "chain_lookup k es 0 = None \<longleftrightarrow> k \<notin> fst ` set es"
  using chain_lookup_map_of [of es k] by (metis map_of_eq_None_iff option.map_disc_iff)

lemma chain_has_iff: "chain_has k es \<longleftrightarrow> k \<in> fst ` set es"
  by (induction es) auto

lemma ht_get_map_of: "ht_get t k = map_of (entries t (ht_pos t k)) k"
  unfolding ht_get_def ht_lookup_def Let_def
  using chain_lookup_map_of [of "entries t (ht_pos t k)" k]
  by (auto simp: ht_frame_def split: option.splits)

lemma ht_pos_upd [simp]: "ht_pos (t\<lparr>entries := es\<rparr>) k = ht_pos t k"
  by (simp add: ht_pos_def)

lemma map_of_update:
  "distinct (map fst es) \<Longrightarrow> i < length es \<Longrightarrow> fst (es ! i) = k \<Longrightarrow> map_of (es[i := (k, v)]) = (map_of es)(k \<mapsto> v)"
proof (induction es arbitrary: i)
  case (Cons e es)
  show ?case
  proof (cases i)
    case (Suc j)
    then have "k \<in> fst ` set es" using Cons.prems by auto
    then have "fst e \<noteq> k" using Cons.prems(1) unfolding list.map distinct.simps set_map by blast
    then show ?thesis using Suc Cons by (cases e) (auto simp: fun_upd_twist)
  qed (use Cons.prems in \<open>cases e; auto\<close>)
qed simp

lemma map_of_remove_nth:
  "distinct (map fst es) \<Longrightarrow> i < length es \<Longrightarrow> fst (es ! i) = k \<Longrightarrow>
     map_of (take i es @ drop (i + 1) es) = (map_of es)(k := None)"
proof (induction es arbitrary: i)
  case (Cons e es)
  show ?case
  proof (cases i)
    case 0
    then have "map_of es k = None" using Cons.prems by (auto simp: map_of_eq_None_iff)
    then show ?thesis using 0 Cons.prems by (cases e) auto
  next
    case (Suc j)
    then have "k \<in> fst ` set es" using Cons.prems by auto
    then have "fst e \<noteq> k" using Cons.prems(1) unfolding list.map distinct.simps set_map by blast
    then show ?thesis using Suc Cons by (cases e) (auto simp: fun_upd_twist)
  qed
qed simp

lemma distinct_remove_nth: "distinct (map f xs) \<Longrightarrow> distinct (map f (take i xs @ drop (i + 1) xs))"
proof (induction xs arbitrary: i)
  case (Cons x xs)
  then show ?case by (cases i) (auto dest: in_set_takeD in_set_dropD)
qed simp

lemma ht_lookup_Some:
  "ht_lookup t k = Some (pos, i) \<Longrightarrow> pos = ht_pos t k \<and> i < length (entries t pos) \<and> fst (entries t pos ! i) = k"
  by (auto simp: ht_lookup_def Let_def dest: chain_lookup_Some split: option.splits)

lemma ht_get_handler: "ht_get t k \<noteq> None \<Longrightarrow> \<exists>i. ht_lookup t k = Some (ht_pos t k, i)"
  using ht_lookup_Some [of t k] by (cases "ht_lookup t k") (auto simp: ht_get_def)

lemma ht_replace:
  assumes "ht_ok t" "distinct (map fst es)" "map_of es = (map_of (entries t (ht_pos t k)))(k := v)"
  shows "ht_ok (t\<lparr>entries := (entries t)(ht_pos t k := es)\<rparr>) \<and> ht_get (t\<lparr>entries := (entries t)(ht_pos t k := es)\<rparr>) = (ht_get t)(k := v)"
proof
  show "ht_ok (t\<lparr>entries := (entries t)(ht_pos t k := es)\<rparr>)" using assms(1,2) by (simp add: ht_ok_def)
  have "ht_get (t\<lparr>entries := (entries t)(ht_pos t k := es)\<rparr>) k' = ((ht_get t)(k := v)) k'" for k'
    using assms(3) by (simp add: ht_get_map_of)
  then show "ht_get (t\<lparr>entries := (entries t)(ht_pos t k := es)\<rparr>) = (ht_get t)(k := v)" by (rule ext)
qed

lemma ht_insert_get: "ht_get (ht_insert k f t) = (ht_get t)(k \<mapsto> f)"
proof
  fix k'
  show "ht_get (ht_insert k f t) k' = ((ht_get t)(k \<mapsto> f)) k'" by (simp add: ht_get_map_of ht_insert_def Let_def)
qed

lemma ht_insert_ok: "ht_ok t \<Longrightarrow> ht_get t k = None \<Longrightarrow> ht_ok (ht_insert k f t)"
  by (auto simp: ht_ok_def ht_insert_def Let_def ht_get_map_of map_of_eq_None_iff)

lemma ht_present:
  assumes "ht_ok t" "ht_get t k \<noteq> None"
  obtains i where "ht_lookup t k = Some (ht_pos t k, i)" "distinct (map fst (entries t (ht_pos t k)))"
    "i < length (entries t (ht_pos t k))" "fst (entries t (ht_pos t k) ! i) = k"
proof -
  obtain i where h: "ht_lookup t k = Some (ht_pos t k, i)" using ht_get_handler [OF assms(2)] by blast
  show ?thesis using assms(1) ht_lookup_Some [OF h] by (intro that [OF h]) (simp_all add: ht_ok_def)
qed

lemma ht_update_get:
  assumes "ht_ok t" "ht_get t k \<noteq> None"
  shows "ht_ok (ht_update k f t) \<and> ht_get (ht_update k f t) = (ht_get t)(k \<mapsto> f)"
proof (rule ht_present [OF assms])
  let ?p = "ht_pos t k"
  fix i
  assume h: "ht_lookup t k = Some (?p, i)" "distinct (map fst (entries t ?p))" "i < length (entries t ?p)" "fst (entries t ?p ! i) = k"
  have m: "map_of ((entries t ?p)[i := (k, f)]) = (map_of (entries t ?p))(k \<mapsto> f)" by (rule map_of_update [OF h(2-4)])
  have "map fst ((entries t ?p)[i := (k, f)]) = map fst (entries t ?p)" using h(3,4) by (simp add: map_update list_update_same_conv)
  then have d: "distinct (map fst ((entries t ?p)[i := (k, f)]))" using h(2) by argo
  have e: "ht_update k f t = t\<lparr>entries := (entries t)(?p := (entries t ?p)[i := (k, f)])\<rparr>"
    using h(1,4) by (simp add: ht_update_def ht_assign_def)
  show ?thesis unfolding e by (rule ht_replace [OF assms(1) d m])
qed

lemma ht_delete_get:
  assumes "ht_ok t" "ht_get t k \<noteq> None"
  shows "ht_ok (ht_delete k t) \<and> ht_get (ht_delete k t) = (ht_get t)(k := None)"
proof (rule ht_present [OF assms])
  let ?p = "ht_pos t k"
  fix i
  assume h: "ht_lookup t k = Some (?p, i)" "distinct (map fst (entries t ?p))" "i < length (entries t ?p)" "fst (entries t ?p ! i) = k"
  have m: "map_of (take i (entries t ?p) @ drop (i + 1) (entries t ?p)) = (map_of (entries t ?p))(k := None)"
    by (rule map_of_remove_nth [OF h(2-4)])
  have e: "ht_delete k t = t\<lparr>entries := (entries t)(?p := take i (entries t ?p) @ drop (i + 1) (entries t ?p))\<rparr>"
    using h(1) by (simp add: ht_delete_def ht_remove_key_def ht_remove_def)
  show ?thesis unfolding e by (rule ht_replace [OF assms(1) distinct_remove_nth [OF h(2)] m])
qed

interpretation ht: io_table ht_get ht_insert ht_update ht_delete ht_ok
  by unfold_locales (simp add: ht_insert_get ht_insert_ok, (rule ht_update_get ht_delete_get; assumption)+)

section \<open>Partitions\<close>

datatype IO_STATE = READING | READY | TO_DELETE | UNDEFINED

text \<open>An I/O frame, with its mutex and the address of the entry that holds it.\<close>

record IOFrame =
  io_addr :: nat
  io_mutex :: bool
  io_state :: IO_STATE
  io_bf :: u64
  readers_counter :: int

record Partition =
  io_ht :: "IOFrame HashTable"
  cooling_queue :: "u64 list"
  cooling_bfs_counter :: u64
  free_bfs_limit :: u64
  cooling_bfs_limit :: u64
  dram_free_list :: "u64 list"
  pid_distance :: u64
  freed_pids :: "u64 list"
  next_pid :: u64

definition new_Partition :: "u64 \<Rightarrow> u64 \<Rightarrow> u64 \<Rightarrow> u64 \<Rightarrow> Partition" where
  "new_Partition first_pid distance free_limit cooling_limit =
     \<lparr>io_ht = new_HashTable (getBitsNeeded (unat cooling_limit)), cooling_queue = [], cooling_bfs_counter = 0,
      free_bfs_limit = free_limit, cooling_bfs_limit = cooling_limit, dram_free_list = [],
      pid_distance = distance, freed_pids = [], next_pid = first_pid\<rparr>"

definition PAGE_SIZE :: u64 where
  "PAGE_SIZE = 16 * 1024"

text \<open>\<open>None\<close> when the \<open>ensure\<close> on the size of the device throws.\<close>

definition nextPID :: "nat \<Rightarrow> Partition \<Rightarrow> (u64 \<times> Partition) option" where
  "nextPID ssd_gib P =
     (if freed_pids P \<noteq> [] then Some (last (freed_pids P), P\<lparr>freed_pids := butlast (freed_pids P)\<rparr>)
      else
        let pid = next_pid P; P = P\<lparr>next_pid := next_pid P + pid_distance P\<rparr> in
        if unat (pid * PAGE_SIZE div 1024 div 1024 div 1024) \<le> ssd_gib then Some (pid, P) else None)"

definition freePage :: "u64 \<Rightarrow> Partition \<Rightarrow> Partition" where
  "freePage pid P = P\<lparr>freed_pids := freed_pids P @ [pid]\<rparr>"

definition allocatedPages :: "Partition \<Rightarrow> u64" where
  "allocatedPages P = next_pid P div pid_distance P"

definition freedPages :: "Partition \<Rightarrow> u64" where
  "freedPages P = of_nat (length (freed_pids P))"

section \<open>Page numbers\<close>

text \<open>
  Partition \<open>q\<close> of \<open>n\<close> numbers its pages \<open>q\<close>, \<open>q + n\<close>, \<open>q + 2 n\<close> and so on. The bound on the size of the device keeps the
  arithmetic away from the width of the words.
\<close>

definition pid_inv :: "nat \<Rightarrow> nat \<Rightarrow> nat \<Rightarrow> Partition \<Rightarrow> bool" where
  "pid_inv ssd_gib n q P \<longleftrightarrow>
     q < n \<and> (ssd_gib + 1) * 65536 + n \<le> 2 ^ 50 \<and> unat (pid_distance P) = n \<and>
     unat (next_pid P) mod n = q \<and> unat (next_pid P) < (ssd_gib + 1) * 65536 + n \<and>
     distinct (freed_pids P) \<and> (\<forall>pid \<in> set (freed_pids P). unat pid < unat (next_pid P) \<and> unat pid mod n = q)"

definition used_pids :: "nat \<Rightarrow> nat \<Rightarrow> Partition \<Rightarrow> u64 set" where
  "used_pids n q P = {pid. unat pid < unat (next_pid P) \<and> unat pid mod n = q \<and> pid \<notin> set (freed_pids P)}"

lemma device_check:
  assumes "unat (pid :: u64) < 2 ^ 50"
  shows "unat (pid * PAGE_SIZE div 1024 div 1024 div 1024) = unat pid div 65536"
proof -
  have "unat (pid * PAGE_SIZE) = unat pid * 16384"
    using assms by (simp add: PAGE_SIZE_def unat_word_ariths(2))
  then show ?thesis by (simp add: unat_div div_mult2_eq [symmetric])
qed

lemma mod_window: "(b :: nat) mod n = a mod n \<Longrightarrow> a \<le> b \<Longrightarrow> b < a + n \<Longrightarrow> b = a"
proof -
  assume "b mod n = a mod n" "a \<le> b" "b < a + n"
  then have "n dvd b - a" "b - a < n" using mod_eq_dvd_iff_nat [of a b n] by auto
  then show "b = a" using \<open>a \<le> b\<close> nat_dvd_not_less [of "b - a" n] by auto
qed

lemma nextPID_fresh:
  assumes inv: "pid_inv g n q P" and nx: "freed_pids P = []" "nextPID g P = Some (pid, P')"
  shows "pid = next_pid P \<and> P' = P\<lparr>next_pid := next_pid P + pid_distance P\<rparr> \<and>
    unat (next_pid P + pid_distance P) = unat (next_pid P) + n \<and> unat pid < (g + 1) * 65536"
proof -
  have pid: "pid = next_pid P" "P' = P\<lparr>next_pid := next_pid P + pid_distance P\<rparr>"
    "unat (pid * PAGE_SIZE div 1024 div 1024 div 1024) \<le> g"
    using nx by (auto simp: nextPID_def Let_def split: if_splits)
  have lim: "unat (next_pid P) < (g + 1) * 65536 + n" "(g + 1) * 65536 + n \<le> 2 ^ 50" and n: "unat (pid_distance P) = n"
    using inv by (auto simp: pid_inv_def)
  have "unat pid div 65536 \<le> g" using pid(3) lim unfolding pid(1) by (subst (asm) device_check) auto
  then have lt: "unat pid < (g + 1) * 65536" by (simp add: div_less_iff_less_mult less_Suc_eq_le [symmetric])
  have "unat (next_pid P) + unat (pid_distance P) < 2 ^ 64" using lim n by simp
  then have "unat (next_pid P + pid_distance P) = unat (next_pid P) + n" using n by (simp add: unat_word_ariths(1))
  then show ?thesis using pid(1,2) lt by blast
qed

lemma nextPID_ok:
  assumes inv: "pid_inv g n q P" and nx: "nextPID g P = Some (pid, P')"
  shows "pid_inv g n q P' \<and> pid \<notin> used_pids n q P \<and> used_pids n q P' = insert pid (used_pids n q P) \<and>
    unat pid < 2 ^ 50 \<and> unat pid mod n = q"
proof (cases "freed_pids P = []")
  case False
  then obtain fs x where fs: "freed_pids P = fs @ [x]" by (metis rev_exhaust)
  then have e: "pid = x" "P' = P\<lparr>freed_pids := fs\<rparr>" using nx by (auto simp: nextPID_def)
  show ?thesis using inv fs unfolding e by (auto simp: pid_inv_def used_pids_def)
next
  case True
  note f = nextPID_fresh [OF inv True nx]
  have i: "unat (next_pid P) mod n = q" "(g + 1) * 65536 + n \<le> 2 ^ 50" "q < n" using inv by (auto simp: pid_inv_def)
  have inv': "pid_inv g n q P'" using inv f True by (auto simp: pid_inv_def)
  have "u = pid" if "unat u < unat pid + n" "\<not> unat u < unat pid" "unat u mod n = q" for u :: u64
  proof -
    have "unat u mod n = unat pid mod n" "unat pid \<le> unat u" "unat u < unat pid + n" using that i f by auto
    then have "unat u = unat pid" by (metis mod_window)
    then show ?thesis by (rule unsigned_word_eqI)
  qed
  then have "used_pids n q P' = insert pid (used_pids n q P)"
    using f i True by (auto simp: used_pids_def)
  then show ?thesis using inv' f i by (auto simp: used_pids_def)
qed

lemma freePage_ok:
  assumes "pid_inv g n q P" "pid \<in> used_pids n q P"
  shows "pid_inv g n q (freePage pid P) \<and> used_pids n q (freePage pid P) = used_pids n q P - {pid}"
  using assms by (auto simp: pid_inv_def used_pids_def freePage_def)

lemma new_Partition_ok:
  assumes "q < n" "(g + 1) * 65536 + n \<le> 2 ^ 50"
  shows "pid_inv g n q (new_Partition (of_nat q) (of_nat n) fl cl) \<and> used_pids n q (new_Partition (of_nat q) (of_nat n) fl cl) = {}"
  using assms by (auto simp: pid_inv_def used_pids_def new_Partition_def unat_of_nat)

text \<open>The two counters of a partition give the number of its pages in use.\<close>

lemma card_congruent: "q < n \<Longrightarrow> card {a. a < q + k * n \<and> a mod n = q} = k"
proof (induction k)
  case 0
  then have "{a. a < q + 0 * n \<and> a mod n = q} = {}" by auto
  then show ?case by simp
next
  case (Suc k)
  have "{a. a < q + Suc k * n \<and> a mod n = q} = insert (q + k * n) {a. a < q + k * n \<and> a mod n = q}"
  proof (intro set_eqI iffI)
    fix a assume "a \<in> {a. a < q + Suc k * n \<and> a mod n = q}"
    then have "a < q + k * n + n" "a mod n = (q + k * n) mod n" "a mod n = q" using Suc.prems by auto
    then show "a \<in> insert (q + k * n) {a. a < q + k * n \<and> a mod n = q}"
      using mod_window [of a n "q + k * n"] by (cases "q + k * n \<le> a") auto
  qed (use Suc.prems in auto)
  then show ?case using Suc by simp
qed

lemma used_pids_finite: "finite (used_pids n q P)"
  by simp

lemma used_pids_card:
  assumes "pid_inv g n q P"
  shows "allocatedPages P - freedPages P = of_nat (card (used_pids n q P))"
proof -
  define k where "k = unat (next_pid P) div n"
  have i: "q < n" "unat (next_pid P) mod n = q" "unat (pid_distance P) = n" "distinct (freed_pids P)"
    "\<forall>pid \<in> set (freed_pids P). unat pid < unat (next_pid P) \<and> unat pid mod n = q" using assms by (auto simp: pid_inv_def)
  have np: "unat (next_pid P) = q + k * n" using i(2) unfolding k_def by (metis add.commute div_mult_mod_eq)
  let ?A = "{pid :: u64. unat pid < unat (next_pid P) \<and> unat pid mod n = q}"
  have im: "unat ` ?A = {a. a < q + k * n \<and> a mod n = q}"
  proof (intro set_eqI iffI)
    fix a assume "a \<in> {a. a < q + k * n \<and> a mod n = q}"
    moreover have "q + k * n < 2 ^ 64" using np unsigned_less [of "next_pid P", where ?'a = nat] by simp
    ultimately have "unat (of_nat a :: u64) = a" "a < q + k * n" "a mod n = q" by (auto simp: unat_of_nat)
    then show "a \<in> unat ` ?A" using np by (intro image_eqI [of _ _ "of_nat a"]) auto
  qed (use np in auto)
  have "inj_on unat ?A" by (auto intro: inj_onI unsigned_word_eqI)
  from card_image [OF this] have A: "card ?A = k" unfolding im card_congruent [OF i(1)] ..
  have u: "used_pids n q P = ?A - set (freed_pids P)" "set (freed_pids P) \<subseteq> ?A" using i(5) by (auto simp: used_pids_def)
  have l: "card (set (freed_pids P)) = length (freed_pids P)" using i(4) by (rule distinct_card)
  have c: "card (used_pids n q P) = k - length (freed_pids P)" unfolding u(1)
    by (subst card_Diff_subset [OF _ u(2)]) (simp_all add: l A)
  have le: "length (freed_pids P) \<le> k" using card_mono [OF _ u(2)] l A by simp
  have "unat (allocatedPages P) = k" using i(3) by (simp add: allocatedPages_def k_def unat_div)
  then have "allocatedPages P = of_nat k" by (metis of_nat_unat ucast_id)
  then show ?thesis using c le by (simp add: freedPages_def of_nat_diff)
qed

section \<open>The table is a map\<close>

text \<open>C40. The table of I/O frames is a map from page numbers to frames: after an insertion the key leads to the new frame and
  every other key to what it led to before, whatever the hash values; removing a key again restores the table; \<open>has\<close> agrees
  with \<open>lookup\<close>; and in a table with at most one entry for each key, removing a key makes it absent and leaves the others.
  The removal of an absent key has no result: it dereferences a null handler.\<close>

theorem io_table_is_map:
  "ht_get (ht_insert k f t) = (ht_get t)(k \<mapsto> f) \<and>
   ht_remove_key k (ht_insert k f t) = Some t \<and>
   (ht_has k t \<longleftrightarrow> ht_lookup t k \<noteq> None) \<and>
   (ht_remove_key k t = None \<longleftrightarrow> ht_get t k = None) \<and>
   (ht_ok t \<longrightarrow> ht_remove_key k t = Some t' \<longrightarrow> ht_ok t' \<and> ht_get t' = (ht_get t)(k := None))"
proof (intro conjI impI)
  show "ht_remove_key k (ht_insert k f t) = Some t"
    by (simp add: ht_remove_key_def ht_lookup_def ht_insert_def ht_remove_def Let_def)
  show "ht_has k t \<longleftrightarrow> ht_lookup t k \<noteq> None"
    using chain_lookup_None [of k "entries t (ht_pos t k)"]
    by (auto simp: ht_has_def chain_has_iff ht_lookup_def Let_def split: option.splits)
  show n: "ht_remove_key k t = None \<longleftrightarrow> ht_get t k = None"
    by (simp add: ht_remove_key_def ht_get_def)
  assume "ht_ok t" and r: "ht_remove_key k t = Some t'"
  then have "ht_ok (ht_delete k t) \<and> ht_get (ht_delete k t) = (ht_get t)(k := None)"
    using n by (intro ht.del_law) auto
  then show "ht_ok t'" "ht_get t' = (ht_get t)(k := None)" using r by (simp_all add: ht_delete_def)
qed (rule ht_insert_get)

theorem io_table_is_map_witness:
  "let t = ht_insert 5 True (ht_insert 3 False (new_HashTable 1)) in
   ht_ok t \<and> ht_remove_key 3 t \<noteq> None \<and> ht_get (the (ht_remove_key 3 t)) = [5 \<mapsto> True]"
proof -
  let ?t = "ht_insert 5 True (ht_insert 3 False (new_HashTable 1)) :: bool HashTable"
  have e: "ht_get (new_HashTable 1 :: bool HashTable) = Map.empty"
    by (rule ext) (simp add: ht_get_map_of new_HashTable_def)
  have g: "ht_get ?t = [3 \<mapsto> False, 5 \<mapsto> True]" unfolding ht_insert_get e ..
  have ok: "ht_ok ?t" using e by (intro ht_insert_ok) (simp_all add: ht_insert_get ht_ok_def new_HashTable_def)
  obtain t' where r: "ht_remove_key 3 ?t = Some t'"
    using io_table_is_map [of 3 True ?t] fun_cong [OF g, of 3] by fastforce
  have "ht_get t' = (ht_get ?t)(3 := None)" using io_table_is_map [of 3 True ?t t'] ok r by blast
  also have "\<dots> = [5 \<mapsto> True]" unfolding g by (rule ext) simp
  finally show ?thesis using ok r by (simp only: Let_def option.sel) simp
qed

end
