(* ===== verification/BufferManager.thy ===== *)
theory BufferManager
  imports Partition
begin

text \<open>
  The buffer manager (storage/buffer-manager/BufferManager.cpp), the page provider (PageProviderThread.cpp) and its write
  buffer (AsyncWriteBuffer.cpp). The state holds the frames, the partitions, the device, the swips of all pages and the
  threads inside \<open>resolveSwip\<close>. A step is what a thread does while it holds the latches and mutexes of the code, so the
  steps of any number of workers and of the page provider interleave. Whether an optimistic guard validates is left open:
  every place where the code may jump has a step that gives up there.
\<close>

unbundle bit_operations_syntax

section \<open>State\<close>

record Page =
  GSN :: u64
  dt_id :: u64
  magic_debugging_number :: u64
  hot_data :: bool
  dt :: bytes

datatype STATE = FREE | HOT | COOL | LOADED

record BufferFrame =
  lastWrittenGSN :: u64
  state :: STATE
  isWB :: bool
  keep_in_memory :: bool
  pid :: u64
  page :: Page

definition isDirty :: "BufferFrame \<Rightarrow> bool" where
  "isDirty bf \<longleftrightarrow> lastWrittenGSN bf \<noteq> GSN (page bf)"

definition isFree :: "BufferFrame \<Rightarrow> bool" where
  "isFree bf \<longleftrightarrow> state bf = FREE"

definition bf_reset :: "BufferFrame \<Rightarrow> BufferFrame" where
  "bf_reset bf = bf\<lparr>lastWrittenGSN := 0, state := FREE, isWB := False, pid := 9999, keep_in_memory := False\<rparr>"

record bm_flags =
  hot_cold_partition :: bool
  worker_threads :: nat
  async_batch_size :: nat
  ssd_gib :: nat

text \<open>
  Where a thread is inside \<open>resolveSwip\<close>: it has inserted the I/O frame of a page and reads the page, it has read it, it waits
  on the mutex of an I/O frame, or it has taken back its reader and is about to lock the partition. The last argument is the
  address of the entry of the I/O frame. \<open>Crash\<close> is a thread that touches a deleted entry or runs into \<open>ensure(false)\<close>.
\<close>

datatype resolve_pc =
    Outside
  | Reading nat u64 u64 nat
  | HasRead nat u64 u64 nat
  | Waiting u64 nat
  | Leaving u64 nat
  | Resolved u64
  | Restart
  | Crash

text \<open>
  Where the page provider is: phase 1, or the loops of phases 2 and 3 over the cooling queue of a partition, with the
  position in the queue and the number of pages left to look at.
\<close>

datatype pp_pc = Phase1 | Phase2 nat nat nat | Submit nat | Written nat nat | Phase3 nat nat nat

record BufferManager =
  bfs :: "u64 \<Rightarrow> BufferFrame"
  partitions :: "Partition list"
  cold_partition_idx_end :: nat
  hot_pages :: int
  ssd :: "u64 \<Rightarrow> Page"
  swips :: "nat \<Rightarrow> u64 option"
  next_entry :: nat
  threads :: "nat \<Rightarrow> resolve_pc"
  pp :: pp_pc
  write_buffer :: "(u64 \<times> u64 \<times> Page) list"
  io_events :: "(u64 \<times> u64 \<times> Page) list"
  freed_bfs_batch :: "u64 list"

definition getPartitionID :: "BufferManager \<Rightarrow> u64 \<Rightarrow> u64" where
  "getPartitionID b p = p AND (of_nat (length (partitions b)) - 1)"

definition getPartition :: "BufferManager \<Rightarrow> u64 \<Rightarrow> Partition" where
  "getPartition b p = partitions b ! unat (getPartitionID b p)"

definition with_bf :: "u64 \<Rightarrow> (BufferFrame \<Rightarrow> BufferFrame) \<Rightarrow> BufferManager \<Rightarrow> BufferManager" where
  "with_bf a f b = b\<lparr>bfs := (bfs b)(a := f (bfs b a))\<rparr>"

definition with_partition :: "nat \<Rightarrow> (Partition \<Rightarrow> Partition) \<Rightarrow> BufferManager \<Rightarrow> BufferManager" where
  "with_partition q f b = b\<lparr>partitions := (partitions b)[q := f (partitions b ! q)]\<rparr>"

definition set_swip :: "nat \<Rightarrow> u64 option \<Rightarrow> BufferManager \<Rightarrow> BufferManager" where
  "set_swip l w b = b\<lparr>swips := (swips b)(l := w)\<rparr>"

definition set_thread :: "nat \<Rightarrow> resolve_pc \<Rightarrow> BufferManager \<Rightarrow> BufferManager" where
  "set_thread t pc b = b\<lparr>threads := (threads b)(t := pc)\<rparr>"

definition io_get :: "BufferManager \<Rightarrow> u64 \<Rightarrow> IOFrame option" where
  "io_get b p = ht_get (io_ht (getPartition b p)) p"

definition with_io :: "u64 \<Rightarrow> (IOFrame HashTable \<Rightarrow> IOFrame HashTable) \<Rightarrow> BufferManager \<Rightarrow> BufferManager" where
  "with_io p f b = with_partition (unat (getPartitionID b p)) (\<lambda>P. P\<lparr>io_ht := f (io_ht P)\<rparr>) b"

text \<open>The random choice of a partition, for hot or cold data.\<close>

definition partition_choice :: "bm_flags \<Rightarrow> BufferManager \<Rightarrow> bool \<Rightarrow> nat \<Rightarrow> bool" where
  "partition_choice flags b hot q \<longleftrightarrow>
     q < length (partitions b) \<and>
     (hot_cold_partition flags \<longrightarrow> (if hot then cold_partition_idx_end b \<le> q else q < cold_partition_idx_end b))"

section \<open>Resolving swips\<close>

definition new_io_frame :: "nat \<Rightarrow> IOFrame" where
  "new_io_frame a = \<lparr>io_addr = a, io_mutex = True, io_state = READING, io_bf = 0, readers_counter = 1\<rparr>"

definition resolve_cool :: "nat \<Rightarrow> nat \<Rightarrow> u64 \<Rightarrow> BufferManager \<Rightarrow> BufferManager" where
  "resolve_cool t l w b =
     (let bf = bfPtrAsHot w in
      set_thread t (Resolved (swip_warm w)) (set_swip l (Some (swip_warm w)) (with_bf bf (\<lambda>f. f\<lparr>state := HOT\<rparr>) b)))"

definition resolve_miss :: "nat \<Rightarrow> nat \<Rightarrow> u64 \<Rightarrow> nat \<Rightarrow> BufferManager \<Rightarrow> BufferManager" where
  "resolve_miss t l p q b =
     (case dram_free_list (partitions b ! q) of
        [] \<Rightarrow> set_thread t Restart b
      | bf # rest \<Rightarrow>
          let b = with_partition q (\<lambda>P. P\<lparr>dram_free_list := rest\<rparr>) b;
              b = with_io p (ht_insert p (new_io_frame (next_entry b))) b in
          set_thread t (Reading l p bf (next_entry b)) (b\<lparr>next_entry := next_entry b + 1\<rparr>))"

definition resolve_join :: "nat \<Rightarrow> u64 \<Rightarrow> IOFrame \<Rightarrow> BufferManager \<Rightarrow> BufferManager" where
  "resolve_join t p e b =
     set_thread t (Waiting p (io_addr e)) (with_io p (ht_update p (e\<lparr>readers_counter := readers_counter e + 1\<rparr>)) b)"

definition resolve_ready :: "nat \<Rightarrow> nat \<Rightarrow> u64 \<Rightarrow> IOFrame \<Rightarrow> BufferManager \<Rightarrow> BufferManager" where
  "resolve_ready t l p e b =
     (let bf = io_bf e;
          b = set_swip l (Some bf) (with_bf bf (\<lambda>f. f\<lparr>state := HOT\<rparr>) b);
          b = (if readers_counter e = 1 then with_io p (ht_delete p) b
               else with_io p (ht_update p (e\<lparr>io_bf := 0, readers_counter := readers_counter e - 1, io_state := TO_DELETE\<rparr>)) b) in
      set_thread t (Resolved bf) b)"

definition resolveSwip :: "nat \<Rightarrow> nat \<Rightarrow> nat \<Rightarrow> BufferManager \<Rightarrow> BufferManager" where
  "resolveSwip t l q b =
     (case swips b l of
        None \<Rightarrow> b
      | Some w \<Rightarrow>
          if isHOT w then set_thread t (Resolved w) b
          else if isCOOL w then resolve_cool t l w b
          else
            let p = asPageID w in
            case io_get b p of
              None \<Rightarrow> resolve_miss t l p q b
            | Some e \<Rightarrow>
                (case io_state e of
                   READING \<Rightarrow> resolve_join t p e b
                 | READY \<Rightarrow> resolve_ready t l p e b
                 | TO_DELETE \<Rightarrow> set_thread t Restart (if readers_counter e = 0 then with_io p (ht_delete p) b else b)
                 | UNDEFINED \<Rightarrow> set_thread t Crash b))"

definition tryFastResolveSwip :: "nat \<Rightarrow> nat \<Rightarrow> nat \<Rightarrow> BufferManager \<Rightarrow> BufferManager" where
  "tryFastResolveSwip t l q b =
     (case swips b l of
        None \<Rightarrow> b
      | Some w \<Rightarrow> if isHOT w then set_thread t (Resolved w) b else resolveSwip t l q b)"

text \<open>The read of the page, and what follows it when the guard of the swip validates and when it does not.\<close>

definition resolve_read :: "nat \<Rightarrow> BufferManager \<Rightarrow> BufferManager" where
  "resolve_read t b =
     (case threads b t of
        Reading l p bf a \<Rightarrow>
          set_thread t (HasRead l p bf a)
            (with_bf bf (\<lambda>f. f\<lparr>page := ssd b p, lastWrittenGSN := GSN (ssd b p), state := LOADED, pid := p\<rparr>) b)
      | _ \<Rightarrow> b)"

definition io_deref :: "BufferManager \<Rightarrow> u64 \<Rightarrow> nat \<Rightarrow> IOFrame option" where
  "io_deref b p a = (case io_get b p of None \<Rightarrow> None | Some e \<Rightarrow> if io_addr e = a then Some e else None)"

definition resolve_finish :: "nat \<Rightarrow> BufferManager \<Rightarrow> BufferManager" where
  "resolve_finish t b =
     (case threads b t of
        HasRead l p bf a \<Rightarrow>
          (case io_deref b p a of
             None \<Rightarrow> set_thread t Crash b
           | Some e \<Rightarrow>
               let b = set_swip l (Some bf) (with_bf bf (\<lambda>f. f\<lparr>state := HOT\<rparr>) b);
                   b = (if readers_counter e = 1 then with_io p (ht_delete p) b
                        else with_io p (ht_update p (e\<lparr>io_mutex := False, readers_counter := readers_counter e - 1\<rparr>)) b) in
               set_thread t (Resolved bf) b)
      | _ \<Rightarrow> b)"

definition resolve_retry :: "nat \<Rightarrow> BufferManager \<Rightarrow> BufferManager" where
  "resolve_retry t b =
     (case threads b t of
        HasRead l p bf a \<Rightarrow>
          (case io_deref b p a of
             None \<Rightarrow> set_thread t Crash b
           | Some e \<Rightarrow> set_thread t Restart (with_io p (ht_update p (e\<lparr>io_bf := bf, io_state := READY, io_mutex := False\<rparr>)) b))
      | _ \<Rightarrow> b)"

text \<open>A waiting thread gets the mutex of the I/O frame, releases it and takes back its reader.\<close>

definition resolve_wake :: "nat \<Rightarrow> BufferManager \<Rightarrow> BufferManager" where
  "resolve_wake t b =
     (case threads b t of
        Waiting p a \<Rightarrow>
          (case io_deref b p a of
             None \<Rightarrow> set_thread t Crash b
           | Some e \<Rightarrow>
               if io_mutex e then b
               else set_thread t (if readers_counter e = 1 then Leaving p a else Restart)
                      (with_io p (ht_update p (e\<lparr>readers_counter := readers_counter e - 1\<rparr>)) b))
      | _ \<Rightarrow> b)"

definition resolve_leave :: "nat \<Rightarrow> BufferManager \<Rightarrow> BufferManager" where
  "resolve_leave t b =
     (case threads b t of
        Leaving p a \<Rightarrow>
          (case io_deref b p a of
             None \<Rightarrow> set_thread t Crash b
           | Some e \<Rightarrow> set_thread t Restart (if readers_counter e = 0 then with_io p (ht_delete p) b else b))
      | _ \<Rightarrow> b)"

section \<open>Allocating, writing and freeing pages\<close>

text \<open>\<open>None\<close>: the free list is empty (the thread jumps) or the device is full (the \<open>ensure\<close> throws).\<close>

definition bm_allocatePage :: "bm_flags \<Rightarrow> bool \<Rightarrow> nat \<Rightarrow> BufferManager \<Rightarrow> (u64 \<times> BufferManager) option" where
  "bm_allocatePage flags from_hot_partition q b =
     (case dram_free_list (partitions b ! q) of
        [] \<Rightarrow> None
      | free_bf # rest \<Rightarrow>
          (case nextPID (ssd_gib flags) ((partitions b ! q)\<lparr>dram_free_list := rest\<rparr>) of
             None \<Rightarrow> None
           | Some (free_pid, P) \<Rightarrow>
               let b = with_partition q (\<lambda>_. P) b;
                   b = with_bf free_bf (\<lambda>f. f\<lparr>pid := free_pid, state := HOT, page := (page f)\<lparr>GSN := 0\<rparr>, lastWrittenGSN := 0\<rparr>) b;
                   b = (if from_hot_partition then b\<lparr>hot_pages := hot_pages b + 1\<rparr> else b) in
               Some (free_bf, b)))"

text \<open>
  The guard of a new page, upgraded to an exclusive page guard, which counts the modification (\<open>incrementGSN\<close>, without the
  log). The content is written under the exclusive latch.
\<close>

definition new_page :: "bm_flags \<Rightarrow> nat \<Rightarrow> bool \<Rightarrow> nat \<Rightarrow> u64 \<Rightarrow> bytes \<Rightarrow> BufferManager \<Rightarrow> BufferManager option" where
  "new_page flags l keep q dtid d b =
     (case bm_allocatePage flags keep q b of
        None \<Rightarrow> None
      | Some (bf, b) \<Rightarrow>
          Some (set_swip l (Some bf) (with_bf bf (\<lambda>f. f\<lparr>keep_in_memory := keep,
            page := (page f)\<lparr>dt_id := dtid, hot_data := keep, GSN := GSN (page f) + 1, dt := d\<rparr>\<rparr>) b)))"

definition write_page :: "u64 \<Rightarrow> bytes \<Rightarrow> BufferManager \<Rightarrow> BufferManager" where
  "write_page bf d b = with_bf bf (\<lambda>f. f\<lparr>page := (page f)\<lparr>GSN := GSN (page f) + 1, dt := d\<rparr>\<rparr>) b"

definition bm_reclaimPage :: "u64 \<Rightarrow> BufferManager \<Rightarrow> BufferManager" where
  "bm_reclaimPage bf b =
     (let q = unat (getPartitionID b (pid (bfs b bf)));
          b' = with_partition q (freePage (pid (bfs b bf))) b;
          b' = (if hot_data (page (bfs b bf)) then b'\<lparr>hot_pages := hot_pages b' - 1\<rparr> else b') in
      if isWB (bfs b bf) then b'
      else with_partition q (\<lambda>P. P\<lparr>dram_free_list := bf # dram_free_list P\<rparr>) (with_bf bf bf_reset b'))"

definition consumedPages :: "BufferManager \<Rightarrow> u64" where
  "consumedPages b = sum_list (map allocatedPages (partitions b)) - sum_list (map freedPages (partitions b))"

definition bm_serialize :: "BufferManager \<Rightarrow> u64" where
  "bm_serialize b = foldl (\<lambda>max_pid P. max (next_pid P) max_pid) 0 (partitions b)"

definition bm_deserialize :: "u64 \<Rightarrow> BufferManager \<Rightarrow> BufferManager" where
  "bm_deserialize max_pid b =
     (let n = of_nat (length (partitions b)); max_pid = (max_pid + (n - 1)) AND NOT (n - 1) in
      b\<lparr>partitions := map (\<lambda>(q, P). P\<lparr>next_pid := max_pid + of_nat q\<rparr>) (List.enumerate 0 (partitions b))\<rparr>)"

section \<open>The page provider\<close>

definition phase_1_condition :: "Partition \<Rightarrow> bool" where
  "phase_1_condition P \<longleftrightarrow> of_nat (length (dram_free_list P)) + cooling_bfs_counter P < cooling_bfs_limit P"

definition phase_2_3_condition :: "Partition \<Rightarrow> bool" where
  "phase_2_3_condition P \<longleftrightarrow> of_nat (length (dram_free_list P)) < free_bfs_limit P"

definition is_cooling_candidate :: "BufferFrame \<Rightarrow> bool" where
  "is_cooling_candidate f \<longleftrightarrow> \<not> keep_in_memory f \<and> \<not> isWB f \<and> state f = HOT"

text \<open>Phase 1 on a frame whose parent swip \<open>l\<close> was found.\<close>

definition cool_page :: "nat \<Rightarrow> u64 \<Rightarrow> BufferManager \<Rightarrow> BufferManager" where
  "cool_page l bf b =
     (let q = unat (getPartitionID b (pid (bfs b bf)));
          b = with_partition q (\<lambda>P. P\<lparr>cooling_queue := cooling_queue P @ [bf], cooling_bfs_counter := cooling_bfs_counter P + 1\<rparr>) b;
          b = with_bf bf (\<lambda>f. f\<lparr>state := COOL\<rparr>) b in
      set_swip l (Some (swip_cool bf)) b)"

definition erase_entry :: "nat \<Rightarrow> nat \<Rightarrow> BufferManager \<Rightarrow> BufferManager" where
  "erase_entry q i b =
     with_partition q (\<lambda>P. P\<lparr>cooling_queue := take i (cooling_queue P) @ drop (i + 1) (cooling_queue P),
                             cooling_bfs_counter := cooling_bfs_counter P - 1\<rparr>) b"

definition push_batch :: "nat \<Rightarrow> BufferManager \<Rightarrow> BufferManager" where
  "push_batch q b =
     (with_partition q (\<lambda>P. P\<lparr>dram_free_list := freed_bfs_batch b @ dram_free_list P\<rparr>) b)\<lparr>freed_bfs_batch := []\<rparr>"

definition evict_bf :: "bm_flags \<Rightarrow> nat \<Rightarrow> nat \<Rightarrow> u64 \<Rightarrow> nat \<Rightarrow> BufferManager \<Rightarrow> BufferManager" where
  "evict_bf flags q i bf l b =
     (let p = pid (bfs b bf);
          b = erase_entry q i b;
          b = set_swip l (Some (swip_evict p)) b;
          b = with_bf bf bf_reset b;
          b = b\<lparr>freed_bfs_batch := bf # freed_bfs_batch b\<rparr> in
      if length (freed_bfs_batch b) \<le> min (worker_threads flags) 128 then push_batch q b else b)"

definition wb_full :: "bm_flags \<Rightarrow> BufferManager \<Rightarrow> bool" where
  "wb_full flags b \<longleftrightarrow> (of_nat (length (write_buffer b)) :: u64) \<ge> of_nat (async_batch_size flags) - 2"

definition wb_add :: "u64 \<Rightarrow> u64 \<Rightarrow> BufferManager \<Rightarrow> BufferManager" where
  "wb_add bf p b =
     (let b = with_bf bf (\<lambda>f. f\<lparr>page := (page f)\<lparr>magic_debugging_number := p\<rparr>\<rparr>) b in
      b\<lparr>write_buffer := write_buffer b @ [(bf, p, page (bfs b bf))]\<rparr>)"

definition pp_begin :: "nat \<Rightarrow> BufferManager \<Rightarrow> BufferManager" where
  "pp_begin q b =
     (let P = partitions b ! q in
      if phase_2_3_condition P then b\<lparr>pp := Phase2 q 0 (unat (free_bfs_limit P - of_nat (length (dram_free_list P))))\<rparr> else b)"

text \<open>One turn of the loop of phase 2. The parent \<open>l\<close> of the frame is what \<open>findParent\<close> returns.\<close>

definition phase2_turn :: "bm_flags \<Rightarrow> nat \<Rightarrow> BufferManager \<Rightarrow> BufferManager" where
  "phase2_turn flags l b =
     (case pp b of
        Phase2 q i left \<Rightarrow>
          (let queue = cooling_queue (partitions b ! q); bf = queue ! i; f = bfs b bf in
           if left = 0 \<or> i \<ge> length queue then b\<lparr>pp := Submit q\<rparr>
           else if state f \<noteq> COOL \<or> unat (getPartitionID b (pid f)) \<noteq> q then erase_entry q i b
           else if isWB f then b\<lparr>pp := Phase2 q (i + 1) left\<rparr>
           else if io_get b (pid f) \<noteq> None then erase_entry q i b
           else if isDirty f then
             (if wb_full flags b then b\<lparr>pp := Submit q\<rparr>
              else (wb_add bf (pid f) (with_bf bf (\<lambda>f. f\<lparr>isWB := True\<rparr>) b))\<lparr>pp := Phase2 q (i + 1) (left - 1)\<rparr>)
           else (evict_bf flags q i bf l b)\<lparr>pp := Phase2 q i (left - 1)\<rparr>)
      | _ \<Rightarrow> b)"

text \<open>
  The turns that jump: the frame is latched by a worker, which makes it or has made it hot again, or a guard of the frame or
  of its parent does not validate after the table of I/O frames was consulted.
\<close>

definition phase2_jump :: "BufferManager \<Rightarrow> BufferManager" where
  "phase2_jump b =
     (case pp b of
        Phase2 q i left \<Rightarrow>
          (let queue = cooling_queue (partitions b ! q); f = bfs b (queue ! i) in
           if left = 0 \<or> i \<ge> length queue then b
           else if state f \<noteq> COOL then b\<lparr>pp := Phase2 q (i + 1) left\<rparr>
           else if unat (getPartitionID b (pid f)) = q \<and> \<not> isWB f \<and> io_get b (pid f) = None
           then b\<lparr>pp := Phase2 q (i + 1) (left - 1)\<rparr> else b)
      | _ \<Rightarrow> b)"

text \<open>Phase 3: the writes are submitted and awaited, the written frames are updated one by one, then the loop.\<close>

definition pp_submit :: "BufferManager \<Rightarrow> BufferManager" where
  "pp_submit b =
     (case pp b of
        Submit q \<Rightarrow>
          b\<lparr>ssd := foldl (\<lambda>d (bf, p, pg). d(p := pg)) (ssd b) (write_buffer b), io_events := write_buffer b, write_buffer := [],
            pp := Written q (length (write_buffer b))\<rparr>
      | _ \<Rightarrow> b)"

definition pp_written :: "BufferManager \<Rightarrow> BufferManager" where
  "pp_written b =
     (case pp b of
        Written q n \<Rightarrow>
          (case io_events b of
             [] \<Rightarrow> b\<lparr>pp := Phase3 q 0 n\<rparr>
           | (bf, p, pg) # rest \<Rightarrow> (with_bf bf (\<lambda>f. f\<lparr>lastWrittenGSN := GSN pg, isWB := False\<rparr>) b)\<lparr>io_events := rest\<rparr>)
      | _ \<Rightarrow> b)"

definition phase3_turn :: "bm_flags \<Rightarrow> nat \<Rightarrow> BufferManager \<Rightarrow> BufferManager" where
  "phase3_turn flags l b =
     (case pp b of
        Phase3 q i left \<Rightarrow>
          (let queue = cooling_queue (partitions b ! q); bf = queue ! i; f = bfs b bf in
           if left = 0 \<or> i \<ge> length queue
           then (if freed_bfs_batch b \<noteq> [] then push_batch q b else b)\<lparr>pp := Phase1\<rparr>
           else if state f \<noteq> COOL \<or> unat (getPartitionID b (pid f)) \<noteq> q then (erase_entry q i b)\<lparr>pp := Phase3 q i (left - 1)\<rparr>
           else if \<not> isWB f \<and> \<not> isDirty f then (evict_bf flags q i bf l b)\<lparr>pp := Phase3 q i (left - 1)\<rparr>
           else b\<lparr>pp := Phase3 q (i + 1) (left - 1)\<rparr>)
      | _ \<Rightarrow> b)"

definition phase3_jump :: "BufferManager \<Rightarrow> BufferManager" where
  "phase3_jump b =
     (case pp b of
        Phase3 q i left \<Rightarrow> if left = 0 then b else b\<lparr>pp := Phase3 q (i + 1) (left - 1)\<rparr>
      | _ \<Rightarrow> b)"

section \<open>The system\<close>

text \<open>The constructor: the partitions, and the frames of the pool pushed to their free lists.\<close>

record bm_config =
  partition_bits :: nat
  dram_pool_size :: nat
  pool_address :: nat
  free_limit :: u64
  cooling_limit :: u64
  cold_frames :: nat
  cold_partitions :: nat

definition frame_address :: "bm_config \<Rightarrow> nat \<Rightarrow> u64" where
  "frame_address c i = of_nat (pool_address c + i * (16384 + 4096))"

definition initial_partition :: "bm_flags \<Rightarrow> bm_config \<Rightarrow> nat \<Rightarrow> nat" where
  "initial_partition flags c i =
     (let count = 2 ^ partition_bits c in
      if hot_cold_partition flags then
        (if i < cold_frames c then i mod cold_partitions c else i mod (count - cold_partitions c) + cold_partitions c)
      else i mod count)"

definition push_frame :: "nat \<Rightarrow> u64 \<Rightarrow> Partition list \<Rightarrow> Partition list" where
  "push_frame q bf Ps = Ps[q := (Ps ! q)\<lparr>dram_free_list := bf # dram_free_list (Ps ! q)\<rparr>]"

definition new_BufferFrame :: BufferFrame where
  "new_BufferFrame =
     \<lparr>lastWrittenGSN = 0, state = FREE, isWB = False, keep_in_memory = False, pid = 9999,
      page = \<lparr>GSN = 0, dt_id = 9999, magic_debugging_number = 0, hot_data = False, dt = []\<rparr>\<rparr>"

definition new_BufferManager :: "bm_flags \<Rightarrow> bm_config \<Rightarrow> (u64 \<Rightarrow> Page) \<Rightarrow> BufferManager" where
  "new_BufferManager flags c device =
     \<lparr>bfs = \<lambda>_. new_BufferFrame,
      partitions = foldl (\<lambda>Ps i. push_frame (initial_partition flags c i) (frame_address c i) Ps)
        (map (\<lambda>q. new_Partition (of_nat q) (of_nat (2 ^ partition_bits c)) (free_limit c) (cooling_limit c)) [0..<2 ^ partition_bits c])
        [0..<dram_pool_size c],
      cold_partition_idx_end = (if hot_cold_partition flags then cold_partitions c else 2 ^ partition_bits c),
      hot_pages = 0, ssd = device, swips = \<lambda>_. None, next_entry = 0, threads = \<lambda>_. Outside, pp = Phase1,
      write_buffer = [], io_events = [], freed_bfs_batch = []\<rparr>"

text \<open>What a step does to the pages that the data structures see.\<close>

datatype page_op = Internal | NewPage nat bytes | WritePage nat bytes | FreePage nat

fun page_effect :: "page_op \<Rightarrow> (nat \<Rightarrow> bytes option) \<Rightarrow> nat \<Rightarrow> bytes option" where
  "page_effect Internal m = m"
| "page_effect (NewPage l d) m = m(l \<mapsto> d)"
| "page_effect (WritePage l d) m = m(l \<mapsto> d)"
| "page_effect (FreePage l) m = m(l := None)"

text \<open>The parent that \<open>findParent\<close> returns for the frame under the loops of the page provider.\<close>

definition found_parent :: "BufferManager \<Rightarrow> nat \<Rightarrow> bool" where
  "found_parent b l \<longleftrightarrow>
     (case pp b of
        Phase2 q i left \<Rightarrow> swips b l = Some (swip_cool (cooling_queue (partitions b ! q) ! i))
      | Phase3 q i left \<Rightarrow> swips b l = Some (swip_cool (cooling_queue (partitions b ! q) ! i))
      | _ \<Rightarrow> True)"

definition at_cool_frame :: "BufferManager \<Rightarrow> bool" where
  "at_cool_frame b \<longleftrightarrow>
     (case pp b of
        Phase2 q i left \<Rightarrow> i < length (cooling_queue (partitions b ! q)) \<and> state (bfs b (cooling_queue (partitions b ! q) ! i)) = COOL
      | Phase3 q i left \<Rightarrow> i < length (cooling_queue (partitions b ! q)) \<and> state (bfs b (cooling_queue (partitions b ! q) ! i)) = COOL
      | _ \<Rightarrow> False)"

inductive bm_step :: "bm_flags \<Rightarrow> page_op \<Rightarrow> BufferManager \<Rightarrow> BufferManager \<Rightarrow> bool" for flags :: bm_flags where
  resolve: "threads b t \<in> {Outside, Restart} \<union> range Resolved \<Longrightarrow> swips b l = Some w \<Longrightarrow>
    partition_choice flags b (cold_partition_idx_end b \<le> unat (getPartitionID b (asPageID w))) q \<Longrightarrow>
    bm_step flags Internal b (tryFastResolveSwip t l q b)"
| read_page: "bm_step flags Internal b (resolve_read t b)"
| finish: "bm_step flags Internal b (resolve_finish t b)"
| retry: "bm_step flags Internal b (resolve_retry t b)"
| wake: "bm_step flags Internal b (resolve_wake t b)"
| leave: "bm_step flags Internal b (resolve_leave t b)"
| new: "swips b l = None \<Longrightarrow> partition_choice flags b keep q \<Longrightarrow> new_page flags l keep q dtid d b = Some b' \<Longrightarrow>
    bm_step flags (NewPage l d) b b'"
| write_dt: "swips b l = Some bf \<Longrightarrow> isHOT bf \<Longrightarrow> GSN (page (bfs b bf)) \<noteq> - 1 \<Longrightarrow>
    bm_step flags (WritePage l d) b (write_page bf d b)"
| reclaim: "swips b l = Some bf \<Longrightarrow> isHOT bf \<Longrightarrow> bm_step flags (FreePage l) b (bm_reclaimPage bf (set_swip l None b))"
| cool: "pp b = Phase1 \<Longrightarrow> P \<in> set (partitions b) \<Longrightarrow> phase_1_condition P \<Longrightarrow> swips b l = Some bf \<Longrightarrow> isHOT bf \<Longrightarrow>
    is_cooling_candidate (bfs b bf) \<Longrightarrow> bm_step flags Internal b (cool_page l bf b)"
| pp_start: "pp b = Phase1 \<Longrightarrow> q < length (partitions b) \<Longrightarrow> bm_step flags Internal b (pp_begin q b)"
| phase2: "at_cool_frame b \<longrightarrow> found_parent b l \<Longrightarrow> bm_step flags Internal b (phase2_turn flags l b)"
| phase2_jmp: "bm_step flags Internal b (phase2_jump b)"
| submit: "bm_step flags Internal b (pp_submit b)"
| written: "bm_step flags Internal b (pp_written b)"
| phase3: "at_cool_frame b \<longrightarrow> found_parent b l \<Longrightarrow> bm_step flags Internal b (phase3_turn flags l b)"
| phase3_jmp: "bm_step flags Internal b (phase3_jump b)"

inductive bm_reach :: "bm_flags \<Rightarrow> BufferManager \<Rightarrow> BufferManager \<Rightarrow> bool" for flags b0 where
  init: "bm_reach flags b0 b0"
| step: "bm_reach flags b0 b \<Longrightarrow> bm_step flags a b b' \<Longrightarrow> bm_reach flags b0 b'"

end
