(* ===== verification/BufferViews.thy ===== *)
theory BufferViews
  imports BufferManager
begin

text \<open>
  The buffer manager seen through a few functions: the I/O frame of a page, the free list and the cooling queue of a
  partition, and the set of the page numbers in use. Every primitive update of the state changes these in a simple way.
\<close>

unbundle bit_operations_syntax

section \<open>Well-formed partitions\<close>

definition bm_wf :: "bm_flags \<Rightarrow> BufferManager \<Rightarrow> bool" where
  "bm_wf flags b \<longleftrightarrow>
     (\<exists>k. length (partitions b) = 2 ^ k) \<and>
     (\<forall>q < length (partitions b). ht_ok (io_ht (partitions b ! q)) \<and> pid_inv (ssd_gib flags) (length (partitions b)) q (partitions b ! q))"

definition pidx :: "BufferManager \<Rightarrow> u64 \<Rightarrow> nat" where
  "pidx b p = unat (getPartitionID b p)"

definition frees :: "BufferManager \<Rightarrow> nat \<Rightarrow> u64 list" where
  "frees b q = (if q < length (partitions b) then dram_free_list (partitions b ! q) else [])"

definition queue :: "BufferManager \<Rightarrow> nat \<Rightarrow> u64 list" where
  "queue b q = cooling_queue (partitions b ! q)"

definition used :: "BufferManager \<Rightarrow> u64 set" where
  "used b = {p. p \<in> used_pids (length (partitions b)) (pidx b p) (partitions b ! pidx b p)}"

lemma mask_pow: "k < 64 \<Longrightarrow> (of_nat (2 ^ k) - 1 :: u64) = mask k"
  by (simp add: mask_eq_exp_minus_1)

lemma pidx_mod:
  assumes "bm_wf flags b"
  shows "pidx b p = unat p mod length (partitions b) \<and> pidx b p < length (partitions b)"
proof -
  obtain k where k: "length (partitions b) = 2 ^ k" using assms by (auto simp: bm_wf_def)
  have "0 < length (partitions b)" using k by simp
  then have "pid_inv (ssd_gib flags) (2 ^ k) 0 (partitions b ! 0)" using assms k by (auto simp: bm_wf_def)
  then have "(2 :: nat) ^ k \<le> 2 ^ 50" by (simp add: pid_inv_def)
  then have "k \<le> 50" by (simp only: power_increasing_iff)
  then have "k < 64" by simp
  then have "getPartitionID b p = p AND mask k" using k mask_pow [of k] by (simp add: getPartitionID_def)
  then have "pidx b p = unat (take_bit k p)" by (simp only: pidx_def take_bit_eq_mask)
  then have "pidx b p = take_bit k (unat p)" by (simp add: unsigned_take_bit_eq)
  then show ?thesis using k by (simp add: take_bit_eq_mod)
qed

lemmas pidx_less = pidx_mod [THEN conjunct2]

lemma getPartition_pidx: "getPartition b p = partitions b ! pidx b p"
  by (simp add: getPartition_def pidx_def)

section \<open>Updates that leave the partitions alone\<close>

lemma with_bf_simps [simp]:
  "bfs (with_bf a f b) = (bfs b)(a := f (bfs b a))" "partitions (with_bf a f b) = partitions b"
  "ssd (with_bf a f b) = ssd b" "swips (with_bf a f b) = swips b" "threads (with_bf a f b) = threads b"
  "pp (with_bf a f b) = pp b" "write_buffer (with_bf a f b) = write_buffer b" "io_events (with_bf a f b) = io_events b"
  "freed_bfs_batch (with_bf a f b) = freed_bfs_batch b" "next_entry (with_bf a f b) = next_entry b"
  by (simp_all add: with_bf_def)

lemma set_swip_simps [simp]:
  "swips (set_swip l w b) = (swips b)(l := w)" "bfs (set_swip l w b) = bfs b" "partitions (set_swip l w b) = partitions b"
  "ssd (set_swip l w b) = ssd b" "threads (set_swip l w b) = threads b"
  "pp (set_swip l w b) = pp b" "write_buffer (set_swip l w b) = write_buffer b" "io_events (set_swip l w b) = io_events b"
  "freed_bfs_batch (set_swip l w b) = freed_bfs_batch b" "next_entry (set_swip l w b) = next_entry b"
  by (simp_all add: set_swip_def)

lemma set_thread_simps [simp]:
  "threads (set_thread t pc b) = (threads b)(t := pc)" "bfs (set_thread t pc b) = bfs b" "partitions (set_thread t pc b) = partitions b"
  "ssd (set_thread t pc b) = ssd b" "swips (set_thread t pc b) = swips b"
  "pp (set_thread t pc b) = pp b" "write_buffer (set_thread t pc b) = write_buffer b" "io_events (set_thread t pc b) = io_events b"
  "freed_bfs_batch (set_thread t pc b) = freed_bfs_batch b" "next_entry (set_thread t pc b) = next_entry b"
  by (simp_all add: set_thread_def)

lemma with_partition_simps [simp]:
  "threads (with_partition q f b) = threads b" "bfs (with_partition q f b) = bfs b"
  "partitions (with_partition q f b) = (partitions b)[q := f (partitions b ! q)]"
  "ssd (with_partition q f b) = ssd b" "swips (with_partition q f b) = swips b"
  "pp (with_partition q f b) = pp b" "write_buffer (with_partition q f b) = write_buffer b" "io_events (with_partition q f b) = io_events b"
  "freed_bfs_batch (with_partition q f b) = freed_bfs_batch b" "next_entry (with_partition q f b) = next_entry b"
  by (simp_all add: with_partition_def)

lemma with_io_simps [simp]:
  "threads (with_io p f b) = threads b" "bfs (with_io p f b) = bfs b"
  "length (partitions (with_io p f b)) = length (partitions b)"
  "ssd (with_io p f b) = ssd b" "swips (with_io p f b) = swips b"
  "pp (with_io p f b) = pp b" "write_buffer (with_io p f b) = write_buffer b" "io_events (with_io p f b) = io_events b"
  "freed_bfs_batch (with_io p f b) = freed_bfs_batch b" "next_entry (with_io p f b) = next_entry b"
  by (simp_all add: with_io_def)

text \<open>The views depend on the partitions only.\<close>

lemma views_partitions:
  assumes "partitions b' = partitions b"
  shows "bm_wf flags b' = bm_wf flags b" "pidx b' = pidx b" "frees b' = frees b" "queue b' = queue b" "used b' = used b" "io_get b' = io_get b"
  by (simp_all add: bm_wf_def pidx_def getPartitionID_def frees_def queue_def used_def io_get_def getPartition_def assms fun_eq_iff)

lemmas views_simps [simp] =
  views_partitions [OF with_bf_simps(2)] views_partitions [OF set_swip_simps(3)] views_partitions [OF set_thread_simps(3)]

lemma rec_partitions:
  "partitions (b\<lparr>pp := x1\<rparr>) = partitions b" "partitions (b\<lparr>write_buffer := x2\<rparr>) = partitions b"
  "partitions (b\<lparr>io_events := x3\<rparr>) = partitions b" "partitions (b\<lparr>freed_bfs_batch := x4\<rparr>) = partitions b"
  "partitions (b\<lparr>hot_pages := x5\<rparr>) = partitions b" "partitions (b\<lparr>next_entry := x6\<rparr>) = partitions b"
  "partitions (b\<lparr>ssd := x7\<rparr>) = partitions b"
  by simp_all

lemmas views_rec [simp] =
  views_partitions [OF rec_partitions(1)] views_partitions [OF rec_partitions(2)] views_partitions [OF rec_partitions(3)]
  views_partitions [OF rec_partitions(4)] views_partitions [OF rec_partitions(5)] views_partitions [OF rec_partitions(6)]
  views_partitions [OF rec_partitions(7)]

section \<open>Updates of a partition\<close>

lemma pidx_partition [simp]: "pidx (with_partition q f b) = pidx b" "pidx (with_io p g b) = pidx b"
  by (simp_all add: pidx_def getPartitionID_def with_io_def fun_eq_iff)

lemma nth_upd_if: "xs[i := x] ! j = (if i = j \<and> j < length xs then x else xs ! j)"
  by (cases "i < length xs") (auto simp: nth_list_update list_update_beyond not_less)

lemma bm_wf_upd:
  assumes "bm_wf flags b"
    "q < length (partitions b) \<Longrightarrow> ht_ok (io_ht (f (partitions b ! q))) \<and> pid_inv (ssd_gib flags) (length (partitions b)) q (f (partitions b ! q))"
  shows "bm_wf flags (with_partition q f b)"
  using assms by (simp add: bm_wf_def nth_upd_if)

lemma bm_wfD: "bm_wf flags b \<Longrightarrow> q < length (partitions b) \<Longrightarrow>
    ht_ok (io_ht (partitions b ! q)) \<and> pid_inv (ssd_gib flags) (length (partitions b)) q (partitions b ! q)"
  by (simp add: bm_wf_def)

text \<open>An update of one partition that keeps its table and its page numbers.\<close>

lemma with_partition_local:
  assumes "bm_wf flags b" "io_ht (f (partitions b ! q)) = io_ht (partitions b ! q)"
    "pid_distance (f (partitions b ! q)) = pid_distance (partitions b ! q)"
    "next_pid (f (partitions b ! q)) = next_pid (partitions b ! q)" "freed_pids (f (partitions b ! q)) = freed_pids (partitions b ! q)"
  shows "bm_wf flags (with_partition q f b)" "io_get (with_partition q f b) = io_get b" "used (with_partition q f b) = used b"
proof -
  show "bm_wf flags (with_partition q f b)" using assms(2-5) bm_wfD [OF assms(1)]
    by (intro bm_wf_upd [OF assms(1)]) (simp add: pid_inv_def)
  have *: "io_ht ((partitions b)[q := f (partitions b ! q)] ! j) = io_ht (partitions b ! j)"
    "used_pids n i ((partitions b)[q := f (partitions b ! q)] ! j) = used_pids n i (partitions b ! j)" for j n i
    using assms(2-5) by (auto simp: used_pids_def nth_upd_if)
  show "io_get (with_partition q f b) = io_get b" by (simp add: io_get_def getPartition_pidx * fun_eq_iff)
  show "used (with_partition q f b) = used b" by (simp add: used_def *)
qed

lemma frees_partition:
  "q < length (partitions b) \<Longrightarrow> frees (with_partition q f b) = (frees b)(q := dram_free_list (f (partitions b ! q)))"
  by (auto simp: frees_def fun_eq_iff)

lemma frees_keep:
  "dram_free_list (f (partitions b ! q)) = dram_free_list (partitions b ! q) \<Longrightarrow> frees (with_partition q f b) = frees b"
  by (auto simp: frees_def fun_eq_iff nth_upd_if)

lemma queue_partition:
  "q < length (partitions b) \<Longrightarrow> queue (with_partition q f b) = (queue b)(q := cooling_queue (f (partitions b ! q)))"
  by (auto simp: queue_def fun_eq_iff)

lemma queue_keep:
  "cooling_queue (f (partitions b ! q)) = cooling_queue (partitions b ! q) \<Longrightarrow> queue (with_partition q f b) = queue b"
  by (auto simp: queue_def fun_eq_iff nth_upd_if)

text \<open>Updates of the table of I/O frames, by the contract of the table.\<close>

lemma with_io_get:
  assumes wf: "bm_wf flags b"
    and g: "ht_ok (f (io_ht (getPartition b p))) \<and> ht_get (f (io_ht (getPartition b p))) = (ht_get (io_ht (getPartition b p)))(p := e)"
  shows "bm_wf flags (with_io p f b) \<and> io_get (with_io p f b) = (io_get b)(p := e) \<and> frees (with_io p f b) = frees b \<and>
    queue (with_io p f b) = queue b \<and> used (with_io p f b) = used b"
proof -
  let ?q = "pidx b p"
  have q: "?q < length (partitions b)" using pidx_less [OF wf] by blast
  have g: "ht_ok (f (io_ht (partitions b ! ?q)))" "ht_get (f (io_ht (partitions b ! ?q))) = (ht_get (io_ht (partitions b ! ?q)))(p := e)"
    using g by (auto simp: getPartition_pidx)
  have e: "with_io p f b = with_partition ?q (\<lambda>P. P\<lparr>io_ht := f (io_ht P)\<rparr>) b" by (simp add: with_io_def pidx_def)
  have "bm_wf flags (with_io p f b)" using bm_wfD [OF wf] g(1) unfolding e
    by (intro bm_wf_upd [OF wf]) (simp add: pid_inv_def)
  moreover have "io_get (with_io p f b) x = ((io_get b)(p := e)) x" for x
    using g(2) q unfolding e by (cases "pidx b x = pidx b p") (auto simp: io_get_def getPartition_pidx nth_upd_if)
  moreover have "frees (with_io p f b) = frees b" "queue (with_io p f b) = queue b" unfolding e by (simp_all add: frees_keep queue_keep)
  moreover have "used (with_io p f b) = used b" unfolding e using q by (auto simp: used_def used_pids_def nth_upd_if)
  ultimately show ?thesis by (simp add: fun_eq_iff)
qed

lemma io_table_ok: "bm_wf flags b \<Longrightarrow> ht_ok (io_ht (getPartition b p))"
  using pidx_less [of flags b p] by (simp add: bm_wf_def getPartition_pidx)

lemma io_ins:
  assumes "bm_wf flags b" "io_get b p = None"
  shows "bm_wf flags (with_io p (ht_insert p e) b) \<and> io_get (with_io p (ht_insert p e) b) = (io_get b)(p \<mapsto> e) \<and>
    frees (with_io p (ht_insert p e) b) = frees b \<and> queue (with_io p (ht_insert p e) b) = queue b \<and> used (with_io p (ht_insert p e) b) = used b"
  using assms io_table_ok [OF assms(1), of p] by (intro with_io_get ht.ins_law) (auto simp: io_get_def)

lemma io_upd:
  assumes "bm_wf flags b" "io_get b p = Some e'"
  shows "bm_wf flags (with_io p (ht_update p e) b) \<and> io_get (with_io p (ht_update p e) b) = (io_get b)(p \<mapsto> e) \<and>
    frees (with_io p (ht_update p e) b) = frees b \<and> queue (with_io p (ht_update p e) b) = queue b \<and> used (with_io p (ht_update p e) b) = used b"
  using assms io_table_ok [OF assms(1), of p] by (intro with_io_get ht.upd_law) (auto simp: io_get_def)

lemma io_del:
  assumes "bm_wf flags b" "io_get b p = Some e'"
  shows "bm_wf flags (with_io p (ht_delete p) b) \<and> io_get (with_io p (ht_delete p) b) = (io_get b)(p := None) \<and>
    frees (with_io p (ht_delete p) b) = frees b \<and> queue (with_io p (ht_delete p) b) = queue b \<and> used (with_io p (ht_delete p) b) = used b"
  using assms io_table_ok [OF assms(1), of p] by (intro with_io_get ht.del_law) (auto simp: io_get_def)

text \<open>Updates of the page numbers.\<close>

lemma with_partition_pids:
  assumes wf: "bm_wf flags b" and q: "q < length (partitions b)"
    and inv: "pid_inv (ssd_gib flags) (length (partitions b)) q (f (partitions b ! q))" and io: "io_ht (f (partitions b ! q)) = io_ht (partitions b ! q)"
  shows "bm_wf flags (with_partition q f b)" "io_get (with_partition q f b) = io_get b"
    "used (with_partition q f b) = {p. if pidx b p = q then p \<in> used_pids (length (partitions b)) q (f (partitions b ! q)) else p \<in> used b}"
proof -
  show "bm_wf flags (with_partition q f b)" using bm_wfD [OF wf] inv io by (intro bm_wf_upd [OF wf]) simp
  have *: "io_ht ((partitions b)[q := f (partitions b ! q)] ! j) = io_ht (partitions b ! j)" for j
    using io by (auto simp: nth_upd_if)
  show "io_get (with_partition q f b) = io_get b" by (simp add: io_get_def getPartition_pidx * fun_eq_iff)
  show "used (with_partition q f b) = {p. if pidx b p = q then p \<in> used_pids (length (partitions b)) q (f (partitions b ! q)) else p \<in> used b}"
    using q by (auto simp: used_def nth_upd_if)
qed

end
