(* ===== verification/BufferInv.thy ===== *)
theory BufferInv
  imports BufferViews
begin

text \<open>
  The invariant of the buffer manager. Three maps describe a state: what the swip of every page stands for, who owns
  every frame, and which page every page number on the device belongs to. The clauses are grouped by the components of
  the state they speak of, so that a step only has to re-establish the groups it touches.
\<close>

section \<open>Ghost state\<close>

datatype role = Res nat | InFree nat | InBatch | Load nat | ReadyFor u64 | Leaked | Unowned

fun enc :: "swip_view \<Rightarrow> u64" where
  "enc (Hot bf) = bf"
| "enc (Cool bf) = swip_cool bf"
| "enc (Evicted p) = swip_evict p"

fun payload :: "swip_view \<Rightarrow> u64" where
  "payload (Hot bf) = bf"
| "payload (Cool bf) = bf"
| "payload (Evicted p) = p"

definition encodes :: "(nat \<Rightarrow> u64 option) \<Rightarrow> (nat \<Rightarrow> swip_view option) \<Rightarrow> bool" where
  "encodes sw V \<longleftrightarrow> (\<forall>l. sw l = map_option enc (V l) \<and> (\<forall>v. V l = Some v \<longrightarrow> untagged (payload v)))"

lemma swip_view_enc: "untagged (payload v) \<Longrightarrow> swip_view (enc v) = v"
  by (cases v) (auto simp: swip_view_simps)

text \<open>The content of a page: in its frame, or on the device.\<close>

definition contents :: "(u64 \<Rightarrow> BufferFrame) \<Rightarrow> (u64 \<Rightarrow> Page) \<Rightarrow> swip_view \<Rightarrow> bytes" where
  "contents fr D v = (case v of Hot bf \<Rightarrow> dt (page (fr bf)) | Cool bf \<Rightarrow> dt (page (fr bf)) | Evicted p \<Rightarrow> dt (D p))"

definition pages :: "BufferManager \<Rightarrow> nat \<Rightarrow> bytes option" where
  "pages b l = map_option (\<lambda>w. contents (bfs b) (ssd b) (swip_view w)) (swips b l)"

lemma pages_view: "encodes (swips b) V \<Longrightarrow> pages b l = map_option (contents (bfs b) (ssd b)) (V l)"
  by (cases "V l") (auto simp: pages_def encodes_def swip_view_enc)

section \<open>The clauses\<close>

definition loaded :: "(u64 \<Rightarrow> BufferFrame) \<Rightarrow> (u64 \<Rightarrow> Page) \<Rightarrow> u64 \<Rightarrow> u64 \<Rightarrow> bool" where
  "loaded fr D bf p \<longleftrightarrow>
     dt (page (fr bf)) = dt (D p) \<and> lastWrittenGSN (fr bf) = GSN (page (fr bf)) \<and> pid (fr bf) = p \<and> state (fr bf) = LOADED"

definition resident :: "(nat \<Rightarrow> swip_view option) \<Rightarrow> nat \<Rightarrow> u64 \<Rightarrow> bool" where
  "resident V l bf \<longleftrightarrow> V l = Some (Hot bf) \<or> V l = Some (Cool bf)"

definition owner :: "(u64 \<Rightarrow> BufferFrame) \<Rightarrow> (nat \<Rightarrow> swip_view option) \<Rightarrow> nat \<Rightarrow> u64 \<Rightarrow> bool" where
  "owner fr V l p \<longleftrightarrow> V l = Some (Evicted p) \<or> (\<exists>bf. resident V l bf \<and> pid (fr bf) = p)"

text \<open>Swips, frames and page numbers agree.\<close>

definition gS :: "(u64 \<Rightarrow> BufferFrame) \<Rightarrow> (nat \<Rightarrow> swip_view option) \<Rightarrow> (u64 \<Rightarrow> role) \<Rightarrow> (u64 \<Rightarrow> nat option) \<Rightarrow> bool" where
  "gS fr V \<rho> \<sigma> \<longleftrightarrow>
     (\<forall>l bf. V l = Some (Hot bf) \<longrightarrow> state (fr bf) = HOT) \<and>
     (\<forall>bf. state (fr bf) = COOL \<longleftrightarrow> (\<exists>l. V l = Some (Cool bf))) \<and>
     (\<forall>l bf. \<rho> bf = Res l \<longleftrightarrow> resident V l bf) \<and>
     (\<forall>l p. \<sigma> p = Some l \<longleftrightarrow> owner fr V l p)"

text \<open>A clean resident frame holds what the device holds.\<close>

definition gC :: "(u64 \<Rightarrow> BufferFrame) \<Rightarrow> (u64 \<Rightarrow> role) \<Rightarrow> (u64 \<Rightarrow> Page) \<Rightarrow> bool" where
  "gC fr \<rho> D \<longleftrightarrow>
     (\<forall>bf l. \<rho> bf = Res l \<longrightarrow> lastWrittenGSN (fr bf) \<le> GSN (page (fr bf)) \<and>
        (lastWrittenGSN (fr bf) = GSN (page (fr bf)) \<longrightarrow> dt (D (pid (fr bf))) = dt (page (fr bf))))"

definition gF :: "(nat \<Rightarrow> u64 list) \<Rightarrow> u64 list \<Rightarrow> (u64 \<Rightarrow> role) \<Rightarrow> bool" where
  "gF fl bt \<rho> \<longleftrightarrow>
     (\<forall>q. distinct (fl q) \<and> (\<forall>bf \<in> set (fl q). \<rho> bf = InFree q \<and> untagged bf)) \<and>
     distinct bt \<and> (\<forall>bf \<in> set bt. \<rho> bf = InBatch \<and> untagged bf)"

text \<open>
  A thread that loads a page owns its frame and the mutex of its I/O frame; one that waits or leaves knows an entry that is
  still there.
\<close>

definition loading_ok :: "(nat \<Rightarrow> swip_view option) \<Rightarrow> (u64 \<Rightarrow> role) \<Rightarrow> (u64 \<Rightarrow> IOFrame option) \<Rightarrow> nat \<Rightarrow> nat \<Rightarrow> u64 \<Rightarrow> u64 \<Rightarrow> nat \<Rightarrow> bool" where
  "loading_ok V \<rho> io t l p bf a \<longleftrightarrow>
     \<rho> bf = Load t \<and> untagged bf \<and> V l = Some (Evicted p) \<and> (\<exists>e. io p = Some e \<and> io_addr e = a \<and> io_mutex e)"

definition thread_ok :: "(u64 \<Rightarrow> BufferFrame) \<Rightarrow> (nat \<Rightarrow> swip_view option) \<Rightarrow> (u64 \<Rightarrow> role) \<Rightarrow>
    (u64 \<Rightarrow> IOFrame option) \<Rightarrow> (u64 \<Rightarrow> Page) \<Rightarrow> nat \<Rightarrow> resolve_pc \<Rightarrow> bool" where
  "thread_ok fr V \<rho> io D t pc \<longleftrightarrow>
     (case pc of
        Reading l p bf a \<Rightarrow> loading_ok V \<rho> io t l p bf a
      | HasRead l p bf a \<Rightarrow> loading_ok V \<rho> io t l p bf a \<and> loaded fr D bf p
      | Waiting p a \<Rightarrow> (\<exists>e. io p = Some e \<and> io_addr e = a)
      | Leaving p a \<Rightarrow> (\<exists>e. io p = Some e \<and> io_addr e = a \<and> \<not> io_mutex e \<and> io_state e \<noteq> READY \<and> readers_counter e = 0)
      | Crash \<Rightarrow> False
      | _ \<Rightarrow> True)"

fun loads :: "resolve_pc \<Rightarrow> u64 option" where
  "loads (Reading l p bf a) = Some p"
| "loads (HasRead l p bf a) = Some p"
| "loads pc = None"

fun leaves :: "resolve_pc \<Rightarrow> u64 option" where
  "leaves (Leaving p a) = Some p"
| "leaves pc = None"

definition gT :: "(nat \<Rightarrow> resolve_pc) \<Rightarrow> (u64 \<Rightarrow> BufferFrame) \<Rightarrow> (nat \<Rightarrow> swip_view option) \<Rightarrow> (u64 \<Rightarrow> role) \<Rightarrow>
    (u64 \<Rightarrow> IOFrame option) \<Rightarrow> (u64 \<Rightarrow> Page) \<Rightarrow> bool" where
  "gT th fr V \<rho> io D \<longleftrightarrow>
     finite {t. th t \<noteq> Outside} \<and> (\<forall>t. thread_ok fr V \<rho> io D t (th t)) \<and>
     (\<forall>t t' p. loads (th t) = Some p \<longrightarrow> loads (th t') = Some p \<longrightarrow> t = t') \<and>
     (\<forall>t t' p. leaves (th t) = Some p \<longrightarrow> leaves (th t') = Some p \<longrightarrow> t = t')"

definition waiters :: "(nat \<Rightarrow> resolve_pc) \<Rightarrow> u64 \<Rightarrow> nat set" where
  "waiters th p = {t. \<exists>a. th t = Waiting p a}"

text \<open>An I/O frame, given the number of the threads that wait on it.\<close>

definition entry_ok :: "(u64 \<Rightarrow> BufferFrame) \<Rightarrow> (nat \<Rightarrow> swip_view option) \<Rightarrow> (u64 \<Rightarrow> role) \<Rightarrow> (u64 \<Rightarrow> Page) \<Rightarrow> u64 \<Rightarrow> IOFrame \<Rightarrow> nat \<Rightarrow> bool" where
  "entry_ok fr V \<rho> D p e n \<longleftrightarrow>
     io_state e \<noteq> UNDEFINED \<and>
     readers_counter e = of_bool (io_mutex e) + of_bool (io_state e = READY) + int n \<and>
     (io_mutex e \<longrightarrow> io_state e = READING) \<and>
     (io_state e = READY \<longrightarrow> \<rho> (io_bf e) = ReadyFor p \<and> untagged (io_bf e) \<and> loaded fr D (io_bf e) p \<and> (\<exists>l. V l = Some (Evicted p))) \<and>
     (\<not> io_mutex e \<and> io_state e \<noteq> READY \<longrightarrow> (\<forall>l. V l \<noteq> Some (Evicted p)))"

definition gI :: "(nat \<Rightarrow> resolve_pc) \<Rightarrow> (u64 \<Rightarrow> BufferFrame) \<Rightarrow> (nat \<Rightarrow> swip_view option) \<Rightarrow> (u64 \<Rightarrow> role) \<Rightarrow>
    (u64 \<Rightarrow> IOFrame option) \<Rightarrow> (u64 \<Rightarrow> Page) \<Rightarrow> bool" where
  "gI th fr V \<rho> io D \<longleftrightarrow> (\<forall>p e. io p = Some e \<longrightarrow> entry_ok fr V \<rho> D p e (card (waiters th p)))"

definition quiet :: "(u64 \<Rightarrow> BufferFrame) \<Rightarrow> (u64 \<Rightarrow> IOFrame option) \<Rightarrow> u64 \<Rightarrow> bool" where
  "quiet fr io bf \<longleftrightarrow> (state (fr bf) = COOL \<longrightarrow> io (pid (fr bf)) = None)"

text \<open>
  A frame in the write buffer is a resident frame, with the content that is written as long as it is not modified, or one
  whose page was freed meanwhile. Then the page that took over the number is hot and not written yet.
\<close>

definition pending_ok :: "(u64 \<Rightarrow> BufferFrame) \<Rightarrow> (nat \<Rightarrow> swip_view option) \<Rightarrow> (u64 \<Rightarrow> role) \<Rightarrow> (u64 \<Rightarrow> nat option) \<Rightarrow>
    u64 \<Rightarrow> u64 \<Rightarrow> Page \<Rightarrow> bool" where
  "pending_ok fr V \<rho> \<sigma> bf p pg \<longleftrightarrow>
     pid (fr bf) = p \<and> lastWrittenGSN (fr bf) < GSN pg \<and> GSN pg \<le> GSN (page (fr bf)) \<and>
     ((\<exists>l. \<rho> bf = Res l) \<and> (GSN pg = GSN (page (fr bf)) \<longrightarrow> dt pg = dt (page (fr bf))) \<or>
      \<rho> bf = Leaked \<and> (\<forall>l. \<sigma> p = Some l \<longrightarrow>
        (\<exists>bf'. V l = Some (Hot bf') \<and> \<not> isWB (fr bf') \<and> lastWrittenGSN (fr bf') < GSN (page (fr bf')))))"

definition gP :: "(u64 \<Rightarrow> BufferFrame) \<Rightarrow> (nat \<Rightarrow> swip_view option) \<Rightarrow> (u64 \<Rightarrow> role) \<Rightarrow> (u64 \<Rightarrow> nat option) \<Rightarrow>
    (u64 \<Rightarrow> IOFrame option) \<Rightarrow> (u64 \<times> u64 \<times> Page) list \<Rightarrow> (u64 \<times> u64 \<times> Page) list \<Rightarrow> (u64 \<Rightarrow> Page) \<Rightarrow> bool" where
  "gP fr V \<rho> \<sigma> io wb ev D \<longleftrightarrow>
     distinct (map fst (wb @ ev)) \<and> distinct (map (\<lambda>x. fst (snd x)) (wb @ ev)) \<and>
     (\<forall>bf. isWB (fr bf) \<longleftrightarrow> bf \<in> fst ` set (wb @ ev)) \<and>
     (\<forall>(bf, p, pg) \<in> set (wb @ ev). pending_ok fr V \<rho> \<sigma> bf p pg \<and> quiet fr io bf) \<and>
     (\<forall>(bf, p, pg) \<in> set ev. \<forall>l. \<rho> bf = Res l \<longrightarrow> dt (D p) = dt pg)"

definition quiet_upto :: "(u64 \<Rightarrow> BufferFrame) \<Rightarrow> (u64 \<Rightarrow> IOFrame option) \<Rightarrow> u64 list \<Rightarrow> nat \<Rightarrow> bool" where
  "quiet_upto fr io qs n \<longleftrightarrow> (\<forall>bf \<in> set (take n qs). quiet fr io bf)"

text \<open>The page provider only reaches queue entries in phase 3 that phase 2 has looked at.\<close>

definition gQ :: "pp_pc \<Rightarrow> (nat \<Rightarrow> u64 list) \<Rightarrow> (u64 \<times> u64 \<times> Page) list \<Rightarrow> (u64 \<times> u64 \<times> Page) list \<Rightarrow>
    (u64 \<Rightarrow> BufferFrame) \<Rightarrow> (u64 \<Rightarrow> IOFrame option) \<Rightarrow> nat \<Rightarrow> bool" where
  "gQ pc qu wb ev fr io n \<longleftrightarrow>
     (case pc of
        Phase1 \<Rightarrow> wb = [] \<and> ev = []
      | Phase2 q i left \<Rightarrow> q < n \<and> ev = [] \<and> length wb \<le> i \<and> quiet_upto fr io (qu q) i
      | Submit q \<Rightarrow> q < n \<and> ev = [] \<and> quiet_upto fr io (qu q) (length wb)
      | Written q m \<Rightarrow> q < n \<and> wb = [] \<and> quiet_upto fr io (qu q) m
      | Phase3 q i left \<Rightarrow> q < n \<and> wb = [] \<and> ev = [] \<and> quiet_upto fr io (qu q) (i + left))"

definition bm_inv_at :: "bm_flags \<Rightarrow> (nat \<Rightarrow> swip_view option) \<Rightarrow> (u64 \<Rightarrow> role) \<Rightarrow> (u64 \<Rightarrow> nat option) \<Rightarrow> BufferManager \<Rightarrow> bool" where
  "bm_inv_at flags V \<rho> \<sigma> b \<longleftrightarrow>
     bm_wf flags b \<and> encodes (swips b) V \<and> dom \<sigma> = used b \<and> gS (bfs b) V \<rho> \<sigma> \<and> gC (bfs b) \<rho> (ssd b) \<and>
     gF (frees b) (freed_bfs_batch b) \<rho> \<and> gT (threads b) (bfs b) V \<rho> (io_get b) (ssd b) \<and>
     gI (threads b) (bfs b) V \<rho> (io_get b) (ssd b) \<and>
     gP (bfs b) V \<rho> \<sigma> (io_get b) (write_buffer b) (io_events b) (ssd b) \<and>
     gQ (pp b) (queue b) (write_buffer b) (io_events b) (bfs b) (io_get b) (length (partitions b))"

definition bm_inv :: "bm_flags \<Rightarrow> BufferManager \<Rightarrow> bool" where
  "bm_inv flags b \<longleftrightarrow> (\<exists>V \<rho> \<sigma>. bm_inv_at flags V \<rho> \<sigma> b)"

section \<open>Consequences and updates\<close>

lemma encodes_untagged: "encodes sw V \<Longrightarrow> V l = Some v \<Longrightarrow> untagged (payload v)"
  by (simp add: encodes_def)

lemma encodes_upd: "encodes sw V \<Longrightarrow> (\<And>v. v' = Some v \<Longrightarrow> untagged (payload v)) \<Longrightarrow> encodes (sw(l := map_option enc v')) (V(l := v'))"
  by (auto simp: encodes_def)

lemma gS_role: "gS fr V \<rho> \<sigma> \<Longrightarrow> resident V l bf \<longleftrightarrow> \<rho> bf = Res l"
  by (simp add: gS_def)

lemma gS_view: "gS fr V \<rho> \<sigma> \<Longrightarrow> V l = Some (Hot bf) \<or> V l = Some (Cool bf) \<Longrightarrow> \<rho> bf = Res l"
  by (simp add: gS_def resident_def)

lemma gS_owner: "gS fr V \<rho> \<sigma> \<Longrightarrow> \<rho> bf = Res l \<Longrightarrow> \<sigma> (pid (fr bf)) = Some l"
  by (auto simp: gS_def owner_def)

lemma gS_evicted: "gS fr V \<rho> \<sigma> \<Longrightarrow> V l = Some (Evicted p) \<Longrightarrow> \<sigma> p = Some l"
  by (auto simp: gS_def owner_def)

lemma gS_cool: "gS fr V \<rho> \<sigma> \<Longrightarrow> state (fr bf) = COOL \<Longrightarrow> \<exists>l. V l = Some (Cool bf) \<and> \<rho> bf = Res l"
  by (auto simp: gS_def resident_def)

text \<open>A page whose swip changes, together with the frame that it leaves or enters.\<close>

lemma gS_step:
  assumes S: "gS fr V \<rho> \<sigma>"
    and fr: "\<forall>x. x \<noteq> bf \<longrightarrow> fr' x = fr x"
    and old: "\<forall>x. resident V l x \<longrightarrow> x = bf" "\<forall>l'. l' \<noteq> l \<longrightarrow> \<not> resident V l' bf"
    and new: "v' = Some (Hot bf) \<and> state (fr' bf) = HOT \<or> v' = Some (Cool bf) \<and> state (fr' bf) = COOL \<or>
      (v' = None \<or> (\<exists>p. v' = Some (Evicted p))) \<and> state (fr' bf) \<noteq> COOL"
    and \<rho>: "\<forall>x l'. \<rho>' x = Res l' \<longleftrightarrow> (if x = bf then l' = l \<and> (v' = Some (Hot bf) \<or> v' = Some (Cool bf)) else \<rho> x = Res l')"
    and \<sigma>: "\<forall>p l'. \<sigma>' p = Some l' \<longleftrightarrow> (if l' = l then owner fr' (V(l := v')) l p else \<sigma> p = Some l')"
  shows "gS fr' (V(l := v')) \<rho>' \<sigma>'"
proof -
  have r: "resident (V(l := v')) l' x \<longleftrightarrow> (if l' = l then x = bf \<and> (v' = Some (Hot bf) \<or> v' = Some (Cool bf)) else resident V l' x)" for l' x
    using new by (auto simp: resident_def)
  have 1: "state (fr' x) = HOT" if "(V(l := v')) l' = Some (Hot x)" for l' x
    using that new S fr old(2) by (cases "l' = l"; cases "x = bf") (auto simp: gS_def resident_def)
  have 2: "state (fr' x) = COOL \<longleftrightarrow> (\<exists>l'. (V(l := v')) l' = Some (Cool x))" for x
  proof (cases "x = bf")
    case True
    then show ?thesis using new old(2) by (auto simp: resident_def split: if_splits)
  next
    case False
    have "V l \<noteq> Some (Cool x)" "v' \<noteq> Some (Cool x)" using old(1) new False by (auto simp: resident_def)
    then have "(\<exists>l'. (V(l := v')) l' = Some (Cool x)) \<longleftrightarrow> (\<exists>l'. V l' = Some (Cool x))" by (metis fun_upd_apply)
    then show ?thesis using S fr False by (simp add: gS_def)
  qed
  have 3: "\<rho>' x = Res l' \<longleftrightarrow> resident (V(l := v')) l' x" for l' x
    using \<rho> r S old by (cases "l' = l"; cases "x = bf") (auto simp: gS_def)
  have 4: "\<sigma>' p = Some l' \<longleftrightarrow> owner fr' (V(l := v')) l' p" for l' p
  proof (cases "l' = l")
    case False
    then have "owner fr' (V(l := v')) l' p \<longleftrightarrow> owner fr V l' p" using fr old(2) by (auto simp: owner_def resident_def)
    then show ?thesis using \<sigma> False S by (simp add: gS_def)
  qed (use \<sigma> in simp)
  show ?thesis unfolding gS_def using 1 2 3 4 by blast
qed

lemma gQ_mono:
  "gQ pc qu wb ev fr io n \<Longrightarrow> (\<And>x. quiet fr io x \<Longrightarrow> quiet fr' io' x) \<Longrightarrow> gQ pc qu wb ev fr' io' n"
  by (auto simp: gQ_def quiet_upto_def split: pp_pc.splits)

text \<open>What a thread and an I/O frame rely on.\<close>

lemma thread_ok_mono:
  assumes "thread_ok fr V \<rho> io D t pc"
    and "\<And>x. \<rho> x = Load t \<Longrightarrow> \<rho>' x = Load t \<and> fr' x = fr x"
    and "\<And>l p. V l = Some (Evicted p) \<Longrightarrow> loads pc = Some p \<Longrightarrow> V' l = Some (Evicted p) \<and> dt (D' p) = dt (D p)"
    and "\<And>p e. io p = Some e \<Longrightarrow> \<exists>e'. io' p = Some e' \<and> io_addr e' = io_addr e \<and> (loads pc = Some p \<longrightarrow> io_mutex e' = io_mutex e) \<and>
      (leaves pc = Some p \<longrightarrow> e' = e)"
  shows "thread_ok fr' V' \<rho>' io' D' t pc"
  using assms
  by (cases pc; simp add: thread_ok_def loading_ok_def loaded_def; metis)

lemma gT_frame:
  assumes T: "gT th fr V \<rho> io D" and 1: "\<And>x t. \<rho> x = Load t \<Longrightarrow> \<rho>' x = Load t \<and> fr' x = fr x"
    and 2: "\<And>l p. V l = Some (Evicted p) \<Longrightarrow> V' l = Some (Evicted p) \<and> dt (D' p) = dt (D p)"
  shows "gT th fr' V' \<rho>' io D'"
proof -
  have "thread_ok fr' V' \<rho>' io D' t (th t)" for t
    by (rule thread_ok_mono [of fr V \<rho> io D]) (use T 1 2 in \<open>auto simp: gT_def\<close>)
  then show ?thesis using T by (auto simp: gT_def)
qed

lemma entry_ok_mono:
  assumes "entry_ok fr V \<rho> D p e n"
    and "\<rho> (io_bf e) = ReadyFor p \<Longrightarrow> \<rho>' (io_bf e) = ReadyFor p \<and> fr' (io_bf e) = fr (io_bf e)"
    and "\<And>l. V' l = Some (Evicted p) \<longleftrightarrow> V l = Some (Evicted p)" and "\<And>l. V l = Some (Evicted p) \<Longrightarrow> dt (D' p) = dt (D p)"
  shows "entry_ok fr' V' \<rho>' D' p e n"
  using assms unfolding entry_ok_def loaded_def by auto

lemma gI_frame:
  assumes "gI th fr V \<rho> io D" and "\<And>x p. \<rho> x = ReadyFor p \<Longrightarrow> \<rho>' x = ReadyFor p \<and> fr' x = fr x"
    and "\<And>l p. V' l = Some (Evicted p) \<longleftrightarrow> V l = Some (Evicted p)" and "\<And>l p. V l = Some (Evicted p) \<Longrightarrow> dt (D' p) = dt (D p)"
  shows "gI th fr' V' \<rho>' io D'"
  unfolding gI_def
proof (intro allI impI)
  fix p e assume "io p = Some e"
  then have "entry_ok fr V \<rho> D p e (card (waiters th p))" using assms(1) by (simp add: gI_def)
  then show "entry_ok fr' V' \<rho>' D' p e (card (waiters th p))" by (rule entry_ok_mono) (use assms(2-4) in auto)
qed

lemma bm_inv_atD:
  assumes "bm_inv_at flags V \<rho> \<sigma> b"
  shows "bm_wf flags b" "encodes (swips b) V" "dom \<sigma> = used b" "gS (bfs b) V \<rho> \<sigma>" "gC (bfs b) \<rho> (ssd b)"
    "gF (frees b) (freed_bfs_batch b) \<rho>" "gT (threads b) (bfs b) V \<rho> (io_get b) (ssd b)"
    "gI (threads b) (bfs b) V \<rho> (io_get b) (ssd b)"
    "gP (bfs b) V \<rho> \<sigma> (io_get b) (write_buffer b) (io_events b) (ssd b)"
    "gQ (pp b) (queue b) (write_buffer b) (io_events b) (bfs b) (io_get b) (length (partitions b))"
  using assms by (auto simp: bm_inv_at_def)

end
