(* ===== verification/BufferResolve.thy ===== *)
theory BufferResolve
  imports BufferInv
begin

text \<open>The steps of \<open>resolveSwip\<close> keep the invariant and the content of the pages.\<close>

section \<open>Changes of one thread or one frame\<close>

definition inactive :: "resolve_pc \<Rightarrow> bool" where
  "inactive pc \<longleftrightarrow> pc \<in> {Outside, Restart} \<union> range Resolved"

lemma finite_upd: "finite {t. th t \<noteq> Outside} \<Longrightarrow> finite {t'. (th(t := pc)) t' \<noteq> Outside}"
  by (rule finite_subset [of _ "insert t {t. th t \<noteq> Outside}"]) auto

lemma waiters_upd:
  "waiters (th(t := pc)) p = (if \<exists>a. pc = Waiting p a then insert t (waiters th p) else waiters th p - {t})"
  by (auto simp: waiters_def)

lemma waiters_inactive [simp]: "inactive (th t) \<Longrightarrow> inactive pc \<Longrightarrow> waiters (th(t := pc)) p = waiters th p"
  by (auto simp: waiters_def inactive_def)

lemma finite_waiters: "finite {t. th t \<noteq> Outside} \<Longrightarrow> finite (waiters th p)"
  by (rule finite_subset [of _ "{t. th t \<noteq> Outside}"]) (auto simp: waiters_def)

lemma gT_inactive: "gT th fr V \<rho> io D \<Longrightarrow> inactive (th t) \<Longrightarrow> inactive pc \<Longrightarrow> gT (th(t := pc)) fr V \<rho> io D"
  unfolding gT_def using finite_upd [of th t pc] by (auto simp: inactive_def thread_ok_def)

lemma gI_inactive: "gI th fr V \<rho> io D \<Longrightarrow> inactive (th t) \<Longrightarrow> inactive pc \<Longrightarrow> gI (th(t := pc)) fr V \<rho> io D"
  unfolding gI_def by (simp add: waiters_inactive)

lemma resolve_hot_inv:
  assumes "bm_inv_at flags V \<rho> \<sigma> b" "inactive (threads b t)"
  shows "bm_inv_at flags V \<rho> \<sigma> (set_thread t (Resolved w) b)"
  using assms gT_inactive gI_inactive by (auto simp: bm_inv_at_def inactive_def)

lemma pending_mono:
  assumes "pending_ok fr V \<rho> \<sigma> x p pg"
    and "pid (fr' x) = pid (fr x)" "lastWrittenGSN (fr' x) = lastWrittenGSN (fr x)"
    and "page (fr' x) = page (fr x)"
    and "\<And>l. \<rho> x = Res l \<Longrightarrow> \<rho>' x = Res l" "\<rho> x = Leaked \<Longrightarrow> \<rho>' x = Leaked" "\<And>l. \<sigma>' p = Some l \<Longrightarrow> \<sigma> p = Some l"
    and "\<And>l bf. \<rho> x = Leaked \<Longrightarrow> \<sigma>' p = Some l \<Longrightarrow> V l = Some (Hot bf) \<Longrightarrow> \<not> isWB (fr bf) \<Longrightarrow> lastWrittenGSN (fr bf) < GSN (page (fr bf)) \<Longrightarrow>
      V' l = Some (Hot bf) \<and> \<not> isWB (fr' bf) \<and> lastWrittenGSN (fr' bf) < GSN (page (fr' bf))"
  shows "pending_ok fr' V' \<rho>' \<sigma>' x p pg"
proof (cases "\<rho> x = Leaked")
  case True
  have "\<exists>bf. V' l = Some (Hot bf) \<and> \<not> isWB (fr' bf) \<and> lastWrittenGSN (fr' bf) < GSN (page (fr' bf))" if "\<sigma>' p = Some l" for l
  proof -
    have "\<sigma> p = Some l" using assms(7) that by blast
    moreover obtain bf where "V l = Some (Hot bf)" "\<not> isWB (fr bf)" "lastWrittenGSN (fr bf) < GSN (page (fr bf))"
      using assms(1) True calculation unfolding pending_ok_def by auto
    ultimately show ?thesis using assms(8) True that by blast
  qed
  then show ?thesis using assms(1-4,6) True unfolding pending_ok_def by auto
next
  case False
  then show ?thesis using assms(1-5) unfolding pending_ok_def by auto
qed

lemma contents_page: "(\<And>x. dt (page (fr' x)) = dt (page (fr x))) \<Longrightarrow> contents fr' D = contents fr D"
  by (rule ext) (simp add: contents_def split: swip_view.split)

section \<open>Hot and cool swips\<close>

lemma resolve_cool_inv:
  assumes inv: "bm_inv_at flags V \<rho> \<sigma> b" and p: "inactive (threads b t)" and v: "V l = Some (Cool bf)"
  shows "bm_inv_at flags (V(l \<mapsto> Hot bf)) \<rho> \<sigma> (resolve_cool t l (swip_cool bf) b) \<and>
    pages (resolve_cool t l (swip_cool bf) b) = pages b"
proof -
  note i = bm_inv_atD [OF inv] note E = i(2) and S = i(4)
  have u: "untagged bf" using encodes_untagged [OF E v] by simp
  have w: "bfPtrAsHot (swip_cool bf) = bf" "swip_warm (swip_cool bf) = bf"
    using swip_view_simps [OF u] by (auto simp: swip_view_def split: if_splits)
  have r: "\<rho> bf = Res l" using gS_view [OF S] v by blast
  have r': "resident V l' bf \<longleftrightarrow> l' = l" for l' using gS_role [OF S] r by auto
  let ?fr = "(bfs b)(bf := (bfs b bf)\<lparr>state := HOT\<rparr>)" and ?V = "V(l \<mapsto> Hot bf)"
  have E': "encodes ((swips b)(l \<mapsto> bf)) ?V" using encodes_upd [OF E, of "Some (Hot bf)" l] u by simp
  have q: "quiet (bfs b) io x \<Longrightarrow> quiet ?fr io x" for io x by (auto simp: quiet_def)
  have S': "gS ?fr ?V \<rho> \<sigma>"
    by (rule gS_step [OF S, where bf = bf]) (use r r' v S in \<open>auto simp: resident_def gS_def owner_def\<close>)
  have P': "pending_ok ?fr ?V \<rho> \<sigma> x p pg" if "pending_ok (bfs b) V \<rho> \<sigma> x p pg" for x p pg
    by (rule pending_mono [OF that]) (use v in auto)
  have "bm_inv_at flags ?V \<rho> \<sigma> (resolve_cool t l (swip_cool bf) b)"
    unfolding bm_inv_at_def resolve_cool_def w Let_def set_thread_simps set_swip_simps with_bf_simps views_simps
  proof (intro conjI)
    show "gC ?fr \<rho> (ssd b)" using i(5) by (auto simp: gC_def)
    have "gT (threads b) ?fr ?V \<rho> (io_get b) (ssd b)" by (rule gT_frame [OF i(7)]) (use r v in auto)
    then show "gT ((threads b)(t := Resolved bf)) ?fr ?V \<rho> (io_get b) (ssd b)" by (rule gT_inactive) (use p in \<open>auto simp: inactive_def\<close>)
    have "gI (threads b) ?fr ?V \<rho> (io_get b) (ssd b)" by (rule gI_frame [OF i(8)]) (use r v in auto)
    then show "gI ((threads b)(t := Resolved bf)) ?fr ?V \<rho> (io_get b) (ssd b)" by (rule gI_inactive) (use p in \<open>auto simp: inactive_def\<close>)
    show "gP ?fr ?V \<rho> \<sigma> (io_get b) (write_buffer b) (io_events b) (ssd b)"
      using i(9) P' q unfolding gP_def by (auto simp: case_prod_beta)
    show "gQ (pp b) (queue b) (write_buffer b) (io_events b) ?fr (io_get b) (length (partitions b))"
      using i(10) q by (rule gQ_mono)
  qed (use i(1,3,6) E' S' in auto)
  moreover have "pages (resolve_cool t l (swip_cool bf) b) l' = pages b l'" for l'
    using pages_view [OF E] pages_view [of "resolve_cool t l (swip_cool bf) b" ?V] E' v w
      contents_page [of ?fr "bfs b" "ssd b"]
    by (auto simp: resolve_cool_def contents_def Let_def)
  ultimately show ?thesis by blast
qed

section \<open>Changes of owners\<close>

lemma gS_roles: "gS fr V \<rho> \<sigma> \<Longrightarrow> (\<And>x l. \<rho>' x = Res l \<longleftrightarrow> \<rho> x = Res l) \<Longrightarrow> gS fr V \<rho>' \<sigma>"
  by (simp add: gS_def)

lemma gC_roles: "gC fr \<rho> D \<Longrightarrow> (\<And>x l. \<rho>' x = Res l \<longleftrightarrow> \<rho> x = Res l) \<Longrightarrow> gC fr \<rho>' D"
  by (simp add: gC_def)

lemma gP_mono:
  assumes P: "gP fr V \<rho> \<sigma> io wb ev D"
    and "\<And>x p pg. (x, p, pg) \<in> set (wb @ ev) \<Longrightarrow> pending_ok fr V \<rho> \<sigma> x p pg \<Longrightarrow> pending_ok fr' V' \<rho>' \<sigma>' x p pg"
    and "\<And>x. x \<in> fst ` set (wb @ ev) \<Longrightarrow> quiet fr io x \<Longrightarrow> quiet fr' io' x"
    and "\<And>x. isWB (fr' x) = isWB (fr x)"
    and "\<And>x p pg l. (x, p, pg) \<in> set ev \<Longrightarrow> \<rho>' x = Res l \<Longrightarrow> (\<exists>l. \<rho> x = Res l) \<and> dt (D' p) = dt (D p)"
  shows "gP fr' V' \<rho>' \<sigma>' io' wb ev D'"
  unfolding gP_def
proof (intro conjI allI ballI)
  fix y assume y: "y \<in> set (wb @ ev)"
  obtain x p pg where e: "y = (x, p, pg)" by (cases y)
  have "pending_ok fr V \<rho> \<sigma> x p pg \<and> quiet fr io x" using P y e unfolding gP_def by fastforce
  moreover have "x \<in> fst ` set (wb @ ev)" using y e by force
  ultimately show "case y of (bf, p, pg) \<Rightarrow> pending_ok fr' V' \<rho>' \<sigma>' bf p pg \<and> quiet fr' io' bf"
    using assms(2,3) y e by auto
next
  fix y assume y: "y \<in> set ev"
  obtain x p pg where e: "y = (x, p, pg)" by (cases y)
  have "\<forall>l. \<rho> x = Res l \<longrightarrow> dt (D p) = dt pg" using P y e unfolding gP_def by fastforce
  then show "case y of (bf, p, pg) \<Rightarrow> \<forall>l. \<rho>' bf = Res l \<longrightarrow> dt (D' p) = dt pg" using assms(5) y e by fastforce
next
  fix bf show "isWB (fr' bf) = (bf \<in> fst ` set (wb @ ev))" using P assms(4) by (simp add: gP_def)
qed (use P in \<open>simp_all add: gP_def\<close>)

lemma gP_roles:
  assumes "gP fr V \<rho> \<sigma> io wb ev D" "\<And>x l. \<rho>' x = Res l \<longleftrightarrow> \<rho> x = Res l" "\<And>x. \<rho>' x = Leaked \<longleftrightarrow> \<rho> x = Leaked"
    "\<And>x. quiet fr io x \<Longrightarrow> quiet fr io' x"
  shows "gP fr V \<rho>' \<sigma> io' wb ev D"
  by (rule gP_mono [OF assms(1)]) (use assms(2-4) in \<open>auto simp: pending_ok_def\<close>)

text \<open>The number of an evicted page is not the number of a cool frame.\<close>

lemma quiet_evicted:
  assumes "gS fr V \<rho> \<sigma>" "V l = Some (Evicted p)" "quiet fr io x"
  shows "quiet fr (io(p := e)) x"
proof -
  have "pid (fr x) \<noteq> p" if c: "state (fr x) = COOL"
  proof
    assume "pid (fr x) = p"
    obtain l' where l': "V l' = Some (Cool x)" "\<rho> x = Res l'" using gS_cool [OF assms(1) c] by blast
    then have "\<sigma> p = Some l'" using gS_owner [OF assms(1)] \<open>pid (fr x) = p\<close> by blast
    then show False using gS_evicted [OF assms(1,2)] l' assms(2) by simp
  qed
  then show ?thesis using assms(3) by (auto simp: quiet_def)
qed

lemma quiet_put: "io p \<noteq> None \<Longrightarrow> quiet fr io x \<Longrightarrow> quiet fr (io(p := e)) x"
  by (auto simp: quiet_def)

section \<open>Starting to read a page\<close>

lemma gT_loads: "gT th fr V \<rho> io D \<Longrightarrow> loads (th t) = Some p \<Longrightarrow> io p \<noteq> None"
  by (cases "th t") (auto simp: gT_def thread_ok_def loading_ok_def dest!: spec [of _ t])

lemma gT_waits: "gT th fr V \<rho> io D \<Longrightarrow> io p = None \<Longrightarrow> waiters th p = {}"
proof -
  assume T: "gT th fr V \<rho> io D" and n: "io p = None"
  have "th t \<noteq> Waiting p a" for t a
  proof
    assume "th t = Waiting p a"
    then show False using T n by (auto simp: gT_def thread_ok_def dest!: spec [of _ t])
  qed
  then show ?thesis by (auto simp: waiters_def)
qed

lemma gT_step:
  assumes T: "gT th fr V \<rho> io D"
    and "\<And>t'. t' \<noteq> t \<Longrightarrow> thread_ok fr V \<rho> io D t' (th t') \<Longrightarrow> thread_ok fr' V' \<rho>' io' D' t' (th t')"
    and "thread_ok fr' V' \<rho>' io' D' t pc"
    and "\<And>t' p. t' \<noteq> t \<Longrightarrow> loads pc = Some p \<Longrightarrow> loads (th t') \<noteq> Some p"
    and "\<And>t' p. t' \<noteq> t \<Longrightarrow> leaves pc = Some p \<Longrightarrow> leaves (th t') \<noteq> Some p"
  shows "gT (th(t := pc)) fr' V' \<rho>' io' D'"
  unfolding gT_def
proof (intro conjI allI impI)
  fix t'
  show "thread_ok fr' V' \<rho>' io' D' t' ((th(t := pc)) t')" using T assms(2,3) by (auto simp: gT_def)
next
  fix t1 t2 p assume "loads ((th(t := pc)) t1) = Some p" "loads ((th(t := pc)) t2) = Some p"
  then show "t1 = t2" using assms(4) T unfolding gT_def by (metis fun_upd_apply)
next
  fix t1 t2 p assume "leaves ((th(t := pc)) t1) = Some p" "leaves ((th(t := pc)) t2) = Some p"
  then show "t1 = t2" using assms(5) T unfolding gT_def by (metis fun_upd_apply)
next
  show "finite {t'. (th(t := pc)) t' \<noteq> Outside}" using T by (intro finite_upd) (simp add: gT_def)
qed

lemma gT_miss:
  assumes T: "gT th fr V \<rho> io D" and "io p = None" "V l = Some (Evicted p)" "untagged bf"
    and r: "\<And>t. \<rho> bf \<noteq> Load t"
  shows "gT (th(t := Reading l p bf a)) fr V (\<rho>(bf := Load t)) (io(p \<mapsto> new_io_frame a)) D"
proof (rule gT_step [OF T])
  show "thread_ok fr V (\<rho>(bf := Load t)) (io(p \<mapsto> new_io_frame a)) D t' (th t')" if "thread_ok fr V \<rho> io D t' (th t')" for t'
    using that by (rule thread_ok_mono) (use r assms(2) in auto)
  show "thread_ok fr V (\<rho>(bf := Load t)) (io(p \<mapsto> new_io_frame a)) D t (Reading l p bf a)"
    using assms(3,4) by (simp add: thread_ok_def loading_ok_def new_io_frame_def)
  show "loads (th t') \<noteq> Some p'" if "loads (Reading l p bf a) = Some p'" for t' p'
    using that gT_loads [OF T, of t' p] assms(2) by auto
qed simp

lemma gI_miss:
  assumes I: "gI th fr V \<rho> io D" and "io p = None" "inactive (th t)" "waiters th p = {}" and r: "\<And>p. \<rho> bf \<noteq> ReadyFor p"
  shows "gI (th(t := Reading l p bf a)) fr V (\<rho>(bf := Load t)) (io(p \<mapsto> new_io_frame a)) D"
  unfolding gI_def
proof (intro allI impI)
  fix p' e assume e: "(io(p \<mapsto> new_io_frame a)) p' = Some e"
  have w: "waiters (th(t := Reading l p bf a)) p' = waiters th p'" using assms(3) by (auto simp: waiters_def inactive_def)
  show "entry_ok fr V (\<rho>(bf := Load t)) D p' e (card (waiters (th(t := Reading l p bf a)) p'))"
  proof (cases "p' = p")
    case True
    then show ?thesis using e w assms(4) by (auto simp: entry_ok_def new_io_frame_def)
  next
    case False
    then have "entry_ok fr V \<rho> D p' e (card (waiters th p'))" using I e by (simp add: gI_def)
    then show ?thesis unfolding w by (rule entry_ok_mono) (use r in auto)
  qed
qed

lemma gF_pop:
  assumes "gF fl bt \<rho>" "fl q = bf # rest"
  shows "gF (fl(q := rest)) bt (\<rho>(bf := Load t))" "\<rho> bf = InFree q" "untagged bf"
proof -
  have *: "\<forall>q. distinct (fl q) \<and> (\<forall>bf \<in> set (fl q). \<rho> bf = InFree q \<and> untagged bf)" "distinct bt"
    "\<forall>bf \<in> set bt. \<rho> bf = InBatch \<and> untagged bf"
    using assms(1) by (auto simp: gF_def)
  have q: "distinct (bf # rest)" "\<forall>x \<in> set (bf # rest). \<rho> x = InFree q \<and> untagged x" using *(1) assms(2) by metis+
  then show "\<rho> bf = InFree q" "untagged bf" by auto
  then have "\<rho> x = InFree q' \<and> untagged x \<and> x \<noteq> bf" if "x \<in> set ((fl(q := rest)) q')" for x q'
    using that * q by (cases "q' = q") auto
  moreover have "distinct ((fl(q := rest)) q')" for q' using *(1) q(1) by simp
  moreover have "x \<noteq> bf" if "x \<in> set bt" for x using * that \<open>\<rho> bf = InFree q\<close> by auto
  ultimately show "gF (fl(q := rest)) bt (\<rho>(bf := Load t))" using *(2,3) unfolding gF_def by (auto simp del: fun_upd_apply simp: fun_upd_other)
qed

lemma resolve_miss_inv:
  assumes inv: "bm_inv_at flags V \<rho> \<sigma> b" and pc: "inactive (threads b t)" and v: "V l = Some (Evicted p)" and io: "io_get b p = None"
    and q: "q < length (partitions b)"
  shows "\<exists>\<rho>'. bm_inv_at flags V \<rho>' \<sigma> (resolve_miss t l p q b) \<and> swips (resolve_miss t l p q b) = swips b \<and>
    bfs (resolve_miss t l p q b) = bfs b \<and> ssd (resolve_miss t l p q b) = ssd b"
proof (cases "dram_free_list (partitions b ! q)")
  case Nil
  have "bm_inv_at flags V \<rho> \<sigma> (set_thread t Restart b)"
    using inv gT_inactive gI_inactive pc by (auto simp: bm_inv_at_def inactive_def)
  then show ?thesis using Nil by (auto simp: resolve_miss_def)
next
  case (Cons bf rest)
  note i = bm_inv_atD [OF inv]
  let ?b1 = "with_partition q (\<lambda>P. P\<lparr>dram_free_list := rest\<rparr>) b"
  let ?a = "next_entry b"
  let ?b2 = "with_io p (ht_insert p (new_io_frame ?a)) ?b1"
  let ?\<rho> = "\<rho>(bf := Load t)" and ?io = "(io_get b)(p \<mapsto> new_io_frame ?a)"
  have f: "frees b q = bf # rest" using Cons q by (simp add: frees_def)
  have b1: "bm_wf flags ?b1" "io_get ?b1 = io_get b" "used ?b1 = used b" by (rule with_partition_local [OF i(1)]; simp)+
  have b1': "frees ?b1 = (frees b)(q := rest)" "queue ?b1 = queue b" using q by (simp_all add: frees_partition queue_keep)
  have "io_get ?b1 p = None" using b1(2) io by simp
  note b2 = io_ins [OF b1(1) this, of "new_io_frame ?a", unfolded b1 b1']
  have r: "\<rho> bf = InFree q" "untagged bf" "gF ((frees b)(q := rest)) (freed_bfs_batch b) ?\<rho>" using gF_pop [OF i(6) f] by auto
  have e: "resolve_miss t l p q b = set_thread t (Reading l p bf ?a) (?b2\<lparr>next_entry := ?a + 1\<rparr>)"
    using Cons by (simp add: resolve_miss_def Let_def)
  have qt: "quiet (bfs b) (io_get b) x \<Longrightarrow> quiet (bfs b) ?io x" for x by (rule quiet_evicted [OF i(4) v])
  let ?b' = "resolve_miss t l p q b"
  have eqs: "swips ?b' = swips b" "bfs ?b' = bfs b" "ssd ?b' = ssd b" "freed_bfs_batch ?b' = freed_bfs_batch b"
    "threads ?b' = (threads b)(t := Reading l p bf ?a)" "pp ?b' = pp b" "write_buffer ?b' = write_buffer b" "io_events ?b' = io_events b"
    "length (partitions ?b') = length (partitions b)" "io_get ?b' = ?io" "frees ?b' = (frees b)(q := rest)" "queue ?b' = queue b" "used ?b' = used b"
    "bm_wf flags ?b'"
    using b2 unfolding e by auto
  have "gS (bfs b) V ?\<rho> \<sigma>" by (rule gS_roles [OF i(4)]) (use r in auto)
  moreover have "gC (bfs b) ?\<rho> (ssd b)" by (rule gC_roles [OF i(5)]) (use r in auto)
  moreover have "gT (threads ?b') (bfs b) V ?\<rho> ?io (ssd b)" unfolding eqs by (rule gT_miss [OF i(7) io v r(2)]) (use r in auto)
  moreover have "gI (threads ?b') (bfs b) V ?\<rho> ?io (ssd b)" unfolding eqs by (rule gI_miss [OF i(8) io pc gT_waits [OF i(7) io]]) (use r in auto)
  moreover have "gP (bfs b) V ?\<rho> \<sigma> ?io (write_buffer b) (io_events b) (ssd b)" by (rule gP_roles [OF i(9)]) (use r qt in auto)
  moreover have "gQ (pp b) (queue b) (write_buffer b) (io_events b) (bfs b) ?io (length (partitions b))" by (rule gQ_mono [OF i(10) qt])
  ultimately have "bm_inv_at flags V ?\<rho> \<sigma> ?b'" using i(2,3) r(3) eqs unfolding bm_inv_at_def by simp
  then show ?thesis using eqs(1-3) by blast
qed

section \<open>One I/O frame\<close>

lemma gI_step:
  assumes I: "gI th fr V \<rho> io D"
    and "\<And>p'. p' \<noteq> p \<Longrightarrow> io' p' = io p' \<and> waiters th' p' = waiters th p'"
    and "\<And>x p'. p' \<noteq> p \<Longrightarrow> \<rho> x = ReadyFor p' \<Longrightarrow> \<rho>' x = ReadyFor p' \<and> fr' x = fr x"
    and "\<And>l p'. p' \<noteq> p \<Longrightarrow> V' l = Some (Evicted p') \<longleftrightarrow> V l = Some (Evicted p')"
    and "\<And>e. io' p = Some e \<Longrightarrow> entry_ok fr' V' \<rho>' D p e (card (waiters th' p))"
  shows "gI th' fr' V' \<rho>' io' D"
  unfolding gI_def
proof (intro allI impI)
  fix p' e assume e: "io' p' = Some e"
  show "entry_ok fr' V' \<rho>' D p' e (card (waiters th' p'))"
  proof (cases "p' = p")
    case False
    then have "entry_ok fr V \<rho> D p' e (card (waiters th' p'))" using I e assms(2) by (simp add: gI_def)
    then show ?thesis by (rule entry_ok_mono) (use assms(3,4) False in auto)
  qed (use assms(5) e in auto)
qed

lemma gT_mutex:
  "gT th fr V \<rho> io D \<Longrightarrow> io p = Some e \<Longrightarrow> loads (th t) = Some p \<Longrightarrow> io_mutex e"
  by (cases "th t") (auto simp: gT_def thread_ok_def loading_ok_def dest!: spec [of _ t])

lemma gT_leaving:
  "gT th fr V \<rho> io D \<Longrightarrow> io p = Some e \<Longrightarrow> leaves (th t) = Some p \<Longrightarrow> \<not> io_mutex e \<and> io_state e \<noteq> READY \<and> readers_counter e = 0"
  by (cases "th t") (auto simp: gT_def thread_ok_def dest!: spec [of _ t])

lemma waiters_other: "(\<And>a. th t \<noteq> Waiting p a) \<Longrightarrow> (\<And>a. pc \<noteq> Waiting p a) \<Longrightarrow> waiters (th(t := pc)) p = waiters th p"
  by (auto simp: waiters_def)

lemma gT_finite: "gT th fr V \<rho> io D \<Longrightarrow> finite (waiters th p)"
  by (simp add: gT_def finite_waiters)

lemma resolve_join_inv:
  assumes inv: "bm_inv_at flags V \<rho> \<sigma> b" and pc: "inactive (threads b t)" and v: "V l = Some (Evicted p)"
    and io: "io_get b p = Some e" "io_state e = READING"
  shows "bm_inv_at flags V \<rho> \<sigma> (resolve_join t p e b) \<and> swips (resolve_join t p e b) = swips b \<and>
    bfs (resolve_join t p e b) = bfs b \<and> ssd (resolve_join t p e b) = ssd b"
proof -
  note i = bm_inv_atD [OF inv]
  let ?e = "e\<lparr>readers_counter := readers_counter e + 1\<rparr>" and ?b' = "resolve_join t p e b"
  let ?th = "(threads b)(t := Waiting p (io_addr e))" and ?io = "(io_get b)(p \<mapsto> ?e)"
  have eo: "entry_ok (bfs b) V \<rho> (ssd b) p e (card (waiters (threads b) p))" using i(8) io(1) by (simp add: gI_def)
  then have m: "io_mutex e" using v io(2) by (auto simp: entry_ok_def)
  note u = io_upd [OF i(1) io(1), of ?e]
  have eqs: "swips ?b' = swips b" "bfs ?b' = bfs b" "ssd ?b' = ssd b" "freed_bfs_batch ?b' = freed_bfs_batch b"
    "threads ?b' = ?th" "pp ?b' = pp b" "write_buffer ?b' = write_buffer b" "io_events ?b' = io_events b"
    "length (partitions ?b') = length (partitions b)" "io_get ?b' = ?io" "frees ?b' = frees b" "queue ?b' = queue b" "used ?b' = used b"
    "bm_wf flags ?b'"
    using u by (auto simp: resolve_join_def)
  have w: "waiters ?th p' = (if p' = p then insert t (waiters (threads b) p) else waiters (threads b) p')" "t \<notin> waiters (threads b) p" for p'
    using pc by (auto simp: waiters_def inactive_def)
  have nl: "leaves (threads b t') \<noteq> Some p" for t' using gT_leaving [OF i(7) io(1)] m by blast
  have "gT ?th (bfs b) V \<rho> ?io (ssd b)"
  proof (rule gT_step [OF i(7)])
    show "thread_ok (bfs b) V \<rho> ?io (ssd b) t' (threads b t')" if "thread_ok (bfs b) V \<rho> (io_get b) (ssd b) t' (threads b t')" for t'
      using that by (rule thread_ok_mono) (use io(1) nl [of t'] in auto)
  qed (auto simp: thread_ok_def)
  moreover have "gI ?th (bfs b) V \<rho> ?io (ssd b)"
    by (rule gI_step [OF i(8), of p]) (use w eo gT_finite [OF i(7)] in \<open>auto simp: entry_ok_def\<close>)
  moreover have qt: "quiet (bfs b) (io_get b) x \<Longrightarrow> quiet (bfs b) ?io x" for x using io(1) by (intro quiet_put) auto
  moreover have "gP (bfs b) V \<rho> \<sigma> ?io (write_buffer b) (io_events b) (ssd b)" by (rule gP_roles [OF i(9)]) (use qt in auto)
  moreover have "gQ (pp b) (queue b) (write_buffer b) (io_events b) (bfs b) ?io (length (partitions b))" by (rule gQ_mono [OF i(10) qt])
  ultimately have "bm_inv_at flags V \<rho> \<sigma> ?b'" using i(2-6) eqs unfolding bm_inv_at_def by simp
  then show ?thesis using eqs(1-3) by blast
qed

end
