(* ===== verification/BufferLoad.thy ===== *)
theory BufferLoad
  imports BufferResolve
begin

text \<open>The steps of a thread that loads a page, and of those that wait for it, keep the invariant.\<close>

section \<open>Swizzling a loaded page in\<close>

lemma pages_eqI:
  assumes "encodes (swips b) V" "encodes (swips b') V'"
    "\<And>l. map_option (contents (bfs b') (ssd b')) (V' l) = map_option (contents (bfs b) (ssd b)) (V l)"
  shows "pages b' = pages b"
  using assms by (intro ext) (simp add: pages_view)

lemma gS_swizzle:
  assumes S: "gS fr V \<rho> \<sigma>" and v: "V l = Some (Evicted p)" and p: "pid (fr bf) = p" and r: "\<And>l. \<rho> bf \<noteq> Res l"
  shows "gS (fr(bf := (fr bf)\<lparr>state := HOT\<rparr>)) (V(l \<mapsto> Hot bf)) (\<rho>(bf := Res l)) \<sigma>"
proof (rule gS_step [OF S])
  show "\<forall>l'. l' \<noteq> l \<longrightarrow> \<not> resident V l' bf" using gS_role [OF S] r by blast
  have "\<sigma> p' = Some l \<longleftrightarrow> p' = p" for p' using S v by (auto simp: gS_def owner_def resident_def)
  then show "\<forall>p' l'. \<sigma> p' = Some l' \<longleftrightarrow>
      (if l' = l then owner (fr(bf := (fr bf)\<lparr>state := HOT\<rparr>)) (V(l \<mapsto> Hot bf)) l p' else \<sigma> p' = Some l')"
    using p by (auto simp: owner_def resident_def)
qed (use v in \<open>auto simp: resident_def\<close>)

lemma gC_swizzle:
  "gC fr \<rho> D \<Longrightarrow> loaded fr D bf p \<Longrightarrow> gC (fr(bf := (fr bf)\<lparr>state := HOT\<rparr>)) (\<rho>(bf := Res l)) D"
  by (auto simp: gC_def loaded_def)

lemma gP_swizzle:
  assumes P: "gP fr V \<rho> \<sigma> io wb ev D" and v: "V l = Some (Evicted p)" and r: "\<And>l. \<rho> bf \<noteq> Res l" "\<rho> bf \<noteq> Leaked"
    and q: "\<And>x. quiet fr io x \<Longrightarrow> quiet (fr(bf := (fr bf)\<lparr>state := HOT\<rparr>)) io' x"
  shows "gP (fr(bf := (fr bf)\<lparr>state := HOT\<rparr>)) (V(l \<mapsto> Hot bf)) (\<rho>(bf := Res l)) \<sigma> io' wb ev D"
proof (rule gP_mono [OF P])
  have nb: "x \<noteq> bf" if "pending_ok fr V \<rho> \<sigma> x p' pg" for x p' pg using that r by (auto simp: pending_ok_def)
  show "pending_ok (fr(bf := (fr bf)\<lparr>state := HOT\<rparr>)) (V(l \<mapsto> Hot bf)) (\<rho>(bf := Res l)) \<sigma> x p' pg"
    if "pending_ok fr V \<rho> \<sigma> x p' pg" for x p' pg
    using that by (rule pending_mono) (use nb [OF that] v in auto)
  fix x p' pg l' assume "(x, p', pg) \<in> set ev" "(\<rho>(bf := Res l)) x = Res l'"
  moreover have "x \<noteq> bf" using calculation(1) P nb unfolding gP_def by fastforce
  ultimately show "(\<exists>l. \<rho> x = Res l) \<and> dt (D p') = dt (D p')" by auto
qed (use q in auto)

text \<open>The frame \<open>bf\<close> is owned by the thread or by the I/O frame of the page; the entry of the page becomes \<open>eo\<close>.\<close>

lemma swizzle_quiet:
  "io p \<noteq> None \<Longrightarrow> quiet fr io x \<Longrightarrow> quiet (fr(bf := (fr bf)\<lparr>state := HOT\<rparr>)) (io(p := eo)) x"
  by (auto simp: quiet_def)

lemma swizzle_threads:
  assumes T: "gT th fr V \<rho> io D" and e: "io p = Some e" and v: "V l = Some (Evicted p)"
    and r: "\<And>t'. \<rho> bf = Load t' \<Longrightarrow> t' = t" "\<And>t'. t' \<noteq> t \<Longrightarrow> loads (th t') \<noteq> Some p" "\<And>t'. leaves (th t') \<noteq> Some p"
    and eo: "case eo of None \<Rightarrow> waiters th p \<subseteq> {t} | Some e' \<Rightarrow> io_addr e' = io_addr e"
  shows "gT (th(t := Resolved bf)) (fr(bf := (fr bf)\<lparr>state := HOT\<rparr>)) (V(l \<mapsto> Hot bf)) (\<rho>(bf := Res l)) (io(p := eo)) D"
proof (rule gT_step [OF T])
  fix t' assume t': "t' \<noteq> t" and ok: "thread_ok fr V \<rho> io D t' (th t')"
  have w: "th t' \<noteq> Waiting p a" if "eo = None" for a using eo that t' by (auto simp: waiters_def)
  show "thread_ok (fr(bf := (fr bf)\<lparr>state := HOT\<rparr>)) (V(l \<mapsto> Hot bf)) (\<rho>(bf := Res l)) (io(p := eo)) D t' (th t')"
  proof (cases "\<exists>a. th t' = Waiting p a")
    case True
    then obtain a e' where "th t' = Waiting p a" "eo = Some e'" using w by (cases eo) auto
    then show ?thesis using ok eo e by (auto simp: thread_ok_def)
  next
    case False
    have n: "loads (th t') \<noteq> Some p" "leaves (th t') \<noteq> Some p" using r t' by auto
    have b: "\<rho> bf \<noteq> Load t'" using r(1) t' by blast
    show ?thesis
    proof (cases "th t'")
      case (Reading l' p' bf' a')
      then show ?thesis using ok n b v by (auto simp: thread_ok_def loading_ok_def)
    next
      case (HasRead l' p' bf' a')
      then show ?thesis using ok n b v by (auto simp: thread_ok_def loading_ok_def loaded_def)
    next
      case (Waiting p' a')
      then show ?thesis using ok False by (auto simp: thread_ok_def)
    next
      case (Leaving p' a')
      then show ?thesis using ok n by (auto simp: thread_ok_def)
    qed (use ok in \<open>auto simp: thread_ok_def\<close>)
  qed
qed (auto simp: thread_ok_def)

lemma swizzle_inv:
  assumes inv: "bm_inv_at flags V \<rho> \<sigma> b" and v: "V l = Some (Evicted p)" and io: "io_get b p = Some e"
    and ld: "loaded (bfs b) (ssd b) bf p" and u: "untagged bf"
    and r: "\<rho> bf = Load t \<or> \<rho> bf = ReadyFor p" "\<And>t'. t' \<noteq> t \<Longrightarrow> loads (threads b t') \<noteq> Some p" "\<And>t'. leaves (threads b t') \<noteq> Some p"
    and nw: "\<And>p' a. threads b t \<noteq> Waiting p' a"
    and eo: "case eo of None \<Rightarrow> waiters (threads b) p = {} | Some e' \<Rightarrow> io_addr e' = io_addr e \<and> \<not> io_mutex e' \<and> io_state e' \<noteq> READY \<and>
      io_state e' \<noteq> UNDEFINED \<and> readers_counter e' = int (card (waiters (threads b) p))"
    and b': "swips b' = (swips b)(l \<mapsto> bf)" "bfs b' = (bfs b)(bf := (bfs b bf)\<lparr>state := HOT\<rparr>)" "ssd b' = ssd b"
      "freed_bfs_batch b' = freed_bfs_batch b" "threads b' = (threads b)(t := Resolved bf)" "pp b' = pp b" "write_buffer b' = write_buffer b"
      "io_events b' = io_events b" "length (partitions b') = length (partitions b)" "io_get b' = (io_get b)(p := eo)" "frees b' = frees b"
      "queue b' = queue b" "used b' = used b" "bm_wf flags b'"
  shows "bm_inv_at flags (V(l \<mapsto> Hot bf)) (\<rho>(bf := Res l)) \<sigma> b' \<and> pages b' = pages b"
proof
  note i = bm_inv_atD [OF inv]
  let ?fr = "(bfs b)(bf := (bfs b bf)\<lparr>state := HOT\<rparr>)" and ?V = "V(l \<mapsto> Hot bf)" and ?\<rho> = "\<rho>(bf := Res l)" and ?io = "(io_get b)(p := eo)"
  let ?th = "(threads b)(t := Resolved bf)"
  have n: "\<And>l. \<rho> bf \<noteq> Res l" "\<rho> bf \<noteq> Leaked" using r(1) by auto
  have q: "quiet (bfs b) (io_get b) x \<Longrightarrow> quiet ?fr ?io x" for x using io by (intro swizzle_quiet) auto
  have uniq: "l' = l" if "V l' = Some (Evicted p)" for l' using gS_evicted [OF i(4) that] gS_evicted [OF i(4) v] by simp
  have w: "waiters ?th p' = waiters (threads b) p'" for p' using nw by (intro waiters_other) auto
  have E: "encodes (swips b') ?V" using encodes_upd [OF i(2), of "Some (Hot bf)" l] u b'(1) by simp
  have "gT ?th ?fr ?V ?\<rho> ?io (ssd b)" by (rule swizzle_threads [OF i(7) io v]) (use r eo in \<open>auto split: option.splits\<close>)
  moreover have "gI ?th ?fr ?V ?\<rho> ?io (ssd b)"
  proof (rule gI_step [OF i(8), of p])
    show "entry_ok ?fr ?V ?\<rho> (ssd b) p e' (card (waiters ?th p))" if "?io p = Some e'" for e'
      using that eo uniq unfolding w by (auto simp: entry_ok_def)
  qed (use w r(1) v in auto)
  moreover have "gF (frees b) (freed_bfs_batch b) ?\<rho>" using i(6) r(1) by (fastforce simp: gF_def)
  moreover have "gS ?fr ?V ?\<rho> \<sigma>" by (rule gS_swizzle [OF i(4) v _ n(1)]) (use ld in \<open>simp add: loaded_def\<close>)
  moreover have "gC ?fr ?\<rho> (ssd b)" by (rule gC_swizzle [OF i(5) ld])
  moreover have "gP ?fr ?V ?\<rho> \<sigma> ?io (write_buffer b) (io_events b) (ssd b)" by (rule gP_swizzle [OF i(9) v n q])
  moreover have "gQ (pp b) (queue b) (write_buffer b) (io_events b) ?fr ?io (length (partitions b))" by (rule gQ_mono [OF i(10) q])
  ultimately show "bm_inv_at flags ?V ?\<rho> \<sigma> b'" using i(3) b' E unfolding bm_inv_at_def by simp
  have "contents ?fr (ssd b) = contents (bfs b) (ssd b)" by (rule contents_page) auto
  moreover have "contents (bfs b) (ssd b) (Hot bf) = contents (bfs b) (ssd b) (Evicted p)" using ld by (simp add: contents_def loaded_def)
  ultimately show "pages b' = pages b" using v b'(2,3) by (intro pages_eqI [OF i(2) E]) auto
qed

lemma entry_ok_at: "gI th fr V \<rho> io D \<Longrightarrow> io p = Some e \<Longrightarrow> entry_ok fr V \<rho> D p e (card (waiters th p))"
  by (simp add: gI_def)

lemma no_waiters: "gT th fr V \<rho> io D \<Longrightarrow> card (waiters th p) = 0 \<Longrightarrow> waiters th p = {}"
  using gT_finite by (simp add: card_eq_0_iff)

lemma resolve_ready_inv:
  assumes inv: "bm_inv_at flags V \<rho> \<sigma> b" and pc: "inactive (threads b t)" and v: "V l = Some (Evicted p)"
    and io: "io_get b p = Some e" "io_state e = READY"
  shows "\<exists>V' \<rho>'. bm_inv_at flags V' \<rho>' \<sigma> (resolve_ready t l p e b) \<and> pages (resolve_ready t l p e b) = pages b"
proof -
  note i = bm_inv_atD [OF inv]
  have eo: "entry_ok (bfs b) V \<rho> (ssd b) p e (card (waiters (threads b) p))" by (rule entry_ok_at [OF i(8) io(1)])
  then have m: "\<not> io_mutex e" and ld: "loaded (bfs b) (ssd b) (io_bf e) p" "untagged (io_bf e)" "\<rho> (io_bf e) = ReadyFor p"
    and rc: "readers_counter e = 1 + int (card (waiters (threads b) p))"
    using io(2) by (auto simp: entry_ok_def)
  let ?e = "e\<lparr>io_bf := 0, readers_counter := readers_counter e - 1, io_state := TO_DELETE\<rparr>"
  let ?eo = "if readers_counter e = 1 then None else Some ?e"
  let ?b1 = "set_swip l (Some (io_bf e)) (with_bf (io_bf e) (\<lambda>f. f\<lparr>state := HOT\<rparr>) b)"
  have b1: "bm_wf flags ?b1" "io_get ?b1 p = Some e" using i(1) io(1) by simp_all
  have "bm_inv_at flags (V(l \<mapsto> Hot (io_bf e))) (\<rho>(io_bf e := Res l)) \<sigma> (resolve_ready t l p e b) \<and> pages (resolve_ready t l p e b) = pages b"
  proof (rule swizzle_inv [OF inv v io(1) ld(1,2), of t ?eo])
    show "case ?eo of None \<Rightarrow> waiters (threads b) p = {} | Some e' \<Rightarrow> io_addr e' = io_addr e \<and> \<not> io_mutex e' \<and> io_state e' \<noteq> READY \<and>
        io_state e' \<noteq> UNDEFINED \<and> readers_counter e' = int (card (waiters (threads b) p))"
      using rc m no_waiters [OF i(7), of p] by auto
    show "loads (threads b t') \<noteq> Some p" "leaves (threads b t') \<noteq> Some p" for t'
      using gT_mutex [OF i(7) io(1)] gT_leaving [OF i(7) io(1)] m io(2) by auto
    show "threads b t \<noteq> Waiting p' a" for p' a using pc by (auto simp: inactive_def)
  qed (use ld(3) io_upd [OF b1, of ?e] io_del [OF b1] in \<open>auto simp: resolve_ready_def Let_def\<close>)
  then show ?thesis by blast
qed

lemma resolve_finish_inv:
  assumes inv: "bm_inv_at flags V \<rho> \<sigma> b" and pc: "threads b t = HasRead l p bf a"
  shows "\<exists>V' \<rho>'. bm_inv_at flags V' \<rho>' \<sigma> (resolve_finish t b) \<and> pages (resolve_finish t b) = pages b"
proof -
  note i = bm_inv_atD [OF inv]
  have "thread_ok (bfs b) V \<rho> (io_get b) (ssd b) t (threads b t)" using i(7) by (simp add: gT_def)
  then obtain e where io: "io_get b p = Some e" "io_addr e = a" "io_mutex e" and v: "V l = Some (Evicted p)" and r: "\<rho> bf = Load t"
    and ld: "loaded (bfs b) (ssd b) bf p" "untagged bf"
    using pc by (auto simp: thread_ok_def loading_ok_def)
  have "entry_ok (bfs b) V \<rho> (ssd b) p e (card (waiters (threads b) p))" by (rule entry_ok_at [OF i(8) io(1)])
  then have st: "io_state e = READING" and rc: "readers_counter e = 1 + int (card (waiters (threads b) p))"
    using io(3) by (auto simp: entry_ok_def)
  let ?e = "e\<lparr>io_mutex := False, readers_counter := readers_counter e - 1\<rparr>"
  let ?eo = "if readers_counter e = 1 then None else Some ?e"
  let ?b1 = "set_swip l (Some bf) (with_bf bf (\<lambda>f. f\<lparr>state := HOT\<rparr>) b)"
  have b1: "bm_wf flags ?b1" "io_get ?b1 p = Some e" using i(1) io(1) by simp_all
  have d: "io_deref b p a = Some e" using io by (simp add: io_deref_def)
  have uq: "loads (threads b t') = Some p \<Longrightarrow> t' = t" for t' using i(7) pc unfolding gT_def by (metis loads.simps(2))
  have "bm_inv_at flags (V(l \<mapsto> Hot bf)) (\<rho>(bf := Res l)) \<sigma> (resolve_finish t b) \<and> pages (resolve_finish t b) = pages b"
  proof (rule swizzle_inv [OF inv v io(1) ld, of t ?eo])
    show "case ?eo of None \<Rightarrow> waiters (threads b) p = {} | Some e' \<Rightarrow> io_addr e' = io_addr e \<and> \<not> io_mutex e' \<and> io_state e' \<noteq> READY \<and>
        io_state e' \<noteq> UNDEFINED \<and> readers_counter e' = int (card (waiters (threads b) p))"
      using rc st no_waiters [OF i(7), of p] by auto
    show "leaves (threads b t') \<noteq> Some p" for t' using gT_leaving [OF i(7) io(1)] io(3) by auto
    show "loads (threads b t') \<noteq> Some p" if "t' \<noteq> t" for t' using uq that by blast
  qed (use r pc d io_upd [OF b1, of ?e] io_del [OF b1] in \<open>auto simp: resolve_finish_def Let_def\<close>)
  then show ?thesis by blast
qed

section \<open>Reading, giving up and leaving\<close>

lemma gS_free_frame:
  assumes S: "gS fr V \<rho> \<sigma>" and r: "\<And>l. \<rho> bf \<noteq> Res l" and s: "state f \<noteq> COOL"
  shows "gS (fr(bf := f)) V \<rho> \<sigma>"
proof -
  have n: "\<not> resident V l bf" for l using gS_role [OF S] r by blast
  then have "owner (fr(bf := f)) V l p \<longleftrightarrow> owner fr V l p" for l p
    unfolding owner_def using n by (metis fun_upd_other)
  then show ?thesis using S n s unfolding gS_def by (auto simp: resident_def)
qed

lemma resolve_read_inv:
  assumes inv: "bm_inv_at flags V \<rho> \<sigma> b" and pc: "threads b t = Reading l p bf a"
  shows "bm_inv_at flags V \<rho> \<sigma> (resolve_read t b) \<and> pages (resolve_read t b) = pages b"
proof
  note i = bm_inv_atD [OF inv]
  have "thread_ok (bfs b) V \<rho> (io_get b) (ssd b) t (threads b t)" using i(7) by (simp add: gT_def)
  then have lo: "loading_ok V \<rho> (io_get b) t l p bf a" using pc by (simp add: thread_ok_def)
  then have r: "\<rho> bf = Load t" by (simp add: loading_ok_def)
  let ?f = "(bfs b bf)\<lparr>page := ssd b p, lastWrittenGSN := GSN (ssd b p), state := LOADED, pid := p\<rparr>"
  let ?fr = "(bfs b)(bf := ?f)" and ?th = "(threads b)(t := HasRead l p bf a)" and ?b' = "resolve_read t b"
  have b': "swips ?b' = swips b" "bfs ?b' = ?fr" "ssd ?b' = ssd b" "freed_bfs_batch ?b' = freed_bfs_batch b"
    "threads ?b' = ?th" "pp ?b' = pp b" "write_buffer ?b' = write_buffer b" "io_events ?b' = io_events b"
    "partitions ?b' = partitions b"
    using pc by (auto simp: resolve_read_def)
  note vw = views_partitions [OF b'(9)]
  have q: "quiet (bfs b) (io_get b) x \<Longrightarrow> quiet ?fr (io_get b) x" for x by (auto simp: quiet_def)
  have uq: "loads (threads b t') = Some p \<Longrightarrow> t' = t" for t' using i(7) pc unfolding gT_def by (metis loads.simps(1))
  have w: "waiters ?th p' = waiters (threads b) p'" for p' using pc by (intro waiters_other) auto
  have "gT ?th ?fr V \<rho> (io_get b) (ssd b)"
  proof (rule gT_step [OF i(7)])
    show "thread_ok ?fr V \<rho> (io_get b) (ssd b) t' (threads b t')" if "t' \<noteq> t" "thread_ok (bfs b) V \<rho> (io_get b) (ssd b) t' (threads b t')" for t'
      using that(2) by (rule thread_ok_mono) (use r that(1) in auto)
    show "thread_ok ?fr V \<rho> (io_get b) (ssd b) t (HasRead l p bf a)" using lo by (simp add: thread_ok_def loaded_def)
    show "loads (threads b t') \<noteq> Some p'" if "t' \<noteq> t" "loads (HasRead l p bf a) = Some p'" for t' p' using that uq by auto
  qed simp
  moreover have "gI ?th ?fr V \<rho> (io_get b) (ssd b)"
  proof -
    have "gI (threads b) ?fr V \<rho> (io_get b) (ssd b)" by (rule gI_frame [OF i(8)]) (use r in auto)
    then show ?thesis by (simp add: gI_def w)
  qed
  moreover have "gS ?fr V \<rho> \<sigma>" by (rule gS_free_frame [OF i(4)]) (use r in auto)
  moreover have "gC ?fr \<rho> (ssd b)" using i(5) r by (auto simp: gC_def)
  moreover have "gP ?fr V \<rho> \<sigma> (io_get b) (write_buffer b) (io_events b) (ssd b)"
  proof (rule gP_mono [OF i(9)])
    fix x p' pg assume *: "pending_ok (bfs b) V \<rho> \<sigma> x p' pg"
    then have "x \<noteq> bf" using r by (auto simp: pending_ok_def)
    moreover have "V l' \<noteq> Some (Hot bf)" for l' using gS_view [OF i(4), of l' bf] r by auto
    ultimately show "pending_ok ?fr V \<rho> \<sigma> x p' pg" by (intro pending_mono [OF *]) auto
  qed (use q in auto)
  moreover have "gQ (pp b) (queue b) (write_buffer b) (io_events b) ?fr (io_get b) (length (partitions b))" by (rule gQ_mono [OF i(10) q])
  ultimately show "bm_inv_at flags V \<rho> \<sigma> ?b'" using i(1-3,6) b' vw unfolding bm_inv_at_def by simp
  have "contents ?fr (ssd b) v = contents (bfs b) (ssd b) v" if "V l' = Some v" for l' v
    using gS_view [OF i(4), of l' bf] r that by (cases v) (auto simp: contents_def)
  then show "pages ?b' = pages b" using b' i(2) by (intro pages_eqI [OF i(2), of _ V]) (auto intro: map_option_cong)
qed

text \<open>Steps that only touch one I/O frame, its thread and the owner of its frame.\<close>

lemma io_only_inv:
  assumes inv: "bm_inv_at flags V \<rho> \<sigma> b" and io: "io_get b p = Some e"
    and T: "gT th (bfs b) V \<rho>' ((io_get b)(p := eo)) (ssd b)"
    and w: "\<And>p'. p' \<noteq> p \<Longrightarrow> waiters th p' = waiters (threads b) p'"
    and r: "\<And>x l. \<rho>' x = Res l \<longleftrightarrow> \<rho> x = Res l" "\<And>x. \<rho>' x = Leaked \<longleftrightarrow> \<rho> x = Leaked" "\<And>x p'. p' \<noteq> p \<Longrightarrow> \<rho> x = ReadyFor p' \<Longrightarrow> \<rho>' x = ReadyFor p'"
      "\<And>x q. \<rho> x = InFree q \<Longrightarrow> \<rho>' x = InFree q" "\<And>x. \<rho> x = InBatch \<Longrightarrow> \<rho>' x = InBatch"
    and e: "\<And>e'. eo = Some e' \<Longrightarrow> entry_ok (bfs b) V \<rho>' (ssd b) p e' (card (waiters th p))"
    and b': "swips b' = swips b" "bfs b' = bfs b" "ssd b' = ssd b"
      "freed_bfs_batch b' = freed_bfs_batch b" "threads b' = th" "pp b' = pp b" "write_buffer b' = write_buffer b"
      "io_events b' = io_events b" "length (partitions b') = length (partitions b)" "io_get b' = (io_get b)(p := eo)" "frees b' = frees b"
      "queue b' = queue b" "used b' = used b" "bm_wf flags b'"
  shows "bm_inv_at flags V \<rho>' \<sigma> b' \<and> pages b' = pages b"
proof
  note i = bm_inv_atD [OF inv]
  let ?io = "(io_get b)(p := eo)"
  have q: "quiet (bfs b) (io_get b) x \<Longrightarrow> quiet (bfs b) ?io x" for x using io by (intro quiet_put) auto
  have "gI th (bfs b) V \<rho>' ?io (ssd b)"
    by (rule gI_step [OF i(8), of p]) (use w r(3) e in auto)
  moreover have "gS (bfs b) V \<rho>' \<sigma>" by (rule gS_roles [OF i(4) r(1)])
  moreover have "gC (bfs b) \<rho>' (ssd b)" by (rule gC_roles [OF i(5) r(1)])
  moreover have "gF (frees b) (freed_bfs_batch b) \<rho>'" using i(6) r(4,5) by (auto simp: gF_def)
  moreover have "gP (bfs b) V \<rho>' \<sigma> ?io (write_buffer b) (io_events b) (ssd b)" by (rule gP_roles [OF i(9) r(1,2) q])
  moreover have "gQ (pp b) (queue b) (write_buffer b) (io_events b) (bfs b) ?io (length (partitions b))" by (rule gQ_mono [OF i(10) q])
  ultimately show "bm_inv_at flags V \<rho>' \<sigma> b'" using i(2,3) T b' unfolding bm_inv_at_def by simp
  show "pages b' = pages b" by (rule ext) (simp add: pages_def b'(1-3))
qed

lemma resolve_retry_inv:
  assumes inv: "bm_inv_at flags V \<rho> \<sigma> b" and pc: "threads b t = HasRead l p bf a"
  shows "\<exists>\<rho>'. bm_inv_at flags V \<rho>' \<sigma> (resolve_retry t b) \<and> pages (resolve_retry t b) = pages b"
proof -
  note i = bm_inv_atD [OF inv]
  have "thread_ok (bfs b) V \<rho> (io_get b) (ssd b) t (threads b t)" using i(7) by (simp add: gT_def)
  then obtain e where io: "io_get b p = Some e" "io_addr e = a" "io_mutex e" and v: "V l = Some (Evicted p)" and r: "\<rho> bf = Load t"
    and ld: "loaded (bfs b) (ssd b) bf p" "untagged bf"
    using pc by (auto simp: thread_ok_def loading_ok_def)
  have eo: "entry_ok (bfs b) V \<rho> (ssd b) p e (card (waiters (threads b) p))" by (rule entry_ok_at [OF i(8) io(1)])
  let ?e = "e\<lparr>io_bf := bf, io_state := READY, io_mutex := False\<rparr>"
  let ?th = "(threads b)(t := Restart)" and ?\<rho> = "\<rho>(bf := ReadyFor p)" and ?io = "(io_get b)(p \<mapsto> ?e)"
  have d: "io_deref b p a = Some e" using io by (simp add: io_deref_def)
  have uq: "loads (threads b t') = Some p \<Longrightarrow> t' = t" for t' using i(7) pc unfolding gT_def by (metis loads.simps(2))
  have nl: "leaves (threads b t') \<noteq> Some p" for t' using gT_leaving [OF i(7) io(1)] io(3) by auto
  have w: "waiters ?th p' = waiters (threads b) p'" for p' using pc by (intro waiters_other) auto
  have "gT ?th (bfs b) V ?\<rho> ?io (ssd b)"
  proof (rule gT_step [OF i(7)])
    show "thread_ok (bfs b) V ?\<rho> ?io (ssd b) t' (threads b t')" if "t' \<noteq> t" "thread_ok (bfs b) V \<rho> (io_get b) (ssd b) t' (threads b t')" for t'
      using that(2) by (rule thread_ok_mono) (use r that(1) io(1) uq [of t'] nl [of t'] in auto)
  qed (auto simp: thread_ok_def)
  then have "bm_inv_at flags V ?\<rho> \<sigma> (resolve_retry t b) \<and> pages (resolve_retry t b) = pages b"
    by (rule io_only_inv [OF inv io(1)])
      (use w r v ld eo io pc d io_upd [OF i(1) io(1), of ?e] in \<open>auto simp: resolve_retry_def entry_ok_def\<close>)
  then show ?thesis by blast
qed

lemma resolve_wake_inv:
  assumes inv: "bm_inv_at flags V \<rho> \<sigma> b" and pc: "threads b t = Waiting p a"
  shows "bm_inv_at flags V \<rho> \<sigma> (resolve_wake t b) \<and> pages (resolve_wake t b) = pages b"
proof -
  note i = bm_inv_atD [OF inv]
  have "thread_ok (bfs b) V \<rho> (io_get b) (ssd b) t (threads b t)" using i(7) by (simp add: gT_def)
  then obtain e where io: "io_get b p = Some e" "io_addr e = a" using pc by (auto simp: thread_ok_def)
  have d: "io_deref b p a = Some e" using io by (simp add: io_deref_def)
  show ?thesis
  proof (cases "io_mutex e")
    case True
    then have "resolve_wake t b = b" using pc d by (simp add: resolve_wake_def)
    then show ?thesis using inv by simp
  next
    case False
    have eo: "entry_ok (bfs b) V \<rho> (ssd b) p e (card (waiters (threads b) p))" by (rule entry_ok_at [OF i(8) io(1)])
    let ?e = "e\<lparr>readers_counter := readers_counter e - 1\<rparr>" and ?pc = "if readers_counter e = 1 then Leaving p a else Restart"
    let ?th = "(threads b)(t := ?pc)" and ?io = "(io_get b)(p \<mapsto> ?e)"
    have t: "t \<in> waiters (threads b) p" using pc by (auto simp: waiters_def)
    have w: "waiters ?th p = waiters (threads b) p - {t}" "p' \<noteq> p \<Longrightarrow> waiters ?th p' = waiters (threads b) p'" for p'
      using pc by (auto simp: waiters_def split: if_splits)
    have c: "card (waiters (threads b) p) = Suc (card (waiters ?th p))" unfolding w(1)
      using card.remove [OF gT_finite [OF i(7)] t] .
    have rc: "readers_counter e = of_bool (io_state e = READY) + int (card (waiters (threads b) p))" using eo False by (simp add: entry_ok_def)
    then have nl: "leaves (threads b t') \<noteq> Some p" for t' using gT_leaving [OF i(7) io(1)] c by fastforce
    have nm: "loads (threads b t') \<noteq> Some p" for t' using gT_mutex [OF i(7) io(1)] False by blast
    have "gT ?th (bfs b) V \<rho> ?io (ssd b)"
    proof (rule gT_step [OF i(7)])
      show "thread_ok (bfs b) V \<rho> ?io (ssd b) t' (threads b t')" if "thread_ok (bfs b) V \<rho> (io_get b) (ssd b) t' (threads b t')" for t'
        using that by (rule thread_ok_mono) (use io(1) nl [of t'] in auto)
      show "thread_ok (bfs b) V \<rho> ?io (ssd b) t ?pc" using False io(2) rc c by (auto simp: thread_ok_def)
    qed (use nl in \<open>auto split: if_splits\<close>)
    then show ?thesis
      by (rule io_only_inv [OF inv io(1)])
        (use w c eo False pc d io_upd [OF i(1) io(1), of ?e] in \<open>auto simp: resolve_wake_def entry_ok_def\<close>)
  qed
qed

lemma resolve_leave_inv:
  assumes inv: "bm_inv_at flags V \<rho> \<sigma> b" and pc: "threads b t = Leaving p a"
  shows "bm_inv_at flags V \<rho> \<sigma> (resolve_leave t b) \<and> pages (resolve_leave t b) = pages b"
proof -
  note i = bm_inv_atD [OF inv]
  have "thread_ok (bfs b) V \<rho> (io_get b) (ssd b) t (threads b t)" using i(7) by (simp add: gT_def)
  then obtain e where io: "io_get b p = Some e" "io_addr e = a" "\<not> io_mutex e" "io_state e \<noteq> READY" "readers_counter e = 0"
    using pc by (auto simp: thread_ok_def)
  have d: "io_deref b p a = Some e" using io by (simp add: io_deref_def)
  have "entry_ok (bfs b) V \<rho> (ssd b) p e (card (waiters (threads b) p))" by (rule entry_ok_at [OF i(8) io(1)])
  then have nw: "waiters (threads b) p = {}" using io(3-5) no_waiters [OF i(7), of p] by (simp add: entry_ok_def)
  have nm: "loads (threads b t') \<noteq> Some p" for t' using gT_mutex [OF i(7) io(1)] io(3) by blast
  have uq: "leaves (threads b t') = Some p \<Longrightarrow> t' = t" for t' using i(7) pc unfolding gT_def by (metis leaves.simps(1))
  let ?th = "(threads b)(t := Restart)" and ?io = "(io_get b)(p := None)"
  have w: "waiters ?th p' = waiters (threads b) p'" for p' using pc by (intro waiters_other) auto
  have "gT ?th (bfs b) V \<rho> ?io (ssd b)"
  proof (rule gT_step [OF i(7)])
    fix t' assume t': "t' \<noteq> t" "thread_ok (bfs b) V \<rho> (io_get b) (ssd b) t' (threads b t')"
    have "threads b t' \<noteq> Waiting p x" for x using nw by (auto simp: waiters_def)
    then show "thread_ok (bfs b) V \<rho> ?io (ssd b) t' (threads b t')"
      using t' nm [of t'] uq [of t'] by (cases "threads b t'") (auto simp: thread_ok_def loading_ok_def)
  qed (auto simp: thread_ok_def)
  then show ?thesis
    by (rule io_only_inv [OF inv io(1)])
      (use w pc d io(5) io_del [OF i(1) io(1)] in \<open>auto simp: resolve_leave_def\<close>)
qed

section \<open>The whole of resolveSwip\<close>

lemma pages_cong: "swips b' = swips b \<Longrightarrow> bfs b' = bfs b \<Longrightarrow> ssd b' = ssd b \<Longrightarrow> pages b' = pages b"
  by (rule ext) (simp add: pages_def)

lemma enc_tests:
  assumes "untagged (payload v)"
  shows "isHOT (enc v) \<longleftrightarrow> (\<exists>bf. v = Hot bf)" "\<not> isHOT (enc v) \<Longrightarrow> isCOOL (enc v) \<longleftrightarrow> (\<exists>bf. v = Cool bf)"
    "v = Evicted p \<Longrightarrow> asPageID (enc v) = p"
proof -
  have s: "swip_view (enc v) = v" using assms by (rule swip_view_enc)
  show "isHOT (enc v) \<longleftrightarrow> (\<exists>bf. v = Hot bf)" using s by (cases v) (auto simp: swip_view_def split: if_splits)
  show "\<not> isHOT (enc v) \<Longrightarrow> isCOOL (enc v) \<longleftrightarrow> (\<exists>bf. v = Cool bf)" using s by (cases v) (auto simp: swip_view_def split: if_splits)
  show "v = Evicted p \<Longrightarrow> asPageID (enc v) = p" using s by (auto simp: swip_view_def split: if_splits)
qed

lemma resolveSwip_evicted:
  assumes inv: "bm_inv_at flags V \<rho> \<sigma> b" and pc: "inactive (threads b t)" and v: "V l = Some (Evicted p)" and q: "q < length (partitions b)"
  shows "resolveSwip t l q b = (case io_get b p of None \<Rightarrow> resolve_miss t l p q b
      | Some e \<Rightarrow> if io_state e = READING then resolve_join t p e b else resolve_ready t l p e b)"
    "io_get b p = Some e \<Longrightarrow> io_state e = READING \<and> io_mutex e \<or> io_state e = READY"
proof -
  note i = bm_inv_atD [OF inv]
  have u: "untagged (payload (Evicted p))" by (rule encodes_untagged [OF i(2) v])
  have sw: "swips b l = Some (enc (Evicted p))" using i(2) v by (auto simp: encodes_def)
  have st: "io_state e = READING \<and> io_mutex e \<or> io_state e = READY" if "io_get b p = Some e" for e
    using entry_ok_at [OF i(8) that] v by (auto simp: entry_ok_def)
  then show "io_get b p = Some e \<Longrightarrow> io_state e = READING \<and> io_mutex e \<or> io_state e = READY" .
  show "resolveSwip t l q b = (case io_get b p of None \<Rightarrow> resolve_miss t l p q b
      | Some e \<Rightarrow> if io_state e = READING then resolve_join t p e b else resolve_ready t l p e b)"
    using st enc_tests [OF u] sw by (auto simp: resolveSwip_def Let_def split: option.splits IO_STATE.splits)
qed

lemma resolve_inv:
  assumes inv: "bm_inv_at flags V \<rho> \<sigma> b" and pc: "inactive (threads b t)" and sw: "swips b l = Some w" and q: "q < length (partitions b)"
  shows "\<exists>V' \<rho>'. bm_inv_at flags V' \<rho>' \<sigma> (tryFastResolveSwip t l q b) \<and> pages (tryFastResolveSwip t l q b) = pages b"
proof -
  note i = bm_inv_atD [OF inv]
  obtain v where v: "V l = Some v" "w = enc v" using i(2) sw by (cases "V l") (auto simp: encodes_def)
  have u: "untagged (payload v)" by (rule encodes_untagged [OF i(2) v(1)])
  have e: "tryFastResolveSwip t l q b = resolveSwip t l q b" using sw by (simp add: tryFastResolveSwip_def resolveSwip_def)
  show ?thesis
  proof (cases v)
    case (Hot bf)
    then have "resolveSwip t l q b = set_thread t (Resolved w) b" using sw v enc_tests(1) [OF u] by (simp add: resolveSwip_def)
    then show ?thesis unfolding e using resolve_hot_inv [OF inv pc] pages_cong [of "set_thread t (Resolved w) b" b] by auto
  next
    case (Cool bf)
    then have "resolveSwip t l q b = resolve_cool t l (swip_cool bf) b" using sw v enc_tests(1,2) [OF u] by (simp add: resolveSwip_def)
    then show ?thesis unfolding e using resolve_cool_inv [OF inv pc] v Cool by auto
  next
    case (Evicted p)
    then have vp: "V l = Some (Evicted p)" using v by simp
    note r = resolveSwip_evicted [OF inv pc vp q]
    show ?thesis
    proof (cases "io_get b p")
      case None
      then have x: "resolveSwip t l q b = resolve_miss t l p q b" using r(1) by simp
      obtain \<rho>' where m: "bm_inv_at flags V \<rho>' \<sigma> (resolve_miss t l p q b)" "swips (resolve_miss t l p q b) = swips b"
        "bfs (resolve_miss t l p q b) = bfs b" "ssd (resolve_miss t l p q b) = ssd b"
        using resolve_miss_inv [OF inv pc vp None q] by blast
      show ?thesis unfolding e x using m(1) pages_cong [OF m(2-4)] by blast
    next
      case (Some y)
      show ?thesis
      proof (cases "io_state y = READING")
        case True
        then have x: "resolveSwip t l q b = resolve_join t p y b" using r(1) Some by simp
        show ?thesis unfolding e x using resolve_join_inv [OF inv pc vp Some True] pages_cong [of "resolve_join t p y b" b] by blast
      next
        case False
        then have x: "resolveSwip t l q b = resolve_ready t l p y b" and "io_state y = READY" using r(1) r(2) [OF Some] Some by auto
        then show ?thesis unfolding e x using resolve_ready_inv [OF inv pc vp Some] by blast
      qed
    qed
  qed
qed

end
