(* ===== verification/BufferPages.thy ===== *)
theory BufferPages
  imports BufferLoad
begin

text \<open>Allocating, modifying and freeing pages keep the invariant and change the content of the pages as intended.\<close>

section \<open>Modification\<close>

lemma word_less_succ: "(x :: u64) \<noteq> - 1 \<Longrightarrow> x < x + 1"
proof -
  assume "x \<noteq> - 1"
  then have "unat x \<noteq> unat (- 1 :: u64)" using unsigned_word_eqI by blast
  moreover have "unat (- 1 :: u64) = 2 ^ 64 - 1" by (simp add: unsigned_minus_1_eq_mask mask_eq_exp_minus_1)
  moreover have "unat x < 2 ^ 64" using unsigned_less [of x, where ?'a = nat] by simp
  ultimately have "unat (x + 1) = unat x + 1" by (simp add: unat_word_ariths(1))
  then show "x < x + 1" by (simp add: word_less_nat_alt)
qed

lemma gS_fields: "gS fr V \<rho> \<sigma> \<Longrightarrow> (\<And>x. state (fr' x) = state (fr x) \<and> pid (fr' x) = pid (fr x)) \<Longrightarrow> gS fr' V \<rho> \<sigma>"
  by (simp add: gS_def owner_def)

lemma write_page_inv:
  assumes inv: "bm_inv_at flags V \<rho> \<sigma> b" and v: "V l = Some (Hot bf)" and g: "GSN (page (bfs b bf)) \<noteq> - 1"
  shows "bm_inv_at flags V \<rho> \<sigma> (write_page bf d b) \<and> pages (write_page bf d b) = (pages b)(l \<mapsto> d)"
proof
  note i = bm_inv_atD [OF inv]
  let ?g = "GSN (page (bfs b bf))"
  let ?f = "(bfs b bf)\<lparr>page := (page (bfs b bf))\<lparr>GSN := ?g + 1, dt := d\<rparr>\<rparr>"
  let ?fr = "(bfs b)(bf := ?f)" and ?b' = "write_page bf d b"
  have r: "\<rho> bf = Res l" using gS_view [OF i(4)] v by blast
  have lt: "?g < ?g + 1" by (rule word_less_succ [OF g])
  have le: "lastWrittenGSN (bfs b bf) \<le> ?g" using i(5) r by (auto simp: gC_def)
  have b': "bfs ?b' = ?fr" by (simp add: write_page_def)
  have q: "quiet (bfs b) (io_get b) x \<Longrightarrow> quiet ?fr (io_get b) x" for x by (auto simp: quiet_def)
  have P: "pending_ok ?fr V \<rho> \<sigma> x p pg" if "pending_ok (bfs b) V \<rho> \<sigma> x p pg" for x p pg
  proof (cases "x = bf")
    case True
    then show ?thesis using that r lt unfolding pending_ok_def by auto
  next
    case False
    then show ?thesis by (intro pending_mono [OF that]) (use lt in \<open>auto intro: order.strict_trans\<close>)
  qed
  have "gS ?fr V \<rho> \<sigma>" by (rule gS_fields [OF i(4)]) auto
  moreover have "gC ?fr \<rho> (ssd b)" using i(5) le lt unfolding gC_def by auto
  moreover have "gT (threads b) ?fr V \<rho> (io_get b) (ssd b)" by (rule gT_frame [OF i(7)]) (use r in auto)
  moreover have "gI (threads b) ?fr V \<rho> (io_get b) (ssd b)" by (rule gI_frame [OF i(8)]) (use r in auto)
  moreover have "gP ?fr V \<rho> \<sigma> (io_get b) (write_buffer b) (io_events b) (ssd b)" by (rule gP_mono [OF i(9)]) (use P q in auto)
  moreover have "gQ (pp b) (queue b) (write_buffer b) (io_events b) ?fr (io_get b) (length (partitions b))" by (rule gQ_mono [OF i(10) q])
  ultimately show "bm_inv_at flags V \<rho> \<sigma> ?b'" using i(1-3,6) unfolding bm_inv_at_def write_page_def by simp
  have o: "map_option (contents ?fr (ssd b)) (V l') = map_option (contents (bfs b) (ssd b)) (V l')" if "l' \<noteq> l" for l'
  proof (cases "V l'")
    case (Some v')
    then have "v' \<noteq> Hot bf" "v' \<noteq> Cool bf" using gS_view [OF i(4), of l' bf] r that by auto
    then show ?thesis using Some by (cases v') (auto simp: contents_def)
  qed simp
  have "pages ?b' l' = ((pages b)(l \<mapsto> d)) l'" for l'
    using o [of l'] v pages_view [OF i(2), of l'] pages_view [of ?b' V l'] i(2)
    by (cases "l' = l") (auto simp: contents_def write_page_def)
  then show "pages ?b' = (pages b)(l \<mapsto> d)" by (rule ext)
qed

section \<open>Frames in the write buffer\<close>

lemma gP_pending:
  assumes "gP fr V \<rho> \<sigma> io wb ev D" "(x, p, pg) \<in> set wb \<or> (x, p, pg) \<in> set ev"
  shows "pending_ok fr V \<rho> \<sigma> x p pg" "quiet fr io x" "isWB (fr x)"
proof -
  have m: "(x, p, pg) \<in> set (wb @ ev)" using assms(2) by simp
  have *: "\<forall>(bf, p, pg) \<in> set (wb @ ev). pending_ok fr V \<rho> \<sigma> bf p pg \<and> quiet fr io bf" "\<forall>bf. isWB (fr bf) \<longleftrightarrow> bf \<in> fst ` set (wb @ ev)"
    using assms(1) unfolding gP_def by blast+
  show "pending_ok fr V \<rho> \<sigma> x p pg" "quiet fr io x" using bspec [OF *(1) m] by auto
  show "isWB (fr x)" using *(2) image_eqI [of x fst, OF _ m] by simp
qed

lemma gP_wb:
  assumes "gP fr V \<rho> \<sigma> io wb ev D" "isWB (fr x)"
  obtains p pg where "(x, p, pg) \<in> set wb \<or> (x, p, pg) \<in> set ev" "pending_ok fr V \<rho> \<sigma> x p pg" "quiet fr io x"
proof -
  have "x \<in> fst ` set (wb @ ev)" using assms by (simp add: gP_def)
  then have "\<exists>p pg. (x, p, pg) \<in> set wb \<or> (x, p, pg) \<in> set ev" by (auto; blast)
  then obtain p pg where m: "(x, p, pg) \<in> set wb \<or> (x, p, pg) \<in> set ev" by blast
  then show thesis using that gP_pending [OF assms(1) m] by blast
qed

lemma gP_role: "gP fr V \<rho> \<sigma> io wb ev D \<Longrightarrow> isWB (fr x) \<Longrightarrow> (\<exists>l. \<rho> x = Res l) \<or> \<rho> x = Leaked"
  by (rule gP_wb) (auto simp: pending_ok_def)

section \<open>Allocation\<close>

lemma used_partition: "bm_wf flags b \<Longrightarrow> p \<in> used b \<Longrightarrow> unat p < 2 ^ 50"
  using pidx_less [of flags b p] bm_wfD [of flags b "pidx b p"] by (auto simp: used_def used_pids_def pid_inv_def)

lemma used_untagged: "bm_wf flags b \<Longrightarrow> p \<in> used b \<Longrightarrow> untagged p"
  using used_partition [of flags b p] by (simp add: untagged_def word_less_nat_alt)

lemma next_pid_views:
  assumes wf: "bm_wf flags b" and q: "q < length (partitions b)"
    and nx: "nextPID (ssd_gib flags) ((partitions b ! q)\<lparr>dram_free_list := rest\<rparr>) = Some (p, P)"
  shows "bm_wf flags (with_partition q (\<lambda>_. P) b)" "io_get (with_partition q (\<lambda>_. P) b) = io_get b"
    "used (with_partition q (\<lambda>_. P) b) = insert p (used b)" "p \<notin> used b"
    "frees (with_partition q (\<lambda>_. P) b) = (frees b)(q := rest)" "queue (with_partition q (\<lambda>_. P) b) = queue b"
proof -
  let ?n = "length (partitions b)" and ?P = "(partitions b ! q)\<lparr>dram_free_list := rest\<rparr>"
  have "pid_inv (ssd_gib flags) ?n q ?P" using bm_wfD [OF wf q] by (simp add: pid_inv_def)
  from nextPID_ok [OF this nx] have n: "pid_inv (ssd_gib flags) ?n q P" "p \<notin> used_pids ?n q ?P" "used_pids ?n q P = insert p (used_pids ?n q ?P)"
    "unat p mod ?n = q" by auto
  have P: "io_ht P = io_ht (partitions b ! q)" "dram_free_list P = rest" "cooling_queue P = cooling_queue (partitions b ! q)"
    using nx by (auto simp: nextPID_def Let_def split: if_splits)
  have u: "used_pids ?n q ?P = used_pids ?n q (partitions b ! q)" by (simp add: used_pids_def)
  have px: "pidx b p = q" using pidx_mod [OF wf, of p] n(4) by simp
  note w = with_partition_pids [OF wf q, of "\<lambda>_. P", OF n(1) P(1)]
  show "bm_wf flags (with_partition q (\<lambda>_. P) b)" "io_get (with_partition q (\<lambda>_. P) b) = io_get b" by (rule w)+
  show "used (with_partition q (\<lambda>_. P) b) = insert p (used b)" unfolding w(3) n(3) u using px by (auto simp: used_def)
  show "p \<notin> used b" using n(2) px u by (simp add: used_def)
  show "frees (with_partition q (\<lambda>_. P) b) = (frees b)(q := rest)" using q P by (simp add: frees_partition)
  show "queue (with_partition q (\<lambda>_. P) b) = queue b" using P by (simp add: queue_keep)
qed

lemma new_page_Some:
  assumes "new_page flags l keep q dtid d b = Some b'"
  obtains bf rest p P where "dram_free_list (partitions b ! q) = bf # rest"
    "nextPID (ssd_gib flags) ((partitions b ! q)\<lparr>dram_free_list := rest\<rparr>) = Some (p, P)"
    "\<exists>h. b' = (set_swip l (Some bf) (with_bf bf (\<lambda>f. f\<lparr>pid := p, state := HOT, lastWrittenGSN := 0, keep_in_memory := keep,
       page := (page f)\<lparr>dt_id := dtid, hot_data := keep, GSN := 1, dt := d\<rparr>\<rparr>) (with_partition q (\<lambda>_. P) b)))\<lparr>hot_pages := h\<rparr>"
proof -
  obtain bf rest where 1: "dram_free_list (partitions b ! q) = bf # rest"
    using assms by (auto simp: new_page_def bm_allocatePage_def split: list.splits)
  obtain p P where 2: "nextPID (ssd_gib flags) ((partitions b ! q)\<lparr>dram_free_list := rest\<rparr>) = Some (p, P)"
    using assms 1 by (auto simp: new_page_def bm_allocatePage_def split: option.splits)
  show thesis using assms 1 2
    by (intro that [OF 1 2] exI [of _ "if keep then hot_pages b + 1 else hot_pages b"])
      (auto simp: new_page_def bm_allocatePage_def Let_def set_swip_def with_bf_def with_partition_def)
qed

lemma new_page_inv:
  assumes inv: "bm_inv_at flags V \<rho> \<sigma> b" and v: "swips b l = None" and q: "q < length (partitions b)"
    and nw: "new_page flags l keep q dtid d b = Some b'"
  shows "\<exists>V' \<rho>' \<sigma>'. bm_inv_at flags V' \<rho>' \<sigma>' b' \<and> pages b' = (pages b)(l \<mapsto> d)"
proof -
  note i = bm_inv_atD [OF inv]
  obtain bf rest p P h where 1: "dram_free_list (partitions b ! q) = bf # rest"
    and 2: "nextPID (ssd_gib flags) ((partitions b ! q)\<lparr>dram_free_list := rest\<rparr>) = Some (p, P)"
    and e: "b' = (set_swip l (Some bf) (with_bf bf (\<lambda>f. f\<lparr>pid := p, state := HOT, lastWrittenGSN := 0, keep_in_memory := keep,
       page := (page f)\<lparr>dt_id := dtid, hot_data := keep, GSN := 1, dt := d\<rparr>\<rparr>) (with_partition q (\<lambda>_. P) b)))\<lparr>hot_pages := h\<rparr>"
    by (rule new_page_Some [OF nw]) blast
  note vw = next_pid_views [OF i(1) q 2]
  have f: "frees b q = bf # rest" using 1 q by (simp add: frees_def)
  have r: "\<rho> bf = InFree q" "untagged bf" using gF_pop [OF i(6) f] by auto
  have V: "V l = None" using i(2) v by (auto simp: encodes_def)
  have ps: "\<sigma> p = None" using vw(4) i(3) by blast
  let ?f = "(bfs b bf)\<lparr>pid := p, state := HOT, lastWrittenGSN := 0, keep_in_memory := keep,
       page := (page (bfs b bf))\<lparr>dt_id := dtid, hot_data := keep, GSN := 1, dt := d\<rparr>\<rparr>"
  let ?fr = "(bfs b)(bf := ?f)" and ?V = "V(l \<mapsto> Hot bf)" and ?\<rho> = "\<rho>(bf := Res l)" and ?\<sigma> = "\<sigma>(p \<mapsto> l)"
  have b': "swips b' = (swips b)(l \<mapsto> bf)" "bfs b' = ?fr" "ssd b' = ssd b" "freed_bfs_batch b' = freed_bfs_batch b" "threads b' = threads b"
    "pp b' = pp b" "write_buffer b' = write_buffer b" "io_events b' = io_events b" "length (partitions b') = length (partitions b)"
    "io_get b' = io_get b" "frees b' = (frees b)(q := rest)" "queue b' = queue b" "used b' = insert p (used b)" "bm_wf flags b'"
    unfolding e using vw by simp_all
  have wb: "\<not> isWB (bfs b bf)" using gP_role [OF i(9), of bf] r(1) by auto
  have nr: "\<not> resident V l' bf" "\<not> resident V l x" for l' x using gS_role [OF i(4), of l' bf] r(1) V by (auto simp: resident_def)
  have E: "encodes (swips b') ?V" using encodes_upd [OF i(2), of "Some (Hot bf)" l] r(2) b'(1) by simp
  have S: "gS ?fr ?V ?\<rho> ?\<sigma>"
  proof (rule gS_step [OF i(4), where bf = bf])
    have ns: "\<sigma> p' \<noteq> Some l" for p' using i(4) V by (auto simp: gS_def owner_def resident_def)
    show "\<forall>p' l'. ?\<sigma> p' = Some l' \<longleftrightarrow> (if l' = l then owner ?fr ?V l p' else \<sigma> p' = Some l')"
      using ps ns by (auto simp: owner_def resident_def)
  qed (use nr in auto)
  have F: "gF ((frees b)(q := rest)) (freed_bfs_batch b) ?\<rho>"
    using gF_pop(1) [OF i(6) f, of 0] i(6) f unfolding gF_def by (auto split: if_splits)
  have q': "quiet (bfs b) (io_get b) x \<Longrightarrow> quiet ?fr (io_get b) x" for x by (auto simp: quiet_def)
  have P: "gP ?fr ?V ?\<rho> ?\<sigma> (io_get b) (write_buffer b) (io_events b) (ssd b)"
  proof (rule gP_mono [OF i(9)])
    fix x p' pg assume *: "pending_ok (bfs b) V \<rho> \<sigma> x p' pg"
    then have x: "x \<noteq> bf" using r by (auto simp: pending_ok_def)
    show "pending_ok ?fr ?V ?\<rho> ?\<sigma> x p' pg"
    proof (cases "\<rho> x = Leaked")
      case True
      have "\<exists>bf'. ?V l' = Some (Hot bf') \<and> \<not> isWB (?fr bf') \<and> lastWrittenGSN (?fr bf') < GSN (page (?fr bf'))" if l': "?\<sigma> p' = Some l'" for l'
      proof (cases "p' = p")
        case False
        then have "\<sigma> p' = Some l'" using l' by simp
        then obtain bf' where b: "V l' = Some (Hot bf')" "\<not> isWB (bfs b bf')" "lastWrittenGSN (bfs b bf') < GSN (page (bfs b bf'))"
          using * True by (auto simp: pending_ok_def)
        then have "l' \<noteq> l" "bf' \<noteq> bf" using V nr(1) [of l'] by (auto simp: resident_def)
        then show ?thesis using b by auto
      qed (use l' wb in auto)
      then show ?thesis using * True x by (auto simp: pending_ok_def)
    qed (use * x in \<open>auto simp: pending_ok_def\<close>)
  next
    fix x p' pg l' assume "(x, p', pg) \<in> set (io_events b)" "?\<rho> x = Res l'"
    moreover have "isWB (bfs b x)" using calculation(1) gP_pending(3) [OF i(9)] by blast
    ultimately show "(\<exists>l. \<rho> x = Res l) \<and> dt (ssd b p') = dt (ssd b p')" using wb by (auto split: if_splits)
  qed (use q' in auto)
  have "gC ?fr ?\<rho> (ssd b)" using i(5) by (auto simp: gC_def)
  moreover have "gT (threads b) ?fr ?V ?\<rho> (io_get b) (ssd b)" by (rule gT_frame [OF i(7)]) (use r V in auto)
  moreover have "gI (threads b) ?fr ?V ?\<rho> (io_get b) (ssd b)" by (rule gI_frame [OF i(8)]) (use r V in auto)
  moreover have "gQ (pp b) (queue b) (write_buffer b) (io_events b) ?fr (io_get b) (length (partitions b))" by (rule gQ_mono [OF i(10) q'])
  ultimately have "bm_inv_at flags ?V ?\<rho> ?\<sigma> b'" using i(3) E S F P b' unfolding bm_inv_at_def by simp
  moreover have "pages b' = (pages b)(l \<mapsto> d)"
  proof (rule ext)
    fix l'
    show "pages b' l' = ((pages b)(l \<mapsto> d)) l'"
  proof (cases "l' = l")
    case True
    then show ?thesis using pages_view [OF E, of l] b'(2,3) by (simp add: contents_def)
  next
    case False
    have "contents ?fr (ssd b) v' = contents (bfs b) (ssd b) v'" if "V l' = Some v'" for v'
      using that nr(1) [of l'] by (cases v') (auto simp: contents_def resident_def)
    then show ?thesis using False pages_view [OF E, of l'] pages_view [OF i(2), of l'] b'(2,3) by (cases "V l'") auto
  qed
  qed
  ultimately show ?thesis by blast
qed

section \<open>Freeing\<close>

lemma free_pid_views:
  assumes wf: "bm_wf flags b" and p: "p \<in> used b"
  shows "bm_wf flags (with_partition (pidx b p) (freePage p) b)" "io_get (with_partition (pidx b p) (freePage p) b) = io_get b"
    "used (with_partition (pidx b p) (freePage p) b) = used b - {p}"
    "frees (with_partition (pidx b p) (freePage p) b) = frees b" "queue (with_partition (pidx b p) (freePage p) b) = queue b"
proof -
  let ?n = "length (partitions b)" and ?q = "pidx b p"
  have q: "?q < ?n" by (rule pidx_less [OF wf])
  have "p \<in> used_pids ?n ?q (partitions b ! ?q)" using p by (simp add: used_def)
  from freePage_ok [OF _ this] have f: "pid_inv (ssd_gib flags) ?n ?q (freePage p (partitions b ! ?q))"
    "used_pids ?n ?q (freePage p (partitions b ! ?q)) = used_pids ?n ?q (partitions b ! ?q) - {p}"
    using bm_wfD [OF wf q] by auto
  note w = with_partition_pids [where f = "freePage p", OF wf q f(1)]
  show "bm_wf flags (with_partition ?q (freePage p) b)" "io_get (with_partition ?q (freePage p) b) = io_get b"
    by (rule w; simp add: freePage_def)+
  show "used (with_partition ?q (freePage p) b) = used b - {p}"
    by (subst w(3)) (auto simp: freePage_def used_def f(2) [unfolded freePage_def])
  show "frees (with_partition ?q (freePage p) b) = frees b" "queue (with_partition ?q (freePage p) b) = queue b"
    by (simp_all add: frees_keep queue_keep freePage_def)
qed

lemma gF_push:
  assumes "gF fl bt \<rho>" "untagged bf" "\<And>q. \<rho> bf \<noteq> InFree q" "\<rho> bf \<noteq> InBatch"
  shows "gF (fl(q := bf # fl q)) bt (\<rho>(bf := InFree q))"
  using assms unfolding gF_def by (auto split: if_splits)

text \<open>What becomes of the frame: it is leaked when it is being written, and goes to a free list otherwise.\<close>

lemma reclaim_groups:
  assumes inv: "bm_inv_at flags V \<rho> \<sigma> b" and v: "V l = Some (Hot bf)" and p: "p = pid (bfs b bf)"
    and f: "f = bfs b bf \<and> ro = Leaked \<or> state f = FREE \<and> \<not> isWB f \<and> \<not> isWB (bfs b bf) \<and> (\<exists>q. ro = InFree q)"
  defines "fr \<equiv> (bfs b)(bf := f)" and "V' \<equiv> V(l := None)" and "\<rho>' \<equiv> \<rho>(bf := ro)" and "\<sigma>' \<equiv> \<sigma>(p := None)"
  shows "gS fr V' \<rho>' \<sigma>'" "gC fr \<rho>' (ssd b)" "gT (threads b) fr V' \<rho>' (io_get b) (ssd b)" "gI (threads b) fr V' \<rho>' (io_get b) (ssd b)"
    "isWB f \<or> \<not> isWB (bfs b bf) \<Longrightarrow> gP fr V' \<rho>' \<sigma>' (io_get b) (write_buffer b) (io_events b) (ssd b)"
    "gQ (pp b) (queue b) (write_buffer b) (io_events b) fr (io_get b) (length (partitions b))"
    "map_option (contents fr (ssd b)) (V' l') = (if l' = l then None else map_option (contents (bfs b) (ssd b)) (V l'))"
proof -
  note i = bm_inv_atD [OF inv]
  have r: "\<rho> bf = Res l" using gS_view [OF i(4)] v by blast
  have st: "state (bfs b bf) = HOT" using i(4) v by (auto simp: gS_def)
  have nr: "resident V l' bf \<Longrightarrow> l' = l" for l' using gS_role [OF i(4), of l' bf] r by auto
  have ps: "\<sigma> p' = Some l \<longleftrightarrow> p' = p" for p' using i(4) v p by (auto simp: gS_def owner_def resident_def)
  have pl: "\<sigma> p = Some l' \<Longrightarrow> l' = l" for l' using ps [of p] by simp
  have sf: "state f \<noteq> COOL" "\<And>l. ro \<noteq> Res l" "ro \<noteq> Load t" "ro \<noteq> ReadyFor p'" for t p' using f st by auto
  show "gS fr V' \<rho>' \<sigma>'" unfolding fr_def V'_def \<rho>'_def \<sigma>'_def
  proof (rule gS_step [OF i(4), where bf = bf])
    show "\<forall>p' l'. (\<sigma>(p := None)) p' = Some l' \<longleftrightarrow> (if l' = l then owner ((bfs b)(bf := f)) (V(l := None)) l p' else \<sigma> p' = Some l')"
      using ps pl by (auto simp: owner_def resident_def)
  qed (use v nr sf in \<open>auto simp: resident_def\<close>)
  show "gC fr \<rho>' (ssd b)" using i(5) sf by (auto simp: gC_def fr_def \<rho>'_def)
  show "gT (threads b) fr V' \<rho>' (io_get b) (ssd b)" by (rule gT_frame [OF i(7)]) (use r v in \<open>auto simp: fr_def V'_def \<rho>'_def\<close>)
  show "gI (threads b) fr V' \<rho>' (io_get b) (ssd b)" by (rule gI_frame [OF i(8)]) (use r v in \<open>auto simp: fr_def V'_def \<rho>'_def\<close>)
  have q: "quiet (bfs b) (io_get b) x \<Longrightarrow> quiet fr (io_get b) x" for x using sf st by (auto simp: quiet_def fr_def)
  then show "gQ (pp b) (queue b) (write_buffer b) (io_events b) fr (io_get b) (length (partitions b))" by (rule gQ_mono [OF i(10)])
  show "gP fr V' \<rho>' \<sigma>' (io_get b) (write_buffer b) (io_events b) (ssd b)" if wb: "isWB f \<or> \<not> isWB (bfs b bf)"
  proof (rule gP_mono [OF i(9)])
    fix x p' pg assume m: "(x, p', pg) \<in> set (write_buffer b @ io_events b)" and *: "pending_ok (bfs b) V \<rho> \<sigma> x p' pg"
    show "pending_ok fr V' \<rho>' \<sigma>' x p' pg"
    proof (cases "x = bf")
      case True
      then have "isWB (bfs b bf)" using gP_pending(3) [OF i(9), of x p' pg] m by auto
      then have "f = bfs b bf" "ro = Leaked" using f by auto
      then show ?thesis using * True p by (auto simp: pending_ok_def fr_def \<rho>'_def \<sigma>'_def)
    next
      case False
      show ?thesis
      proof (rule pending_mono [OF *])
        fix l' bf' assume *: "\<rho> x = Leaked" "\<sigma>' p' = Some l'" "V l' = Some (Hot bf')" "\<not> isWB (bfs b bf')"
          "lastWrittenGSN (bfs b bf') < GSN (page (bfs b bf'))"
        have "l' \<noteq> l" using *(2) ps [of p'] by (auto simp: \<sigma>'_def split: if_splits)
        then have "bf' \<noteq> bf" using *(3) nr [of l'] by (auto simp: resident_def)
        then show "V' l' = Some (Hot bf') \<and> \<not> isWB (fr bf') \<and> lastWrittenGSN (fr bf') < GSN (page (fr bf'))"
          using * \<open>l' \<noteq> l\<close> by (simp add: V'_def fr_def)
      qed (use False in \<open>auto simp: fr_def \<rho>'_def \<sigma>'_def split: if_splits\<close>)
    qed
  qed (use q wb f in \<open>auto simp: fr_def \<rho>'_def split: if_splits\<close>)
  show "map_option (contents fr (ssd b)) (V' l') = (if l' = l then None else map_option (contents (bfs b) (ssd b)) (V l'))"
  proof (cases "V l'")
    case (Some v')
    then show ?thesis using nr [of l'] by (cases v') (auto simp: contents_def fr_def V'_def resident_def)
  qed (auto simp: V'_def)
qed

lemma reclaim_inv:
  assumes inv: "bm_inv_at flags V \<rho> \<sigma> b" and v: "V l = Some (Hot bf)"
  shows "\<exists>V' \<rho>' \<sigma>'. bm_inv_at flags V' \<rho>' \<sigma>' (bm_reclaimPage bf (set_swip l None b)) \<and>
    pages (bm_reclaimPage bf (set_swip l None b)) = (pages b)(l := None)"
proof -
  note i = bm_inv_atD [OF inv]
  let ?p = "pid (bfs b bf)" and ?b0 = "set_swip l None b" and ?b' = "bm_reclaimPage bf (set_swip l None b)"
  let ?q = "pidx b ?p" and ?wb = "isWB (bfs b bf)"
  let ?f = "if ?wb then bfs b bf else bf_reset (bfs b bf)" and ?ro = "if ?wb then Leaked else InFree ?q"
  have r: "\<rho> bf = Res l" using gS_view [OF i(4)] v by blast
  have u: "untagged bf" using encodes_untagged [OF i(2) v] by simp
  have pu: "?p \<in> used b" using gS_owner [OF i(4) r] i(3) by blast
  have q: "?q < length (partitions b)" by (rule pidx_less [OF i(1)])
  have wf0: "bm_wf flags ?b0" "?p \<in> used ?b0" using i(1) pu by simp_all
  note fv = free_pid_views [OF wf0, simplified]
  let ?b1 = "with_partition ?q (freePage ?p) ?b0"
  let ?fl = "if ?wb then frees b else (frees b)(?q := bf # frees b ?q)"
  have pv: "with_partition ?q (\<lambda>P. P\<lparr>dram_free_list := bf # dram_free_list P\<rparr>) b2 = b3 \<Longrightarrow> partitions b2 = partitions ?b1 \<Longrightarrow>
      bm_wf flags b3 \<and> io_get b3 = io_get b \<and> used b3 = used b - {?p} \<and> frees b3 = (frees b)(?q := bf # frees b ?q) \<and> queue b3 = queue b" for b2 b3
  proof -
    assume e: "with_partition ?q (\<lambda>P. P\<lparr>dram_free_list := bf # dram_free_list P\<rparr>) b2 = b3" and p2: "partitions b2 = partitions ?b1"
    note v2 = views_partitions [OF p2]
    have w: "bm_wf flags b2" using v2(1) fv(1) by simp
    have l: "?q < length (partitions b2)" using p2 q by simp
    have "bm_wf flags b3" "io_get b3 = io_get b2" "used b3 = used b2" unfolding e [symmetric] by (rule with_partition_local [OF w]; simp)+
    moreover have "frees b3 = (frees b2)(?q := bf # frees b2 ?q)" "queue b3 = queue b2" unfolding e [symmetric]
      using l by (simp_all add: frees_partition queue_keep) (simp add: frees_def)
    ultimately show ?thesis using v2 fv by simp
  qed
  have b': "swips ?b' = (swips b)(l := None)" "bfs ?b' = (bfs b)(bf := ?f)" "ssd ?b' = ssd b" "freed_bfs_batch ?b' = freed_bfs_batch b"
    "threads ?b' = threads b" "pp ?b' = pp b" "write_buffer ?b' = write_buffer b" "io_events ?b' = io_events b"
    "length (partitions ?b') = length (partitions b)"
    by (auto simp: bm_reclaimPage_def Let_def pidx_def getPartitionID_def)
  have vw: "bm_wf flags ?b'" "io_get ?b' = io_get b" "used ?b' = used b - {?p}" "frees ?b' = ?fl" "queue ?b' = queue b"
  proof -
    have "?b' = (if ?wb then (if hot_data (page (bfs b bf)) then ?b1\<lparr>hot_pages := hot_pages ?b1 - 1\<rparr> else ?b1)
        else with_partition ?q (\<lambda>P. P\<lparr>dram_free_list := bf # dram_free_list P\<rparr>)
          (with_bf bf bf_reset (if hot_data (page (bfs b bf)) then ?b1\<lparr>hot_pages := hot_pages ?b1 - 1\<rparr> else ?b1)))"
      by (simp add: bm_reclaimPage_def Let_def pidx_def getPartitionID_def)
    then show "bm_wf flags ?b'" "io_get ?b' = io_get b" "used ?b' = used b - {?p}" "frees ?b' = ?fl" "queue ?b' = queue b"
      using fv pv [of "with_bf bf bf_reset (if hot_data (page (bfs b bf)) then ?b1\<lparr>hot_pages := hot_pages ?b1 - 1\<rparr> else ?b1)" ?b']
      by (auto split: if_splits)
  qed
  have f: "?f = bfs b bf \<and> ?ro = Leaked \<or> state ?f = FREE \<and> \<not> isWB ?f \<and> \<not> isWB (bfs b bf) \<and> (\<exists>q. ?ro = InFree q)"
    by (auto simp: bf_reset_def)
  note g = reclaim_groups [OF inv v refl f]
  have E: "encodes (swips ?b') (V(l := None))" using encodes_upd [OF i(2), of None l] b'(1) by simp
  have F: "gF ?fl (freed_bfs_batch b) (\<rho>(bf := ?ro))"
  proof (cases ?wb)
    case True
    then show ?thesis using i(6) r by (auto simp: gF_def)
  next
    case False
    then show ?thesis using gF_push [OF i(6) u] r by simp
  qed
  have "dom (\<sigma>(?p := None)) = used b - {?p}" using i(3) by auto
  then have "bm_inv_at flags (V(l := None)) (\<rho>(bf := ?ro)) (\<sigma>(?p := None)) ?b'"
    using g(1-4,6) g(5) E F b' vw unfolding bm_inv_at_def by (auto simp: bf_reset_def split: if_splits)
  moreover have "pages ?b' l' = ((pages b)(l := None)) l'" for l'
    using pages_view [OF E, of l'] pages_view [OF i(2), of l'] g(7) [of l'] b'(2,3) by simp
  ultimately show ?thesis by (metis (no_types, lifting) ext)
qed

end
