(* ===== verification/BufferProvider.thy ===== *)
theory BufferProvider
  imports BufferPages
begin

text \<open>The steps of the page provider keep the invariant and the content of the pages.\<close>

section \<open>Cooling\<close>

lemma part_queue_views:
  assumes wf: "bm_wf flags b"
    and f: "\<And>P. io_ht (f P) = io_ht P \<and> pid_distance (f P) = pid_distance P \<and> next_pid (f P) = next_pid P \<and> freed_pids (f P) = freed_pids P \<and>
      dram_free_list (f P) = dram_free_list P"
  shows "bm_wf flags (with_partition q f b)" "io_get (with_partition q f b) = io_get b" "used (with_partition q f b) = used b"
    "frees (with_partition q f b) = frees b"
  using with_partition_local [OF wf, of f q] frees_keep [of f b q] f by simp_all

lemma cool_page_inv:
  assumes inv: "bm_inv_at flags V \<rho> \<sigma> b" and v: "V l = Some (Hot bf)" and pc: "pp b = Phase1"
  shows "bm_inv_at flags (V(l \<mapsto> Cool bf)) \<rho> \<sigma> (cool_page l bf b) \<and> pages (cool_page l bf b) = pages b"
proof
  note i = bm_inv_atD [OF inv]
  let ?fr = "(bfs b)(bf := (bfs b bf)\<lparr>state := COOL\<rparr>)" and ?V = "V(l \<mapsto> Cool bf)" and ?b' = "cool_page l bf b"
  let ?g = "\<lambda>P. P\<lparr>cooling_queue := cooling_queue P @ [bf], cooling_bfs_counter := cooling_bfs_counter P + 1\<rparr>"
  let ?b1 = "with_partition (unat (getPartitionID b (pid (bfs b bf)))) ?g b"
  have pv: "bm_wf flags ?b1" "io_get ?b1 = io_get b" "used ?b1 = used b" "frees ?b1 = frees b"
    by (rule part_queue_views [OF i(1)]; simp)+
  have b': "swips ?b' = (swips b)(l \<mapsto> swip_cool bf)" "bfs ?b' = ?fr" "ssd ?b' = ssd b" "freed_bfs_batch ?b' = freed_bfs_batch b"
    "threads ?b' = threads b" "pp ?b' = pp b" "write_buffer ?b' = write_buffer b" "io_events ?b' = io_events b"
    "length (partitions ?b') = length (partitions b)" "bm_wf flags ?b'" "io_get ?b' = io_get b" "used ?b' = used b" "frees ?b' = frees b"
    using pv by (auto simp: cool_page_def Let_def)
  have r: "\<rho> bf = Res l" using gS_view [OF i(4)] v by blast
  have u: "untagged bf" using encodes_untagged [OF i(2) v] by simp
  have e: "write_buffer b = []" "io_events b = []" using i(10) pc by (auto simp: gQ_def)
  have ps: "\<sigma> p' = Some l \<longleftrightarrow> p' = pid (bfs b bf)" for p' using i(4) v by (auto simp: gS_def owner_def resident_def)
  have E: "encodes (swips ?b') ?V" using encodes_upd [OF i(2), of "Some (Cool bf)" l] u b'(1) by simp
  have "gS ?fr ?V \<rho> \<sigma>"
  proof (rule gS_step [OF i(4), where bf = bf])
    show "\<forall>l'. l' \<noteq> l \<longrightarrow> \<not> resident V l' bf" using gS_role [OF i(4)] r by auto
    show "\<forall>x l'. \<rho> x = Res l' \<longleftrightarrow> (if x = bf then l' = l \<and> (Some (Cool bf) = Some (Hot bf) \<or> Some (Cool bf) = Some (Cool bf)) else \<rho> x = Res l')"
      using r by auto
    show "\<forall>p' l'. \<sigma> p' = Some l' \<longleftrightarrow> (if l' = l then owner ?fr ?V l p' else \<sigma> p' = Some l')" using ps by (auto simp: owner_def resident_def)
  qed (use v in \<open>auto simp: resident_def\<close>)
  moreover have "gC ?fr \<rho> (ssd b)" using i(5) by (auto simp: gC_def)
  moreover have "gT (threads b) ?fr ?V \<rho> (io_get b) (ssd b)" by (rule gT_frame [OF i(7)]) (use r v in auto)
  moreover have "gI (threads b) ?fr ?V \<rho> (io_get b) (ssd b)" by (rule gI_frame [OF i(8)]) (use r v in auto)
  moreover have "gP ?fr ?V \<rho> \<sigma> (io_get b) [] [] (ssd b)" using i(9) e by (auto simp: gP_def)
  ultimately show "bm_inv_at flags ?V \<rho> \<sigma> ?b'" using i(3,6) E b' e pc unfolding bm_inv_at_def by (simp add: gQ_def)
  have "contents ?fr (ssd b) = contents (bfs b) (ssd b)" by (rule contents_page) auto
  then show "pages ?b' = pages b" using v b'(2,3) by (intro pages_eqI [OF i(2) E]) (auto simp: contents_def)
qed

section \<open>The cooling queue\<close>

lemma erase_views:
  assumes wf: "bm_wf flags b" and q: "q < length (partitions b)"
  shows "bm_wf flags (erase_entry q i b)" "io_get (erase_entry q i b) = io_get b" "used (erase_entry q i b) = used b"
    "frees (erase_entry q i b) = frees b" "queue (erase_entry q i b) = (queue b)(q := take i (queue b q) @ drop (i + 1) (queue b q))"
proof -
  show "bm_wf flags (erase_entry q i b)" "io_get (erase_entry q i b) = io_get b" "used (erase_entry q i b) = used b"
    "frees (erase_entry q i b) = frees b"
    unfolding erase_entry_def by (rule part_queue_views [OF wf]; simp)+
  show "queue (erase_entry q i b) = (queue b)(q := take i (queue b q) @ drop (i + 1) (queue b q))"
    using q by (simp add: erase_entry_def queue_partition) (simp add: queue_def)
qed

lemma erase_simps [simp]:
  "bfs (erase_entry q i b) = bfs b" "swips (erase_entry q i b) = swips b" "ssd (erase_entry q i b) = ssd b" "threads (erase_entry q i b) = threads b"
  "pp (erase_entry q i b) = pp b" "write_buffer (erase_entry q i b) = write_buffer b" "io_events (erase_entry q i b) = io_events b"
  "freed_bfs_batch (erase_entry q i b) = freed_bfs_batch b" "length (partitions (erase_entry q i b)) = length (partitions b)"
  by (simp_all add: erase_entry_def)

lemma take_erase: "set (take n (take i xs @ drop (i + 1) xs)) \<subseteq> set (take (Suc n) xs)"
proof (induction xs arbitrary: n i)
  case (Cons x xs)
  show ?case
  proof (cases i)
    case 0
    then show ?thesis by auto
  next
    case (Suc j)
    then show ?thesis using Cons [of "n - 1" j] by (cases n) auto
  qed
qed simp

lemma quiet_upto_less: "quiet_upto fr io xs n \<Longrightarrow> m \<le> n \<Longrightarrow> quiet_upto fr io xs m"
  using set_take_subset_set_take [of m n xs] by (auto simp: quiet_upto_def)

lemma quiet_upto_erase: "quiet_upto fr io xs (Suc n) \<Longrightarrow> quiet_upto fr io (take i xs @ drop (i + 1) xs) n"
  using take_erase [of n i xs] by (auto simp: quiet_upto_def)

lemma quiet_upto_keep: "quiet_upto fr io xs i \<Longrightarrow> i \<le> length xs \<Longrightarrow> quiet_upto fr io (take i xs @ ys) i"
  by (simp add: quiet_upto_def)

lemma quiet_upto_Suc: "quiet_upto fr io xs i \<Longrightarrow> i < length xs \<Longrightarrow> quiet fr io (xs ! i) \<Longrightarrow> quiet_upto fr io xs (Suc i)"
  by (auto simp: quiet_upto_def take_Suc_conv_app_nth)

text \<open>Steps that move in the queue only.\<close>

lemma queue_only_inv:
  assumes inv: "bm_inv_at flags V \<rho> \<sigma> b"
    and b': "swips b' = swips b" "bfs b' = bfs b" "ssd b' = ssd b" "freed_bfs_batch b' = freed_bfs_batch b"
      "threads b' = threads b" "write_buffer b' = write_buffer b" "io_events b' = io_events b"
      "length (partitions b') = length (partitions b)" "bm_wf flags b'" "io_get b' = io_get b" "used b' = used b" "frees b' = frees b"
    and Q: "gQ (pp b') (queue b') (write_buffer b) (io_events b) (bfs b) (io_get b) (length (partitions b))"
  shows "bm_inv_at flags V \<rho> \<sigma> b' \<and> pages b' = pages b"
  using inv Q pages_cong [OF b'(1-3)] unfolding bm_inv_at_def b' by (auto simp: b'(9))

section \<open>Eviction\<close>

lemma push_batch_inv:
  assumes inv: "bm_inv_at flags V \<rho> \<sigma> b" and q: "q < length (partitions b)"
  shows "\<exists>\<rho>'. bm_inv_at flags V \<rho>' \<sigma> (push_batch q b) \<and> pages (push_batch q b) = pages b"
proof -
  note i = bm_inv_atD [OF inv]
  let ?bt = "freed_bfs_batch b" and ?b' = "push_batch q b"
  let ?g = "\<lambda>P. P\<lparr>dram_free_list := ?bt @ dram_free_list P\<rparr>" and ?\<rho> = "\<lambda>x. if x \<in> set ?bt then InFree q else \<rho> x"
  let ?fl = "(frees b)(q := ?bt @ frees b q)"
  have w: "bm_wf flags (with_partition q ?g b)" "io_get (with_partition q ?g b) = io_get b" "used (with_partition q ?g b) = used b"
    by (rule with_partition_local [OF i(1)]; simp)+
  have w': "frees (with_partition q ?g b) = ?fl" "queue (with_partition q ?g b) = queue b"
    using q by (simp_all add: frees_partition queue_keep) (simp add: frees_def)
  have b': "swips ?b' = swips b" "bfs ?b' = bfs b" "ssd ?b' = ssd b" "freed_bfs_batch ?b' = []"
    "threads ?b' = threads b" "pp ?b' = pp b" "write_buffer ?b' = write_buffer b" "io_events ?b' = io_events b"
    "length (partitions ?b') = length (partitions b)" "bm_wf flags ?b'" "io_get ?b' = io_get b" "used ?b' = used b" "frees ?b' = ?fl" "queue ?b' = queue b"
    using w w' by (simp_all add: push_batch_def)
  have r: "\<rho> x = InBatch" "untagged x" if "x \<in> set ?bt" for x using i(6) that by (auto simp: gF_def)
  have F: "gF ?fl [] ?\<rho>"
  proof -
    have "x \<notin> set ?bt" if "x \<in> set (frees b q')" for x q'
    proof -
      have "\<rho> x = InFree q'" using i(6) that unfolding gF_def by blast
      then show ?thesis using r(1) [of x] by auto
    qed
    then show ?thesis using i(6) r(2) unfolding gF_def by auto
  qed
  have ro: "?\<rho> x = Res l \<longleftrightarrow> \<rho> x = Res l" "?\<rho> x = Leaked \<longleftrightarrow> \<rho> x = Leaked" "\<rho> x = Load t \<Longrightarrow> ?\<rho> x = Load t" "\<rho> x = ReadyFor p \<Longrightarrow> ?\<rho> x = ReadyFor p" for x l t p
    using r(1) [of x] by auto
  have "gT (threads b) (bfs b) V ?\<rho> (io_get b) (ssd b)" by (rule gT_frame [OF i(7)]) (use ro in auto)
  moreover have "gI (threads b) (bfs b) V ?\<rho> (io_get b) (ssd b)" by (rule gI_frame [OF i(8)]) (use ro in auto)
  moreover have "gP (bfs b) V ?\<rho> \<sigma> (io_get b) (write_buffer b) (io_events b) (ssd b)" by (rule gP_roles [OF i(9) ro(1,2)])
  ultimately have "bm_inv_at flags V ?\<rho> \<sigma> ?b'"
    using i(2,3,10) gS_roles [OF i(4) ro(1)] gC_roles [OF i(5) ro(1)] F b' unfolding bm_inv_at_def by simp
  then show ?thesis using pages_cong [OF b'(1-3)] by blast
qed

lemma evicted_inv:
  assumes inv: "bm_inv_at flags V \<rho> \<sigma> b" and v: "V l = Some (Cool bf)" and p: "p = pid (bfs b bf)"
    and c: "\<not> isWB (bfs b bf)" "\<not> isDirty (bfs b bf)" "io_get b p = None"
    and b': "swips b' = (swips b)(l \<mapsto> swip_evict p)" "bfs b' = (bfs b)(bf := bf_reset (bfs b bf))" "ssd b' = ssd b"
      "freed_bfs_batch b' = bf # freed_bfs_batch b" "threads b' = threads b" "write_buffer b' = write_buffer b" "io_events b' = io_events b"
      "length (partitions b') = length (partitions b)" "bm_wf flags b'" "io_get b' = io_get b" "used b' = used b" "frees b' = frees b"
    and Q: "gQ (pp b') (queue b') (write_buffer b) (io_events b) (bfs b) (io_get b) (length (partitions b))"
  shows "bm_inv_at flags (V(l \<mapsto> Evicted p)) (\<rho>(bf := InBatch)) \<sigma> b' \<and> pages b' = pages b"
proof
  note i = bm_inv_atD [OF inv]
  let ?fr = "(bfs b)(bf := bf_reset (bfs b bf))" and ?V = "V(l \<mapsto> Evicted p)" and ?\<rho> = "\<rho>(bf := InBatch)"
  have r: "\<rho> bf = Res l" using gS_view [OF i(4)] v by blast
  have u: "untagged bf" using encodes_untagged [OF i(2) v] by simp
  have ps: "\<sigma> p' = Some l \<longleftrightarrow> p' = p" for p' using i(4) v p by (auto simp: gS_def owner_def resident_def)
  have nr: "resident V l' bf \<Longrightarrow> l' = l" for l' using gS_role [OF i(4), of l' bf] r by auto
  have nh: "V l' \<noteq> Some (Hot bf)" for l' using nr [of l'] v by (auto simp: resident_def)
  have "p \<in> used b" using ps i(3) by blast
  then have up: "untagged p" by (rule used_untagged [OF i(1)])
  have E: "encodes (swips b') ?V" using encodes_upd [OF i(2), of "Some (Evicted p)" l] up b'(1) by simp
  have st: "state (?fr bf) = FREE" by (simp add: bf_reset_def)
  have q: "quiet (bfs b) (io_get b) x \<Longrightarrow> quiet ?fr (io_get b) x" for x by (auto simp: quiet_def bf_reset_def)
  have S: "gS ?fr ?V ?\<rho> \<sigma>"
  proof (rule gS_step [OF i(4), where bf = bf])
    show "\<forall>p' l'. \<sigma> p' = Some l' \<longleftrightarrow> (if l' = l then owner ?fr ?V l p' else \<sigma> p' = Some l')" using ps by (auto simp: owner_def resident_def)
  qed (use v nr st in \<open>auto simp: resident_def\<close>)
  have P: "gP ?fr ?V ?\<rho> \<sigma> (io_get b) (write_buffer b) (io_events b) (ssd b)"
  proof (rule gP_mono [OF i(9)])
    fix x p' pg assume m: "(x, p', pg) \<in> set (write_buffer b @ io_events b)" and *: "pending_ok (bfs b) V \<rho> \<sigma> x p' pg"
    have x: "x \<noteq> bf" using gP_pending(3) [OF i(9), of x p' pg] m c(1) by auto
    show "pending_ok ?fr ?V ?\<rho> \<sigma> x p' pg"
      by (rule pending_mono [OF *]) (use x v nh in auto)
  qed (use q c(1) in \<open>auto simp: bf_reset_def split: if_splits\<close>)
  have "gC ?fr ?\<rho> (ssd b)" using i(5) by (auto simp: gC_def)
  moreover have "gF (frees b) (bf # freed_bfs_batch b) ?\<rho>" using i(6) r u unfolding gF_def by auto
  moreover have "gT (threads b) ?fr ?V ?\<rho> (io_get b) (ssd b)" by (rule gT_frame [OF i(7)]) (use r v in auto)
  moreover have "gI (threads b) ?fr ?V ?\<rho> (io_get b) (ssd b)"
    by (rule gI_step [OF i(8), of p]) (use r v c(3) in auto)
  ultimately show "bm_inv_at flags ?V ?\<rho> \<sigma> b'"
    using i(3) E S P b' gQ_mono [OF Q q] unfolding bm_inv_at_def by simp
  have "dt (ssd b p) = dt (page (bfs b bf))" using i(5) r c(2) p by (auto simp: gC_def isDirty_def)
  moreover have "contents ?fr (ssd b) = contents (bfs b) (ssd b)" by (rule contents_page) (simp add: bf_reset_def)
  ultimately show "pages b' = pages b" using v b'(2,3) by (intro pages_eqI [OF i(2) E]) (auto simp: contents_def)
qed

lemma evict_inv:
  assumes inv: "bm_inv_at flags V \<rho> \<sigma> b" and v: "V l = Some (Cool bf)" and q: "q < length (partitions b)"
    and c: "\<not> isWB (bfs b bf)" "\<not> isDirty (bfs b bf)" "io_get b (pid (bfs b bf)) = None"
    and Q: "gQ pc ((queue b)(q := take i (queue b q) @ drop (i + 1) (queue b q))) (write_buffer b) (io_events b) (bfs b) (io_get b) (length (partitions b))"
  shows "\<exists>V' \<rho>'. bm_inv_at flags V' \<rho>' \<sigma> ((evict_bf flags q i bf l b)\<lparr>pp := pc\<rparr>) \<and> pages ((evict_bf flags q i bf l b)\<lparr>pp := pc\<rparr>) = pages b"
proof -
  note i = bm_inv_atD [OF inv]
  let ?b1 = "(with_bf bf bf_reset (set_swip l (Some (swip_evict (pid (bfs b bf)))) (erase_entry q i b)))\<lparr>freed_bfs_batch := bf # freed_bfs_batch b, pp := pc\<rparr>"
  note ev = erase_views [OF i(1) q, of i]
  have p1: "partitions ?b1 = partitions (erase_entry q i b)" by simp
  have e1: "bm_inv_at flags (V(l \<mapsto> Evicted (pid (bfs b bf)))) (\<rho>(bf := InBatch)) \<sigma> ?b1 \<and> pages ?b1 = pages b"
    by (rule evicted_inv [OF inv v refl c]) (use ev Q views_partitions [OF p1] in simp_all)
  have e: "(evict_bf flags q i bf l b)\<lparr>pp := pc\<rparr> =
      (if length (bf # freed_bfs_batch b) \<le> min (worker_threads flags) 128 then push_batch q ?b1 else ?b1)"
    by (simp add: evict_bf_def Let_def push_batch_def with_partition_def)
  have q1: "q < length (partitions ?b1)" using q by simp
  show ?thesis
  proof (cases "length (bf # freed_bfs_batch b) \<le> min (worker_threads flags) 128")
    case True
    obtain \<rho>' where "bm_inv_at flags (V(l \<mapsto> Evicted (pid (bfs b bf)))) \<rho>' \<sigma> (push_batch q ?b1)" "pages (push_batch q ?b1) = pages ?b1"
      using push_batch_inv [OF conjunct1 [OF e1] q1] by blast
    then show ?thesis unfolding e if_P [OF True] using conjunct2 [OF e1] by metis
  next
    case False
    show ?thesis unfolding e if_not_P [OF False] using e1 by blast
  qed
qed

end
