(* ===== verification/BufferWriter.thy ===== *)
theory BufferWriter
  imports BufferProvider
begin

text \<open>Write-back by the page provider, and its loops.\<close>

section \<open>The write buffer\<close>

lemma gS_hot: "gS fr V \<rho> \<sigma> \<Longrightarrow> V l = Some (Hot bf) \<Longrightarrow> state (fr bf) = HOT"
  by (simp add: gS_def)

text \<open>A frame that is about to be written is not in the write buffer yet, nor is its page number.\<close>

lemma pending_pid:
  assumes S: "gS fr V \<rho> \<sigma>" and P: "gP fr V \<rho> \<sigma> io wb ev D" and r: "\<rho> bf = Res l"
    and m: "(x, pid (fr bf), pg) \<in> set wb \<or> (x, pid (fr bf), pg) \<in> set ev"
  shows "x = bf \<or> \<rho> x = Leaked \<and> V l = Some (Hot bf) \<and> \<not> isWB (fr bf) \<and> lastWrittenGSN (fr bf) < GSN (page (fr bf))"
proof -
  have ok: "pending_ok fr V \<rho> \<sigma> x (pid (fr bf)) pg" by (rule gP_pending [OF P m])
  have s: "\<sigma> (pid (fr bf)) = Some l" by (rule gS_owner [OF S r])
  have rs: "resident V l bf" using gS_role [OF S] r by blast
  show ?thesis
  proof (cases "\<exists>l'. \<rho> x = Res l'")
    case True
    then obtain l' where l': "\<rho> x = Res l'" by blast
    then have "\<sigma> (pid (fr bf)) = Some l'" using gS_owner [OF S l'] ok by (simp add: pending_ok_def)
    then have "resident V l x" using s l' gS_role [OF S] by auto
    then show ?thesis using rs by (auto simp: resident_def)
  next
    case False
    then have "\<rho> x = Leaked" using ok by (auto simp: pending_ok_def)
    then obtain bf' where "V l = Some (Hot bf')" "\<not> isWB (fr bf')" "lastWrittenGSN (fr bf') < GSN (page (fr bf'))"
      using ok s by (auto simp: pending_ok_def)
    then show ?thesis using rs \<open>\<rho> x = Leaked\<close> by (auto simp: resident_def)
  qed
qed

lemma wb_add_inv:
  assumes inv: "bm_inv_at flags V \<rho> \<sigma> b" and pc: "pp b = Phase2 q i left" and n: "i < length (queue b q)" and bf: "bf = queue b q ! i"
    and c: "state (bfs b bf) = COOL" "\<not> isWB (bfs b bf)" "io_get b (pid (bfs b bf)) = None" "isDirty (bfs b bf)"
  shows "bm_inv_at flags V \<rho> \<sigma> ((wb_add bf (pid (bfs b bf)) (with_bf bf (\<lambda>f. f\<lparr>isWB := True\<rparr>) b))\<lparr>pp := Phase2 q (i + 1) left'\<rparr>) \<and>
    pages ((wb_add bf (pid (bfs b bf)) (with_bf bf (\<lambda>f. f\<lparr>isWB := True\<rparr>) b))\<lparr>pp := Phase2 q (i + 1) left'\<rparr>) = pages b"
    (is "bm_inv_at flags V \<rho> \<sigma> ?b' \<and> pages ?b' = pages b")
proof
  note i = bm_inv_atD [OF inv]
  let ?p = "pid (bfs b bf)"
  let ?pg = "(page (bfs b bf))\<lparr>magic_debugging_number := ?p\<rparr>"
  let ?fr = "(bfs b)(bf := (bfs b bf)\<lparr>isWB := True, page := ?pg\<rparr>)" and ?wb = "write_buffer b @ [(bf, ?p, ?pg)]"
  have b': "swips ?b' = swips b" "bfs ?b' = ?fr" "ssd ?b' = ssd b" "freed_bfs_batch ?b' = freed_bfs_batch b"
    "threads ?b' = threads b" "pp ?b' = Phase2 q (i + 1) left'" "write_buffer ?b' = ?wb" "io_events ?b' = io_events b" "partitions ?b' = partitions b"
    by (simp_all add: wb_add_def Let_def)
  note vw = views_partitions [OF b'(9)]
  obtain l where v: "V l = Some (Cool bf)" "\<rho> bf = Res l" using gS_cool [OF i(4) c(1)] by blast
  have q: "q < length (partitions b)" "io_events b = []" "length (write_buffer b) \<le> i" "quiet_upto (bfs b) (io_get b) (queue b q) i"
    using i(10) pc by (auto simp: gQ_def)
  have P: "gP (bfs b) V \<rho> \<sigma> (io_get b) (write_buffer b) [] (ssd b)" using i(9) q(2) by simp
  have nw: "bf \<notin> fst ` set (write_buffer b)" using P c(2) by (simp add: gP_def)
  have np: "?p \<notin> (\<lambda>x. fst (snd x)) ` set (write_buffer b)"
  proof
    assume "?p \<in> (\<lambda>x. fst (snd x)) ` set (write_buffer b)"
    then obtain x pg where m: "(x, ?p, pg) \<in> set (write_buffer b)" by force
    then have "x = bf" using pending_pid [OF i(4) P v(2), of x pg] v(1) by auto
    then show False using nw m by force
  qed
  have lt: "lastWrittenGSN (bfs b bf) < GSN (page (bfs b bf))" using i(5) v(2) c(4) by (auto simp: gC_def isDirty_def order.order_iff_strict)
  have qt: "quiet (bfs b) (io_get b) x \<Longrightarrow> quiet ?fr (io_get b) x" for x by (auto simp: quiet_def)
  have qb: "quiet ?fr (io_get b) bf" using c(3) by (simp add: quiet_def)
  have pok: "pending_ok ?fr V \<rho> \<sigma> x p pg" if m: "(x, p, pg) \<in> set (write_buffer b)" for x p pg
  proof (rule pending_mono)
    show "pending_ok (bfs b) V \<rho> \<sigma> x p pg" using gP_pending(1) [OF P] m by blast
    have "x \<noteq> bf" using nw m by force
    then show "pid (?fr x) = pid (bfs b x)" "lastWrittenGSN (?fr x) = lastWrittenGSN (bfs b x)" "page (?fr x) = page (bfs b x)" by auto
    fix l' bf' assume "V l' = Some (Hot bf')" "\<not> isWB (bfs b bf')" "lastWrittenGSN (bfs b bf') < GSN (page (bfs b bf'))"
    moreover have "bf' \<noteq> bf" using gS_hot [OF i(4) calculation(1)] c(1) by auto
    ultimately show "V l' = Some (Hot bf') \<and> \<not> isWB (?fr bf') \<and> lastWrittenGSN (?fr bf') < GSN (page (?fr bf'))" by simp
  qed auto
  have "gP ?fr V \<rho> \<sigma> (io_get b) ?wb [] (ssd b)"
    unfolding gP_def
  proof (intro conjI allI ballI)
    fix y assume y: "y \<in> set (?wb @ [])"
    show "case y of (bf, p, pg) \<Rightarrow> pending_ok ?fr V \<rho> \<sigma> bf p pg \<and> quiet ?fr (io_get b) bf"
    proof (cases "y \<in> set (write_buffer b)")
      case True
      obtain x p pg where e: "y = (x, p, pg)" by (rule prod_cases3)
      then show ?thesis using True pok [of x p pg] qt gP_pending(2) [OF P, of x p pg] by auto
    next
      case False
      then have "y = (bf, ?p, ?pg)" using y by auto
      then show ?thesis using lt v(2) qb by (simp add: pending_ok_def)
    qed
  next
    fix x show "isWB (?fr x) \<longleftrightarrow> x \<in> fst ` set (?wb @ [])" using P by (auto simp: gP_def)
  qed (use P nw np in \<open>simp_all add: gP_def\<close>)
  moreover have "gS ?fr V \<rho> \<sigma>" by (rule gS_fields [OF i(4)]) auto
  moreover have "gC ?fr \<rho> (ssd b)" using i(5) by (auto simp: gC_def)
  moreover have "gT (threads b) ?fr V \<rho> (io_get b) (ssd b)" by (rule gT_frame [OF i(7)]) (use v in auto)
  moreover have "gI (threads b) ?fr V \<rho> (io_get b) (ssd b)" by (rule gI_frame [OF i(8)]) (use v in auto)
  moreover have "gQ (Phase2 q (i + 1) left') (queue b) ?wb [] ?fr (io_get b) (length (partitions b))"
  proof -
    have "quiet (bfs b) (io_get b) (queue b q ! i)" using c(3) bf by (simp add: quiet_def)
    then have "quiet_upto (bfs b) (io_get b) (queue b q) (i + 1)" using quiet_upto_Suc [OF q(4) n] by simp
    then show ?thesis using q qt by (auto simp: gQ_def quiet_upto_def)
  qed
  ultimately show "bm_inv_at flags V \<rho> \<sigma> ?b'" using i(1-3,6) q(2) b' vw unfolding bm_inv_at_def by simp
  have "contents ?fr (ssd b) = contents (bfs b) (ssd b)" by (rule contents_page) auto
  then show "pages ?b' = pages b" using i(2) b'(1-3) by (intro pages_eqI [OF i(2), of _ V]) auto
qed

section \<open>Writing back\<close>

definition write_all :: "(u64 \<times> u64 \<times> Page) list \<Rightarrow> (u64 \<Rightarrow> Page) \<Rightarrow> u64 \<Rightarrow> Page" where
  "write_all wb D = foldl (\<lambda>d (bf, p, pg). d(p := pg)) D wb"

lemma write_all_other: "p \<notin> (\<lambda>x. fst (snd x)) ` set wb \<Longrightarrow> write_all wb D p = D p"
  by (induction wb arbitrary: D) (auto simp: write_all_def)

lemma write_all_written:
  "distinct (map (\<lambda>x. fst (snd x)) wb) \<Longrightarrow> (bf, p, pg) \<in> set wb \<Longrightarrow> write_all wb D p = pg"
proof (induction wb arbitrary: D)
  case (Cons y wb)
  have e: "write_all (y # wb) D = write_all wb (D(fst (snd y) := snd (snd y)))" by (simp add: write_all_def case_prod_beta)
  show ?case
  proof (cases "(bf, p, pg) \<in> set wb")
    case True
    then show ?thesis using Cons e by simp
  next
    case False
    then have "y = (bf, p, pg)" using Cons.prems(2) by auto
    then show ?thesis using Cons.prems(1) e write_all_other [of p wb] by auto
  qed
qed simp

lemma pp_submit_inv:
  assumes inv: "bm_inv_at flags V \<rho> \<sigma> b" and pc: "pp b = Submit q"
  shows "bm_inv_at flags V \<rho> \<sigma> (pp_submit b) \<and> pages (pp_submit b) = pages b"
proof
  note i = bm_inv_atD [OF inv]
  let ?wb = "write_buffer b" and ?b' = "pp_submit b"
  let ?D = "write_all ?wb (ssd b)"
  have q: "io_events b = []" "q < length (partitions b)" "quiet_upto (bfs b) (io_get b) (queue b q) (length ?wb)" using i(10) pc by (auto simp: gQ_def)
  have P: "gP (bfs b) V \<rho> \<sigma> (io_get b) ?wb [] (ssd b)" using i(9) q(1) by simp
  have b': "swips ?b' = swips b" "bfs ?b' = bfs b" "ssd ?b' = ?D" "freed_bfs_batch ?b' = freed_bfs_batch b"
    "threads ?b' = threads b" "pp ?b' = Written q (length ?wb)" "write_buffer ?b' = []" "io_events ?b' = ?wb" "partitions ?b' = partitions b"
    using pc by (simp_all add: pp_submit_def write_all_def)
  note vw = views_partitions [OF b'(9)]
  have ev: "?D p = ssd b p" if v: "V l = Some (Evicted p)" for l p
  proof (rule write_all_other)
    show "p \<notin> (\<lambda>x. fst (snd x)) ` set ?wb"
    proof
      assume "p \<in> (\<lambda>x. fst (snd x)) ` set ?wb"
      then obtain x pg where m: "(x, p, pg) \<in> set ?wb" by force
      then have ok: "pending_ok (bfs b) V \<rho> \<sigma> x p pg" using gP_pending(1) [OF P] by blast
      have s: "\<sigma> p = Some l" by (rule gS_evicted [OF i(4) v])
      show False
      proof (cases "\<exists>l'. \<rho> x = Res l'")
        case True
        then obtain l' where l': "\<rho> x = Res l'" by blast
        then have "l' = l" using gS_owner [OF i(4) l'] ok s by (simp add: pending_ok_def)
        then show False using gS_role [OF i(4), of l x] l' v by (simp add: resident_def)
      next
        case False
        then show False using ok s v by (auto simp: pending_ok_def)
      qed
    qed
  qed
  have "gC (bfs b) \<rho> ?D" unfolding gC_def
  proof (intro allI impI conjI)
    fix bf l assume r: "\<rho> bf = Res l"
    show "lastWrittenGSN (bfs b bf) \<le> GSN (page (bfs b bf))" using i(5) r by (auto simp: gC_def)
    assume c: "lastWrittenGSN (bfs b bf) = GSN (page (bfs b bf))"
    have "pid (bfs b bf) \<notin> (\<lambda>x. fst (snd x)) ` set ?wb"
    proof
      assume "pid (bfs b bf) \<in> (\<lambda>x. fst (snd x)) ` set ?wb"
      then obtain x pg where m: "(x, pid (bfs b bf), pg) \<in> set ?wb" by force
      then have "pending_ok (bfs b) V \<rho> \<sigma> x (pid (bfs b bf)) pg" using gP_pending(1) [OF P] by blast
      then show False using pending_pid [OF i(4) P r, of x pg] m c by (auto simp: pending_ok_def)
    qed
    then show "dt (?D (pid (bfs b bf))) = dt (page (bfs b bf))" using write_all_other i(5) r c by (auto simp: gC_def)
  qed
  moreover have "gT (threads b) (bfs b) V \<rho> (io_get b) ?D" by (rule gT_frame [OF i(7)]) (use ev in auto)
  moreover have "gI (threads b) (bfs b) V \<rho> (io_get b) ?D" by (rule gI_frame [OF i(8)]) (use ev in auto)
  moreover have "gP (bfs b) V \<rho> \<sigma> (io_get b) [] ?wb ?D"
    using P write_all_written [of ?wb] unfolding gP_def by auto
  moreover have "gQ (Written q (length ?wb)) (queue b) [] ?wb (bfs b) (io_get b) (length (partitions b))" using q by (simp add: gQ_def)
  ultimately show "bm_inv_at flags V \<rho> \<sigma> ?b'" using i(1-4,6) b' vw unfolding bm_inv_at_def by simp
  have "contents (bfs b) ?D v = contents (bfs b) (ssd b) v" if "V l = Some v" for l v
    using that ev [of l] by (cases v) (auto simp: contents_def)
  then show "pages ?b' = pages b" using b'(1-3) i(2) by (intro pages_eqI [OF i(2), of _ V]) (auto intro: map_option_cong)
qed

lemma pp_written_inv:
  assumes inv: "bm_inv_at flags V \<rho> \<sigma> b" and pc: "pp b = Written q n"
  shows "bm_inv_at flags V \<rho> \<sigma> (pp_written b) \<and> pages (pp_written b) = pages b"
proof (cases "io_events b")
  case Nil
  then have e: "pp_written b = b\<lparr>pp := Phase3 q 0 n\<rparr>" using pc by (simp add: pp_written_def)
  show ?thesis unfolding e using bm_inv_atD [OF inv] Nil pc by (intro queue_only_inv [OF inv]) (auto simp: gQ_def)
next
  case (Cons y rest)
  obtain bf p pg where y: "y = (bf, p, pg)" by (rule prod_cases3)
  note i = bm_inv_atD [OF inv]
  let ?b' = "pp_written b" and ?fr = "(bfs b)(bf := (bfs b bf)\<lparr>lastWrittenGSN := GSN pg, isWB := False\<rparr>)"
  have q: "write_buffer b = []" "q < length (partitions b)" "quiet_upto (bfs b) (io_get b) (queue b q) n" using i(10) pc by (auto simp: gQ_def)
  have P: "gP (bfs b) V \<rho> \<sigma> (io_get b) [] ((bf, p, pg) # rest) (ssd b)" using i(9) q(1) Cons y by simp
  have b': "swips ?b' = swips b" "bfs ?b' = ?fr" "ssd ?b' = ssd b" "freed_bfs_batch ?b' = freed_bfs_batch b"
    "threads ?b' = threads b" "pp ?b' = Written q n" "write_buffer ?b' = []" "io_events ?b' = rest" "partitions ?b' = partitions b"
    using pc Cons y q(1) by (simp_all add: pp_written_def)
  note vw = views_partitions [OF b'(9)]
  have m: "pending_ok (bfs b) V \<rho> \<sigma> bf p pg" "isWB (bfs b bf)" using gP_pending [OF P, of bf p pg] by auto
  have d: "dt (ssd b p) = dt pg" if "\<rho> bf = Res l" for l using P that by (auto simp: gP_def)
  have role: "\<rho> bf \<noteq> Load t" "\<rho> bf \<noteq> ReadyFor p'" for t p' using m(1) by (auto simp: pending_ok_def)
  have qt: "quiet (bfs b) (io_get b) x \<Longrightarrow> quiet ?fr (io_get b) x" for x by (auto simp: quiet_def)
  have nd: "bf \<notin> fst ` set rest" using P by (simp add: gP_def)
  have pok: "pending_ok ?fr V \<rho> \<sigma> x p' pg'" if mx: "(x, p', pg') \<in> set rest" for x p' pg'
  proof (rule pending_mono)
    show "pending_ok (bfs b) V \<rho> \<sigma> x p' pg'" using gP_pending(1) [OF P, of x p' pg'] mx by auto
    have "x \<noteq> bf" using nd mx by force
    then show "pid (?fr x) = pid (bfs b x)" "lastWrittenGSN (?fr x) = lastWrittenGSN (bfs b x)" "page (?fr x) = page (bfs b x)" by auto
    fix l' bf' assume "V l' = Some (Hot bf')" "\<not> isWB (bfs b bf')" "lastWrittenGSN (bfs b bf') < GSN (page (bfs b bf'))"
    then show "V l' = Some (Hot bf') \<and> \<not> isWB (?fr bf') \<and> lastWrittenGSN (?fr bf') < GSN (page (?fr bf'))" using m(2) by (cases "bf' = bf") auto
  qed auto
  have "gP ?fr V \<rho> \<sigma> (io_get b) [] rest (ssd b)"
    unfolding gP_def
  proof (intro conjI allI ballI)
    fix z assume z: "z \<in> set ([] @ rest)"
    obtain x p' pg' where e: "z = (x, p', pg')" by (rule prod_cases3)
    show "case z of (bf, p, pg) \<Rightarrow> pending_ok ?fr V \<rho> \<sigma> bf p pg \<and> quiet ?fr (io_get b) bf"
      using pok [of x p' pg'] qt gP_pending(2) [OF P, of x p' pg'] z e by auto
  next
    fix x show "isWB (?fr x) \<longleftrightarrow> x \<in> fst ` set ([] @ rest)" using P nd by (auto simp: gP_def)
  qed (use P in \<open>auto simp: gP_def\<close>)
  moreover have "gS ?fr V \<rho> \<sigma>" by (rule gS_fields [OF i(4)]) auto
  moreover have "gC ?fr \<rho> (ssd b)" using i(5) m(1) d unfolding gC_def by (auto simp: pending_ok_def)
  moreover have "gT (threads b) ?fr V \<rho> (io_get b) (ssd b)" by (rule gT_frame [OF i(7)]) (use role in auto)
  moreover have "gI (threads b) ?fr V \<rho> (io_get b) (ssd b)" by (rule gI_frame [OF i(8)]) (use role in auto)
  moreover have "gQ (Written q n) (queue b) [] rest ?fr (io_get b) (length (partitions b))" using q qt by (auto simp: gQ_def quiet_upto_def)
  ultimately have "bm_inv_at flags V \<rho> \<sigma> ?b'" using i(1-3,6) b' vw unfolding bm_inv_at_def by simp
  moreover have "contents ?fr (ssd b) = contents (bfs b) (ssd b)" by (rule contents_page) auto
  then have "pages ?b' = pages b" using i(2) b'(1-3) by (intro pages_eqI [OF i(2), of _ V]) auto
  ultimately show ?thesis by blast
qed

section \<open>The loops\<close>

lemma pp_begin_inv:
  assumes "bm_inv_at flags V \<rho> \<sigma> b" "pp b = Phase1" "q < length (partitions b)"
  shows "bm_inv_at flags V \<rho> \<sigma> (pp_begin q b) \<and> pages (pp_begin q b) = pages b"
  using bm_inv_atD [OF assms(1)] assms
  by (intro queue_only_inv [OF assms(1)]) (auto simp: pp_begin_def Let_def gQ_def quiet_upto_def)

lemma erase_inv:
  assumes inv: "bm_inv_at flags V \<rho> \<sigma> b" and q: "q < length (partitions b)"
    and Q: "gQ pc ((queue b)(q := take i (queue b q) @ drop (i + 1) (queue b q))) (write_buffer b) (io_events b) (bfs b) (io_get b) (length (partitions b))"
  shows "bm_inv_at flags V \<rho> \<sigma> ((erase_entry q i b)\<lparr>pp := pc\<rparr>) \<and> pages ((erase_entry q i b)\<lparr>pp := pc\<rparr>) = pages b"
  using erase_views [OF bm_inv_atD(1) [OF inv] q, of i] Q by (intro queue_only_inv [OF inv]) auto

lemma parent_cool:
  assumes inv: "bm_inv_at flags V \<rho> \<sigma> b" and st: "state (bfs b bf) = COOL" and sw: "swips b l = Some (swip_cool bf)"
  shows "V l = Some (Cool bf)"
proof -
  note i = bm_inv_atD [OF inv]
  obtain l' where "V l' = Some (Cool bf)" using gS_cool [OF i(4) st] by blast
  then have u: "untagged bf" using encodes_untagged [OF i(2), of l'] by simp
  obtain v where v: "V l = Some v" "enc v = swip_cool bf" using i(2) sw by (cases "V l") (auto simp: encodes_def)
  have "swip_view (enc v) = v" using encodes_untagged [OF i(2) v(1)] by (rule swip_view_enc)
  then show ?thesis using v swip_view_simps(2) [OF u] by simp
qed

lemma phase2_inv:
  assumes inv: "bm_inv_at flags V \<rho> \<sigma> b" and pc: "pp b = Phase2 q i left" and fp: "at_cool_frame b \<longrightarrow> found_parent b l"
  shows "\<exists>V' \<rho>'. bm_inv_at flags V' \<rho>' \<sigma> (phase2_turn flags l b) \<and> pages (phase2_turn flags l b) = pages b"
proof -
  note i = bm_inv_atD [OF inv]
  let ?qu = "queue b q" let ?bf = "?qu ! i" let ?f = "bfs b ?bf"
  have Q: "q < length (partitions b)" "io_events b = []" "length (write_buffer b) \<le> i" "quiet_upto (bfs b) (io_get b) ?qu i"
    using i(10) pc by (auto simp: gQ_def)
  have t: "phase2_turn flags l b =
    (if left = 0 \<or> i \<ge> length ?qu then b\<lparr>pp := Submit q\<rparr>
     else if state ?f \<noteq> COOL \<or> unat (getPartitionID b (pid ?f)) \<noteq> q then (erase_entry q i b)\<lparr>pp := Phase2 q i left\<rparr>
     else if isWB ?f then b\<lparr>pp := Phase2 q (i + 1) left\<rparr>
     else if io_get b (pid ?f) \<noteq> None then (erase_entry q i b)\<lparr>pp := Phase2 q i left\<rparr>
     else if isDirty ?f then
       (if wb_full flags b then b\<lparr>pp := Submit q\<rparr>
        else (wb_add ?bf (pid ?f) (with_bf ?bf (\<lambda>f. f\<lparr>isWB := True\<rparr>) b))\<lparr>pp := Phase2 q (i + 1) (left - 1)\<rparr>)
     else (evict_bf flags q i ?bf l b)\<lparr>pp := Phase2 q i (left - 1)\<rparr>)"
    using pc by (simp add: phase2_turn_def queue_def Let_def)
  have sub: "bm_inv_at flags V \<rho> \<sigma> (b\<lparr>pp := Submit q\<rparr>) \<and> pages (b\<lparr>pp := Submit q\<rparr>) = pages b"
    using i(1) Q quiet_upto_less [OF Q(4) Q(3)] by (intro queue_only_inv [OF inv]) (auto simp: gQ_def)
  have er: "gQ (Phase2 q i left') ((queue b)(q := take i ?qu @ drop (i + 1) ?qu)) (write_buffer b) (io_events b) (bfs b) (io_get b) (length (partitions b))"
    if "i < length ?qu" for left' using Q quiet_upto_keep [OF Q(4), of "drop (i + 1) ?qu"] that by (simp add: gQ_def)
  show ?thesis
  proof (cases "left = 0 \<or> i \<ge> length ?qu")
    case True
    then show ?thesis using sub t by auto
  next
    case False
    then have n: "i < length ?qu" "left \<noteq> 0" by auto
    show ?thesis
    proof (cases "state ?f \<noteq> COOL \<or> unat (getPartitionID b (pid ?f)) \<noteq> q")
      case True
      then show ?thesis using t n erase_inv [OF inv Q(1) er [OF n(1)], of left] by auto
    next
      case c: False
      have par: "V l = Some (Cool ?bf)" if "state ?f = COOL"
        using fp pc n(1) that by (intro parent_cool [OF inv that]) (auto simp: at_cool_frame_def found_parent_def queue_def)
      consider "isWB ?f" | "\<not> isWB ?f" "io_get b (pid ?f) \<noteq> None" | "\<not> isWB ?f" "io_get b (pid ?f) = None" "isDirty ?f" | "\<not> isWB ?f" "io_get b (pid ?f) = None" "\<not> isDirty ?f"
        by blast
      then show ?thesis
      proof cases
        case 1
        then have "quiet (bfs b) (io_get b) ?bf" using gP_wb [OF i(9)] by blast
        then have "quiet_upto (bfs b) (io_get b) ?qu (i + 1)" using quiet_upto_Suc [OF Q(4) n(1)] by simp
        then have "bm_inv_at flags V \<rho> \<sigma> (b\<lparr>pp := Phase2 q (i + 1) left\<rparr>) \<and> pages (b\<lparr>pp := Phase2 q (i + 1) left\<rparr>) = pages b"
          using i(1) Q by (intro queue_only_inv [OF inv]) (auto simp: gQ_def)
        then show ?thesis using t n c 1 by auto
      next
        case 2
        then show ?thesis using t n c erase_inv [OF inv Q(1) er [OF n(1)], of left] by auto
      next
        case 3
        then show ?thesis using t n c sub wb_add_inv [OF inv pc n(1) refl, of "left - 1"] by auto
      next
        case 4
        then show ?thesis using t n c evict_inv [OF inv par Q(1) _ _ _ er [OF n(1)], of "left - 1"] by auto
      qed
    qed
  qed
qed

lemma phase2_jump_inv:
  assumes inv: "bm_inv_at flags V \<rho> \<sigma> b" and pc: "pp b = Phase2 q i left"
  shows "bm_inv_at flags V \<rho> \<sigma> (phase2_jump b) \<and> pages (phase2_jump b) = pages b"
proof -
  note i = bm_inv_atD [OF inv]
  let ?qu = "queue b q" let ?f = "bfs b (?qu ! i)"
  have Q: "q < length (partitions b)" "io_events b = []" "length (write_buffer b) \<le> i" "quiet_upto (bfs b) (io_get b) ?qu i"
    using i(10) pc by (auto simp: gQ_def)
  have "phase2_jump b = b \<or> (\<exists>left'. i < length ?qu \<and> quiet (bfs b) (io_get b) (?qu ! i) \<and> phase2_jump b = b\<lparr>pp := Phase2 q (i + 1) left'\<rparr>)"
    using pc by (auto simp: phase2_jump_def queue_def Let_def quiet_def)
  then consider "phase2_jump b = b" | left' where "i < length ?qu" "quiet (bfs b) (io_get b) (?qu ! i)" "phase2_jump b = b\<lparr>pp := Phase2 q (i + 1) left'\<rparr>"
    by blast
  then show ?thesis
  proof cases
    case 2
    then have "quiet_upto (bfs b) (io_get b) ?qu (i + 1)" using quiet_upto_Suc [OF Q(4)] by simp
    then show ?thesis unfolding 2(3) using i(1) Q by (intro queue_only_inv [OF inv]) (auto simp: gQ_def)
  qed (use inv in simp)
qed

lemma phase3_inv:
  assumes inv: "bm_inv_at flags V \<rho> \<sigma> b" and pc: "pp b = Phase3 q i left" and fp: "at_cool_frame b \<longrightarrow> found_parent b l"
  shows "\<exists>V' \<rho>'. bm_inv_at flags V' \<rho>' \<sigma> (phase3_turn flags l b) \<and> pages (phase3_turn flags l b) = pages b"
proof -
  note i = bm_inv_atD [OF inv]
  let ?qu = "queue b q" let ?bf = "?qu ! i" let ?f = "bfs b ?bf"
  have Q: "q < length (partitions b)" "io_events b = []" "write_buffer b = []" "quiet_upto (bfs b) (io_get b) ?qu (i + left)"
    using i(10) pc by (auto simp: gQ_def)
  have t: "phase3_turn flags l b =
    (if left = 0 \<or> i \<ge> length ?qu then (if freed_bfs_batch b \<noteq> [] then push_batch q (b\<lparr>pp := Phase1\<rparr>) else b\<lparr>pp := Phase1\<rparr>)
     else if state ?f \<noteq> COOL \<or> unat (getPartitionID b (pid ?f)) \<noteq> q then (erase_entry q i b)\<lparr>pp := Phase3 q i (left - 1)\<rparr>
     else if \<not> isWB ?f \<and> \<not> isDirty ?f then (evict_bf flags q i ?bf l b)\<lparr>pp := Phase3 q i (left - 1)\<rparr>
     else b\<lparr>pp := Phase3 q (i + 1) (left - 1)\<rparr>)"
    using pc by (simp add: phase3_turn_def queue_def Let_def push_batch_def with_partition_def)
  have ph1: "bm_inv_at flags V \<rho> \<sigma> (b\<lparr>pp := Phase1\<rparr>)" "pages (b\<lparr>pp := Phase1\<rparr>) = pages b"
    using queue_only_inv [OF inv, of "b\<lparr>pp := Phase1\<rparr>"] i(1) Q by (auto simp: gQ_def)
  have er: "gQ (Phase3 q i (left - 1)) ((queue b)(q := take i ?qu @ drop (i + 1) ?qu)) (write_buffer b) (io_events b) (bfs b) (io_get b) (length (partitions b))"
    if "left \<noteq> 0" using Q quiet_upto_erase [of "bfs b" "io_get b" ?qu "i + left - 1" i] that by (simp add: gQ_def)
  show ?thesis
  proof (cases "left = 0 \<or> i \<ge> length ?qu")
    case True
    obtain \<rho>' where "bm_inv_at flags V \<rho>' \<sigma> (push_batch q (b\<lparr>pp := Phase1\<rparr>))" "pages (push_batch q (b\<lparr>pp := Phase1\<rparr>)) = pages b"
      using push_batch_inv [OF ph1(1), of q] ph1(2) Q(1) by auto
    then show ?thesis using True t ph1 by auto
  next
    case False
    then have n: "i < length ?qu" "left \<noteq> 0" by auto
    show ?thesis
    proof (cases "state ?f \<noteq> COOL \<or> unat (getPartitionID b (pid ?f)) \<noteq> q")
      case True
      then show ?thesis using t n erase_inv [OF inv Q(1) er [OF n(2)]] by auto
    next
      case c: False
      then have par: "V l = Some (Cool ?bf)"
        using fp pc n(1) by (intro parent_cool [OF inv]) (auto simp: at_cool_frame_def found_parent_def queue_def)
      have "?bf \<in> set (take (i + left) ?qu)" using n by (auto simp: in_set_conv_nth intro!: exI [of _ i])
      then have io: "io_get b (pid ?f) = None" using Q(4) c by (auto simp: quiet_upto_def quiet_def)
      show ?thesis
      proof (cases "\<not> isWB ?f \<and> \<not> isDirty ?f")
        case True
        then show ?thesis using t n c evict_inv [OF inv par Q(1) _ _ io er [OF n(2)]] by auto
      next
        case False
        have "bm_inv_at flags V \<rho> \<sigma> (b\<lparr>pp := Phase3 q (i + 1) (left - 1)\<rparr>) \<and> pages (b\<lparr>pp := Phase3 q (i + 1) (left - 1)\<rparr>) = pages b"
          using i(1) Q n by (intro queue_only_inv [OF inv]) (auto simp: gQ_def)
        then show ?thesis using t n c False by auto
      qed
    qed
  qed
qed

lemma phase3_jump_inv:
  assumes inv: "bm_inv_at flags V \<rho> \<sigma> b" and pc: "pp b = Phase3 q i left"
  shows "bm_inv_at flags V \<rho> \<sigma> (phase3_jump b) \<and> pages (phase3_jump b) = pages b"
proof (cases "left = 0")
  case True
  then show ?thesis using inv pc by (simp add: phase3_jump_def)
next
  case False
  then have e: "phase3_jump b = b\<lparr>pp := Phase3 q (i + 1) (left - 1)\<rparr>" using pc by (simp add: phase3_jump_def)
  show ?thesis unfolding e using bm_inv_atD(1,10) [OF inv] pc False by (intro queue_only_inv [OF inv]) (auto simp: gQ_def)
qed

end
