(* ===== verification/BufferReach.thy ===== *)
theory BufferReach
  imports BufferWriter
begin

text \<open>
  The reachable states of the buffer manager: every step keeps the invariant and has its effect on the pages, a new manager
  satisfies it, the pages are in bijection with the page numbers in use, and a thread that resolves a swip can always be
  driven to the end. The last section is a concrete run that evicts a page and reads it back.
\<close>

section \<open>Every step keeps the invariant\<close>

lemma hot_view:
  assumes "encodes sw V" "sw l = Some w" "isHOT w"
  shows "V l = Some (Hot w)"
proof -
  obtain v where v: "V l = Some v" "w = enc v" using assms(1,2) by (cases "V l") (auto simp: encodes_def)
  then show ?thesis using enc_tests(1) [OF encodes_untagged [OF assms(1) v(1)]] assms(3) by auto
qed

lemma other_phase:
  "\<nexists>q i left. pp b = Phase2 q i left \<Longrightarrow> phase2_turn flags l b = b" "\<nexists>q i left. pp b = Phase2 q i left \<Longrightarrow> phase2_jump b = b"
  "\<nexists>q i left. pp b = Phase3 q i left \<Longrightarrow> phase3_turn flags l b = b" "\<nexists>q i left. pp b = Phase3 q i left \<Longrightarrow> phase3_jump b = b"
  by (cases "pp b"; simp add: phase2_turn_def phase2_jump_def phase3_turn_def phase3_jump_def)+

lemma bm_step_inv:
  assumes st: "bm_step flags a b b'" and inv: "bm_inv flags b"
  shows "bm_inv flags b' \<and> pages b' = page_effect a (pages b)"
proof -
  obtain V \<rho> \<sigma> where i: "bm_inv_at flags V \<rho> \<sigma> b" using inv by (auto simp: bm_inv_def)
  have same: "bm_inv flags b" using inv .
  have hot: "swips b l = Some bf \<Longrightarrow> isHOT bf \<Longrightarrow> V l = Some (Hot bf)" for l bf using hot_view bm_inv_atD(2) [OF i] by blast
  from st show ?thesis
  proof cases
    case (resolve t l w q)
    then show ?thesis using resolve_inv [OF i, of t l w q] by (auto simp: bm_inv_def inactive_def partition_choice_def)
  next
    case (read_page t)
    then show ?thesis using resolve_read_inv [OF i, of t] same by (cases "threads b t") (auto simp: bm_inv_def resolve_read_def)
  next
    case (finish t)
    then show ?thesis using resolve_finish_inv [OF i, of t] same by (cases "threads b t") (auto simp: bm_inv_def resolve_finish_def)
  next
    case (retry t)
    then show ?thesis using resolve_retry_inv [OF i, of t] same by (cases "threads b t") (auto simp: bm_inv_def resolve_retry_def)
  next
    case (wake t)
    then show ?thesis using resolve_wake_inv [OF i, of t] same by (cases "threads b t") (auto simp: bm_inv_def resolve_wake_def)
  next
    case (leave t)
    then show ?thesis using resolve_leave_inv [OF i, of t] same by (cases "threads b t") (auto simp: bm_inv_def resolve_leave_def)
  next
    case (new l keep q dtid d)
    then show ?thesis using new_page_inv [OF i] by (auto simp: bm_inv_def partition_choice_def)
  next
    case (write_dt l bf d)
    then show ?thesis using write_page_inv [OF i hot [of l bf]] by (auto simp: bm_inv_def)
  next
    case (reclaim l bf)
    then show ?thesis using reclaim_inv [OF i hot [of l bf]] by (auto simp: bm_inv_def)
  next
    case (cool P l bf)
    then show ?thesis using cool_page_inv [OF i hot [of l bf]] by (auto simp: bm_inv_def)
  next
    case (pp_start q)
    then show ?thesis using pp_begin_inv [OF i] by (auto simp: bm_inv_def)
  next
    case (phase2 l)
    show ?thesis
    proof (cases "\<exists>q i left. pp b = Phase2 q i left")
      case True
      then show ?thesis using phase2_inv [OF i] phase2 unfolding bm_inv_def by (metis page_effect.simps(1))
    qed (use phase2 same other_phase(1) in auto)
  next
    case phase2_jmp
    show ?thesis
    proof (cases "\<exists>q i left. pp b = Phase2 q i left")
      case True
      then show ?thesis using phase2_jump_inv [OF i] phase2_jmp unfolding bm_inv_def by (metis page_effect.simps(1))
    qed (use phase2_jmp same other_phase(2) in auto)
  next
    case submit
    then show ?thesis using pp_submit_inv [OF i] same by (cases "pp b") (auto simp: bm_inv_def pp_submit_def)
  next
    case written
    then show ?thesis using pp_written_inv [OF i] same by (cases "pp b") (auto simp: bm_inv_def pp_written_def)
  next
    case (phase3 l)
    show ?thesis
    proof (cases "\<exists>q i left. pp b = Phase3 q i left")
      case True
      then show ?thesis using phase3_inv [OF i] phase3 unfolding bm_inv_def by (metis page_effect.simps(1))
    qed (use phase3 same other_phase(3) in auto)
  next
    case phase3_jmp
    show ?thesis
    proof (cases "\<exists>q i left. pp b = Phase3 q i left")
      case True
      then show ?thesis using phase3_jump_inv [OF i] phase3_jmp unfolding bm_inv_def by (metis page_effect.simps(1))
    qed (use phase3_jmp same other_phase(4) in auto)
  qed
qed

section \<open>The constructor\<close>

definition bm_config_ok :: "bm_flags \<Rightarrow> bm_config \<Rightarrow> bool" where
  "bm_config_ok flags c \<longleftrightarrow>
     (ssd_gib flags + 1) * 65536 + 2 ^ partition_bits c \<le> 2 ^ 50 \<and> pool_address c + dram_pool_size c * 20480 \<le> 2 ^ 62 \<and>
     (hot_cold_partition flags \<longrightarrow> 0 < cold_partitions c \<and> cold_partitions c < 2 ^ partition_bits c)"

lemma push_frames:
  "(let Ps' = foldl (\<lambda>Ps i. push_frame (f i) (g i) Ps) Ps [0..<n] in
    length Ps' = length Ps \<and> (\<forall>q < length Ps. Ps' ! q = (Ps ! q)\<lparr>dram_free_list := rev (map g (filter (\<lambda>i. f i = q) [0..<n])) @ dram_free_list (Ps ! q)\<rparr>))"
proof (induction n)
  case (Suc n)
  then show ?case by (auto simp: Let_def push_frame_def nth_upd_if)
qed (auto simp: Let_def)

lemma frame_address:
  assumes "bm_config_ok flags c"
  shows "i < dram_pool_size c \<Longrightarrow> unat (frame_address c i) = pool_address c + i * 20480 \<and> untagged (frame_address c i)"
    and "inj_on (frame_address c) {..<dram_pool_size c}"
proof -
  have 1: "unat (frame_address c i) = pool_address c + i * 20480" "unat (frame_address c i) < 2 ^ 62" if "i < dram_pool_size c" for i
  proof -
    have "(i + 1) * 20480 \<le> dram_pool_size c * 20480" using that by simp
    then have l: "pool_address c + i * 20480 < 2 ^ 62" using assms by (simp add: bm_config_ok_def)
    then have u: "unat (of_nat (pool_address c + i * 20480) :: u64) = pool_address c + i * 20480" by (simp only: unat_of_nat take_bit_eq_mod) simp
    show "unat (frame_address c i) = pool_address c + i * 20480" using u by (simp add: frame_address_def)
    then show "unat (frame_address c i) < 2 ^ 62" using l by simp
  qed
  show "unat (frame_address c i) = pool_address c + i * 20480 \<and> untagged (frame_address c i)" if "i < dram_pool_size c" for i
    using 1 [OF that] by (simp add: untagged_def word_less_nat_alt)
  show "inj_on (frame_address c) {..<dram_pool_size c}"
  proof (rule inj_onI)
    fix i j assume i: "i \<in> {..<dram_pool_size c}" and j: "j \<in> {..<dram_pool_size c}" and e: "frame_address c i = frame_address c j"
    have "pool_address c + i * 20480 = unat (frame_address c i)" by (rule 1(1) [symmetric]) (use i in simp)
    also have "\<dots> = pool_address c + j * 20480" unfolding e by (rule 1(1)) (use j in simp)
    finally show "i = j" by simp
  qed
qed

lemma ht_new: "ht_ok (new_HashTable k)" "ht_get (new_HashTable k) p = None"
  by (simp_all add: ht_ok_def ht_get_map_of new_HashTable_def)

lemma new_BufferManager_partitions:
  fixes flags c device
  defines "b \<equiv> new_BufferManager flags c device"
  shows "length (partitions b) = 2 ^ partition_bits c"
    and "q < 2 ^ partition_bits c \<Longrightarrow> partitions b ! q =
      (new_Partition (of_nat q) (of_nat (2 ^ partition_bits c)) (free_limit c) (cooling_limit c))
        \<lparr>dram_free_list := rev (map (frame_address c) (filter (\<lambda>i. initial_partition flags c i = q) [0..<dram_pool_size c]))\<rparr>"
proof -
  let ?Ps = "map (\<lambda>q. new_Partition (of_nat q) (of_nat (2 ^ partition_bits c)) (free_limit c) (cooling_limit c)) [0..<2 ^ partition_bits c]"
  note p = push_frames [of "initial_partition flags c" "frame_address c" ?Ps "dram_pool_size c", unfolded Let_def]
  have e: "partitions b = foldl (\<lambda>Ps i. push_frame (initial_partition flags c i) (frame_address c i) Ps) ?Ps [0..<dram_pool_size c]"
    by (simp add: b_def new_BufferManager_def)
  have d: "dram_free_list (new_Partition x y z w) = []" for x y z w by (simp add: new_Partition_def)
  show "length (partitions b) = 2 ^ partition_bits c" unfolding e using p by simp
  show "partitions b ! q =
      (new_Partition (of_nat q) (of_nat (2 ^ partition_bits c)) (free_limit c) (cooling_limit c))
        \<lparr>dram_free_list := rev (map (frame_address c) (filter (\<lambda>i. initial_partition flags c i = q) [0..<dram_pool_size c]))\<rparr>"
    if "q < 2 ^ partition_bits c"
    unfolding e using p that d by simp
qed

lemma new_BufferManager_inv:
  assumes ok: "bm_config_ok flags c"
  shows "bm_inv flags (new_BufferManager flags c device) \<and> pages (new_BufferManager flags c device) = Map.empty"
proof -
  let ?b = "new_BufferManager flags c device" and ?n = "2 ^ partition_bits c :: nat" and ?N = "dram_pool_size c"
  define \<rho> where "\<rho> = (\<lambda>bf. if bf \<in> frame_address c ` {..<?N}
    then InFree (initial_partition flags c (inv_into {..<?N} (frame_address c) bf)) else Unowned)"
  note pt = new_BufferManager_partitions [where flags = flags and c = c and device = device]
  have q: "ht_ok (io_ht (partitions ?b ! q)) \<and> pid_inv (ssd_gib flags) ?n q (partitions ?b ! q) \<and> used_pids ?n q (partitions ?b ! q) = {}
      \<and> ht_get (io_ht (partitions ?b ! q)) p = None" if "q < ?n" for q p
    using new_Partition_ok [OF that, of "ssd_gib flags" "free_limit c" "cooling_limit c"] ok pt(2) [OF that]
    by (simp add: bm_config_ok_def pid_inv_def used_pids_def new_Partition_def ht_new)
  have wf: "bm_wf flags ?b" using q pt(1) by (auto simp: bm_wf_def)
  have px: "pidx ?b p < ?n" for p using pidx_less [OF wf] pt(1) by simp
  have used: "used ?b = {}" using q px pt(1) by (auto simp: used_def)
  have io: "io_get ?b = (\<lambda>_. None)" using q px by (simp add: io_get_def getPartition_pidx fun_eq_iff)
  have \<rho>: "\<rho> (frame_address c i) = InFree (initial_partition flags c i)" if "i < ?N" for i
    using that frame_address(2) [OF ok] by (simp add: \<rho>_def inv_into_f_f)
  have F: "distinct (frees ?b q) \<and> (\<forall>bf \<in> set (frees ?b q). \<rho> bf = InFree q \<and> untagged bf)" for q
    using \<rho> frame_address [OF ok] pt
    by (auto simp: frees_def distinct_map intro: inj_on_subset)
  have f: "bfs ?b = (\<lambda>_. new_BufferFrame)" "swips ?b = Map.empty" "threads ?b = (\<lambda>_. Outside)" "pp ?b = Phase1" "write_buffer ?b = []"
    "io_events ?b = []" "freed_bfs_batch ?b = []" by (simp_all add: new_BufferManager_def)
  have \<rho>': "\<rho> x \<noteq> Res l" for x l by (simp add: \<rho>_def)
  have "bm_inv_at flags Map.empty \<rho> Map.empty ?b"
    unfolding bm_inv_at_def f io using wf used F \<rho>'
    by (simp add: encodes_def gS_def gC_def gF_def gT_def gI_def gP_def gQ_def resident_def owner_def thread_ok_def new_BufferFrame_def)
  then show ?thesis by (auto simp: bm_inv_def pages_def f)
qed

section \<open>Reachable states\<close>

lemma bm_reach_inv: "bm_reach flags b0 b \<Longrightarrow> bm_inv flags b0 \<Longrightarrow> bm_inv flags b"
  by (induction rule: bm_reach.induct) (auto dest: bm_step_inv)

lemma bm_reachable_inv: "bm_config_ok flags c \<Longrightarrow> bm_reach flags (new_BufferManager flags c device) b \<Longrightarrow> bm_inv flags b"
  using bm_reach_inv new_BufferManager_inv by blast

text \<open>The frame of a page in memory, and the number of a page on the device.\<close>

definition frame_of :: "BufferManager \<Rightarrow> nat \<Rightarrow> u64 option" where
  "frame_of b l = (case swips b l of None \<Rightarrow> None | Some w \<Rightarrow> (case swip_view w of Hot bf \<Rightarrow> Some bf | Cool bf \<Rightarrow> Some bf | Evicted _ \<Rightarrow> None))"

definition page_number :: "BufferManager \<Rightarrow> nat \<Rightarrow> u64" where
  "page_number b l = (case swip_view (the (swips b l)) of Hot bf \<Rightarrow> pid (bfs b bf) | Cool bf \<Rightarrow> pid (bfs b bf) | Evicted p \<Rightarrow> p)"

lemma frame_of_role:
  assumes "bm_inv_at flags V \<rho> \<sigma> b" "frame_of b l = Some bf"
  shows "\<rho> bf = Res l"
proof -
  have "V l = Some (Hot bf) \<or> V l = Some (Cool bf)" using assms(2) bm_inv_atD(2) [OF assms(1)]
    by (auto simp: frame_of_def encodes_def swip_view_enc split: option.splits swip_view.splits)
  then show ?thesis using gS_view [OF bm_inv_atD(4) [OF assms(1)]] by blast
qed

lemma frames_exclusive:
  assumes "bm_inv flags b" "frame_of b l = Some bf" "frame_of b l' = Some bf"
  shows "l = l'"
proof -
  obtain V \<rho> \<sigma> where "bm_inv_at flags V \<rho> \<sigma> b" using assms(1) by (auto simp: bm_inv_def)
  from frame_of_role [OF this assms(2)] frame_of_role [OF this assms(3)] show ?thesis by simp
qed

lemma free_frame_unused:
  assumes "bm_inv flags b" "bf \<in> set (dram_free_list (partitions b ! q))" "q < length (partitions b)"
  shows "frame_of b l \<noteq> Some bf"
proof
  assume f: "frame_of b l = Some bf"
  obtain V \<rho> \<sigma> where i: "bm_inv_at flags V \<rho> \<sigma> b" using assms(1) by (auto simp: bm_inv_def)
  have "bf \<in> set (frees b q)" using assms(2,3) by (simp add: frees_def)
  then have "\<rho> bf = InFree q" using bm_inv_atD(6) [OF i] by (auto simp: gF_def)
  then show False using frame_of_role [OF i f] by simp
qed

lemma no_crash: "bm_inv flags b \<Longrightarrow> threads b t \<noteq> Crash"
  by (auto simp: bm_inv_def bm_inv_at_def gT_def thread_ok_def split: resolve_pc.splits)

lemma page_number_bij:
  assumes "bm_inv flags b"
  shows "bij_betw (page_number b) (dom (swips b)) (used b)"
proof -
  obtain V \<rho> \<sigma> where i: "bm_inv_at flags V \<rho> \<sigma> b" using assms by (auto simp: bm_inv_def)
  note i = bm_inv_atD [OF i]
  have V: "swips b l = map_option enc (V l)" for l using i(2) by (simp add: encodes_def)
  have own: "owner (bfs b) V l p \<longleftrightarrow> l \<in> dom (swips b) \<and> page_number b l = p" for l p
    using V [of l] encodes_untagged [OF i(2), of l]
    by (cases "V l") (auto simp: owner_def resident_def page_number_def swip_view_enc split: swip_view.splits)
  have s: "\<sigma> p = Some l \<longleftrightarrow> l \<in> dom (swips b) \<and> page_number b l = p" for l p using i(4) own by (simp add: gS_def)
  have "inj_on (page_number b) (dom (swips b))"
  proof (rule inj_onI)
    fix x y assume "x \<in> dom (swips b)" "y \<in> dom (swips b)" "page_number b x = page_number b y"
    then have "\<sigma> (page_number b y) = Some x" "\<sigma> (page_number b y) = Some y" using s by simp_all
    then show "x = y" by simp
  qed
  moreover have "page_number b ` dom (swips b) = used b" unfolding i(3) [symmetric] dom_def [of \<sigma>] not_None_eq s by blast
  ultimately show ?thesis by (simp add: bij_betw_def)
qed

lemma consumed_used:
  assumes "bm_wf flags b"
  shows "consumedPages b = of_nat (card (used b))"
proof -
  let ?n = "length (partitions b)" and ?U = "\<lambda>q. used_pids (length (partitions b)) q (partitions b ! q)"
  have "sum_list (map f xs) - sum_list (map g xs) = (\<Sum>q = 0..<length xs. f (xs ! q) - g (xs ! q))" for f g :: "Partition \<Rightarrow> u64" and xs
    by (simp add: sum_list_sum_nth sum_subtractf)
  then have "consumedPages b = (\<Sum>q = 0..<?n. allocatedPages (partitions b ! q) - freedPages (partitions b ! q))"
    by (simp add: consumedPages_def)
  also have "\<dots> = (\<Sum>q = 0..<?n. of_nat (card (?U q)))"
    by (rule sum.cong) (use used_pids_card bm_wfD [OF assms] in \<open>fastforce+\<close>)
  also have "\<dots> = of_nat (\<Sum>q = 0..<?n. card (?U q))" by simp
  also have "(\<Sum>q = 0..<?n. card (?U q)) = card (\<Union>q \<in> {0..<?n}. ?U q)"
    by (rule card_UN_disjoint [symmetric]) (auto simp: used_pids_def)
  also have "(\<Union>q \<in> {0..<?n}. ?U q) = used b"
    using pidx_mod [OF assms] pidx_less [OF assms] by (auto simp: used_def used_pids_def)
  finally show ?thesis .
qed

section \<open>Page numbers after a restart\<close>

lemma serialize_max: "q < length (partitions b) \<Longrightarrow> next_pid (partitions b ! q) \<le> bm_serialize b"
  and serialize_bound: "\<forall>P \<in> set (partitions b). unat (next_pid P) < k \<Longrightarrow> 0 < k \<Longrightarrow> unat (bm_serialize b) < k"
proof -
  have 1: "a \<le> foldl (\<lambda>m P. max (next_pid P) m) a Ps \<and> (\<forall>P \<in> set Ps. next_pid P \<le> foldl (\<lambda>m P. max (next_pid P) m) a Ps)" for a Ps
  proof (induction Ps arbitrary: a)
    case (Cons P Ps)
    show ?case using Cons.IH [of "max (next_pid P) a"] by auto
  qed simp
  have 2: "\<forall>P \<in> set Ps. unat (next_pid P) < k \<Longrightarrow> unat a < k \<Longrightarrow> unat (foldl (\<lambda>m P. max (next_pid P) m) a Ps) < k" for a Ps
    by (induction Ps arbitrary: a) (auto simp: max_def)
  show "next_pid (partitions b ! q) \<le> bm_serialize b" if "q < length (partitions b)" using 1 [of 0 "partitions b"] nth_mem [OF that] by (simp add: bm_serialize_def)
  show "unat (bm_serialize b) < k" if "\<forall>P \<in> set (partitions b). unat (next_pid P) < k" "0 < k"
    using 2 [OF that(1), of 0] that(2) by (simp add: bm_serialize_def)
qed

lemma round_up:
  fixes m :: u64
  assumes "k \<le> 50" "unat m < 2 ^ 51"
  shows "unat ((m + (2 ^ k - 1)) AND NOT (2 ^ k - 1)) = (unat m + (2 ^ k - 1)) div 2 ^ k * 2 ^ k"
proof -
  have k: "(2 :: nat) ^ k \<le> 2 ^ 50" using assms(1) by (rule power_increasing) simp
  have u: "unat (2 ^ k - 1 :: u64) = 2 ^ k - 1"
  proof -
    have "(2 ^ k - 1 :: u64) = of_nat (2 ^ k - 1)" by (simp add: of_nat_diff)
    then show ?thesis using k by (simp only: unat_of_nat take_bit_eq_mod) simp
  qed
  have s: "unat (m + (2 ^ k - 1)) = unat m + (2 ^ k - 1)"
  proof -
    have "unat m + unat (2 ^ k - 1 :: u64) < 2 ^ 64" using u assms(2) k by simp
    then show ?thesis using u by (simp add: unat_word_ariths(1))
  qed
  have "x AND NOT (mask k) = push_bit k (drop_bit k x)" for x :: u64 by (rule bit_eqI) (auto simp: bit_simps)
  then have "(m + (2 ^ k - 1)) AND NOT (2 ^ k - 1) = push_bit k (drop_bit k (m + (2 ^ k - 1)))" by (simp add: mask_eq_exp_minus_1)
  also have "unat \<dots> = (unat m + (2 ^ k - 1)) div 2 ^ k * 2 ^ k"
  proof -
    have "unat (drop_bit k (m + (2 ^ k - 1))) = (unat m + (2 ^ k - 1)) div 2 ^ k" using assms(2) k
      by (simp only: unsigned_drop_bit_eq s) (simp add: drop_bit_eq_div take_bit_eq_mod)
    moreover have "(unat m + (2 ^ k - 1)) div 2 ^ k * 2 ^ k < 2 ^ 64"
      by (rule le_less_trans [OF div_times_less_eq_dividend]) (use assms(2) k in simp)
    ultimately show ?thesis by (simp only: unsigned_push_bit_eq push_bit_eq_mult [where 'a = nat] take_bit_eq_mod) simp
  qed
  finally show ?thesis .
qed

lemma round_up_ge: "(m :: nat) \<le> (m + (n - 1)) div n * n" if "0 < n"
  using div_mod_decomp [of "m + (n - 1)" n] mod_less_divisor [OF that, of "m + (n - 1)"] that by linarith

lemma restart_next:
  assumes wf: "bm_wf flags b" and k: "length (partitions b) = 2 ^ k" "length (partitions b') = 2 ^ k" and q: "q < 2 ^ k" and p: "p \<in> used b"
  shows "unat p < unat (next_pid (partitions (bm_deserialize (bm_serialize b) b') ! q))"
proof -
  have i: "\<And>q. q < 2 ^ k \<Longrightarrow> pid_inv (ssd_gib flags) (2 ^ k) q (partitions b ! q)" using wf k(1) by (auto simp: bm_wf_def)
  have n: "(2 :: nat) ^ k \<le> 2 ^ 50" "(ssd_gib flags + 1) * 65536 + 2 ^ k \<le> 2 ^ 50" using i [of 0] by (auto simp: pid_inv_def)
  then have k50: "k \<le> 50" by (simp only: power_increasing_iff)
  let ?m = "bm_serialize b" and ?q = "pidx b p"
  have pq: "?q < 2 ^ k" using pidx_less [OF wf] k(1) by simp
  have "unat p < unat (next_pid (partitions b ! ?q))" using p by (simp add: used_def used_pids_def)
  also have "\<dots> \<le> unat ?m" using serialize_max [of ?q b] pq k(1) by (simp add: word_le_nat_alt)
  also have "\<dots> \<le> (unat ?m + (2 ^ k - 1)) div 2 ^ k * 2 ^ k" by (rule round_up_ge) simp
  finally have lt: "unat p < (unat ?m + (2 ^ k - 1)) div 2 ^ k * 2 ^ k" .
  have mb: "unat ?m < 2 ^ 50"
  proof (rule serialize_bound)
    show "\<forall>P \<in> set (partitions b). unat (next_pid P) < 2 ^ 50"
      using i n(2) k(1) by (force simp: in_set_conv_nth pid_inv_def)
  qed simp
  let ?r = "(?m + (2 ^ k - 1)) AND NOT (2 ^ k - 1)"
  have r: "unat ?r = (unat ?m + (2 ^ k - 1)) div 2 ^ k * 2 ^ k" using mb by (intro round_up k50) simp
  have "(unat ?m + (2 ^ k - 1)) div 2 ^ k * 2 ^ k \<le> unat ?m + (2 ^ k - 1)" by (rule div_times_less_eq_dividend)
  then have "unat ?r \<le> unat ?m + (2 ^ k - 1)" unfolding r .
  then have "unat ?r + q < 2 ^ 52" using mb n(1) q by simp
  then have "unat (?r + of_nat q) = unat ?r + q" by (simp add: unat_word_ariths(1) unat_of_nat take_bit_eq_mod)
  moreover have "next_pid (partitions (bm_deserialize ?m b') ! q) = ?r + of_nat q"
    using k(2) q by (simp add: bm_deserialize_def Let_def nth_enumerate_eq)
  ultimately show ?thesis using lt r by simp
qed

section \<open>Progress\<close>

text \<open>The mutex of an I/O frame is held by a thread that loads its page, and the random choice of a partition has an outcome.\<close>

definition held :: "BufferManager \<Rightarrow> bool" where
  "held b \<longleftrightarrow> (\<forall>p e. io_get b p = Some e \<longrightarrow> io_mutex e \<longrightarrow> (\<exists>t. loads (threads b t) = Some p))"

definition choices_ok :: "bm_flags \<Rightarrow> BufferManager \<Rightarrow> bool" where
  "choices_ok flags b \<longleftrightarrow> (\<forall>hot. \<exists>q. partition_choice flags b hot q)"

lemma held_upd:
  assumes h: "held b" and io: "io_get b' = (io_get b)(p := eo)" and th: "threads b' = (threads b)(t := pc)"
    and old: "\<And>p'. loads (threads b t) = Some p' \<Longrightarrow> loads pc = Some p' \<or> p' = p \<and> (\<forall>e. eo = Some e \<longrightarrow> \<not> io_mutex e)"
    and new: "\<And>e'. eo = Some e' \<Longrightarrow> io_mutex e' \<Longrightarrow> loads pc = Some p \<or> (\<exists>e. io_get b p = Some e \<and> io_mutex e)"
  shows "held b'"
  unfolding held_def
proof (intro allI impI)
  fix p' e assume a: "io_get b' p' = Some e" "io_mutex e"
  show "\<exists>t. loads (threads b' t) = Some p'"
  proof (cases "p' = p \<and> loads pc = Some p")
    case True
    then have "loads (threads b' t) = Some p'" by (simp add: th)
    then show ?thesis ..
  next
    case False
    then have "\<exists>e. io_get b p' = Some e \<and> io_mutex e" using a new io by (cases "p' = p") auto
    then obtain t' where t': "loads (threads b t') = Some p'" using h by (auto simp: held_def)
    then have "loads (threads b' t') = Some p'" using old [of p'] a io th by (cases "t' = t") auto
    then show ?thesis ..
  qed
qed

lemma held_thread:
  "held b \<Longrightarrow> io_get b' = io_get b \<Longrightarrow> threads b' = (threads b)(t := pc) \<Longrightarrow> (\<And>p. loads (threads b t) = Some p \<Longrightarrow> loads pc = Some p) \<Longrightarrow> held b'"
  by (rule held_upd [of b b' 0 "io_get b 0" t pc]) auto

lemma held_same: "held b \<Longrightarrow> io_get b' = io_get b \<Longrightarrow> threads b' = threads b \<Longrightarrow> held b'"
  by (simp add: held_def)

lemma map_io_ht_upd [simp]: "io_ht x = io_ht (xs ! q) \<Longrightarrow> map io_ht (xs[q := x]) = map io_ht xs"
  by (rule nth_equalityI) (auto simp: nth_upd_if)

lemma io_get_tables:
  assumes "bm_wf flags b" "map io_ht (partitions b') = map io_ht (partitions b)"
  shows "io_get b' = io_get b"
proof
  fix p
  have l: "length (partitions b') = length (partitions b)" using arg_cong [OF assms(2), of length] by simp
  then have "getPartitionID b' p = getPartitionID b p" by (simp add: getPartitionID_def)
  moreover have "io_ht (partitions b' ! pidx b p) = io_ht (partitions b ! pidx b p)"
    using pidx_less [OF assms(1), of p] l arg_cong [OF assms(2), of "\<lambda>xs. xs ! pidx b p"] by simp
  ultimately show "io_get b' p = io_get b p" by (simp add: io_get_def getPartition_def pidx_def)
qed

lemma loads_inactive: "inactive pc \<Longrightarrow> loads pc = None"
  by (auto simp: inactive_def)

lemma resolve_held:
  assumes wf: "bm_wf flags b" and h: "held b" and pc: "inactive (threads b t)"
  shows "held (tryFastResolveSwip t l q b)"
proof -
  note n = loads_inactive [OF pc]
  have d: "held (set_thread t pc' b')" if "held b'" "threads b' = threads b" for b' pc'
    by (rule held_thread [OF that(1), where t = t and pc = pc']) (use that(2) n in auto)
  have del: "held (with_io p (ht_delete p) b')" if e: "io_get b p = Some e" and v: "partitions b' = partitions b" "threads b' = threads b" for p e b'
  proof -
    have "held b'" by (rule held_same [OF h]) (simp_all add: views_partitions [OF v(1)] v(2))
    then show ?thesis using io_del [of flags b' p e] wf e n
      by (elim held_upd [of _ _ p None t "threads b t"]) (simp_all add: views_partitions [OF v(1)] v(2))
  qed
  have upd: "held (with_io p (ht_update p e') b')"
    if e: "io_get b p = Some e" "io_mutex e' = io_mutex e" and v: "partitions b' = partitions b" "threads b' = threads b" for p e e' b'
  proof -
    have "held b'" by (rule held_same [OF h]) (simp_all add: views_partitions [OF v(1)] v(2))
    then show ?thesis using io_upd [of flags b' p e e'] wf e n
      by (elim held_upd [of _ _ p "Some e'" t "threads b t"]) (simp_all add: views_partitions [OF v(1)] v(2))
  qed
  have miss: "held (resolve_miss t l p q b)" if "io_get b p = None" for p
  proof (cases "dram_free_list (partitions b ! q)")
    case (Cons bf rest)
    let ?b = "with_partition q (\<lambda>P. P\<lparr>dram_free_list := rest\<rparr>) b"
    note v = with_partition_local [OF wf, of "\<lambda>P. P\<lparr>dram_free_list := rest\<rparr>" q]
    show ?thesis using io_ins [of flags ?b p] v n that Cons
      by (intro held_upd [OF h, of _ p "Some (new_io_frame (next_entry b))" t "Reading l p bf (next_entry b)"])
        (auto simp: resolve_miss_def Let_def)
  qed (use d h in \<open>simp add: resolve_miss_def\<close>)
  show ?thesis
  proof (cases "swips b l")
    case (Some w)
    show ?thesis
    proof (cases "isHOT w \<or> isCOOL w")
      case True
      then show ?thesis using Some d h held_same [OF h]
        by (auto simp: tryFastResolveSwip_def resolveSwip_def resolve_cool_def Let_def intro!: d held_same [OF h])
    next
      case False
      then show ?thesis using Some h miss
        by (auto simp: tryFastResolveSwip_def resolveSwip_def resolve_join_def resolve_ready_def Let_def
          intro!: d del upd split: option.split IO_STATE.split)
    qed
  qed (use h in \<open>simp add: tryFastResolveSwip_def\<close>)
qed

lemma io_deref_at: "gT th fr V \<rho> (io_get b) D \<Longrightarrow> th t = Reading l p bf a \<or> th t = HasRead l p bf a \<Longrightarrow> \<exists>e. io_get b p = Some e \<and> io_deref b p a = Some e \<and> io_mutex e"
  and io_deref_wait: "gT th fr V \<rho> (io_get b) D \<Longrightarrow> th t = Waiting p a \<or> th t = Leaving p a \<Longrightarrow> \<exists>e. io_get b p = Some e \<and> io_deref b p a = Some e"
  by (auto simp: gT_def thread_ok_def loading_ok_def io_deref_def dest!: spec [of _ t])

lemma thread_steps_held:
  assumes inv: "bm_inv_at flags V \<rho> \<sigma> b" and h: "held b"
  shows "held (resolve_read t b)" "held (resolve_finish t b)" "held (resolve_retry t b)" "held (resolve_wake t b)" "held (resolve_leave t b)"
proof -
  note wf = bm_inv_atD(1) [OF inv] and T = bm_inv_atD(7) [OF inv]
  have del: "held (set_thread t pc (with_io p (ht_delete p) b'))"
    if e: "io_get b p = Some e" and v: "partitions b' = partitions b" "threads b' = threads b" and l: "\<And>p'. loads (threads b t) = Some p' \<Longrightarrow> p' = p" for p e b' pc
    using io_del [of flags b' p e] wf e l by (intro held_upd [OF h, of _ p None t pc]) (simp_all add: views_partitions [OF v(1)] v(2))
  have upd: "held (set_thread t pc (with_io p (ht_update p e') b'))"
    if e: "io_get b p = Some e" "\<not> io_mutex e'" and v: "partitions b' = partitions b" "threads b' = threads b" and l: "\<And>p'. loads (threads b t) = Some p' \<Longrightarrow> p' = p" for p e e' b' pc
    using io_upd [of flags b' p e e'] wf e l by (intro held_upd [OF h, of _ p "Some e'" t pc]) (simp_all add: views_partitions [OF v(1)] v(2))
  show "held (resolve_read t b)"
  proof (cases "threads b t")
    case (Reading l p bf a)
    then show ?thesis by (intro held_thread [OF h, where t = t and pc = "HasRead l p bf a"]) (simp_all add: resolve_read_def)
  qed (use h in \<open>simp_all add: resolve_read_def\<close>)
  show "held (resolve_finish t b)"
  proof (cases "threads b t")
    case (HasRead l p bf a)
    then show ?thesis using io_deref_at [OF T, of t l p bf a] by (auto simp: resolve_finish_def Let_def intro!: del upd)
  qed (use h in \<open>simp_all add: resolve_finish_def\<close>)
  show "held (resolve_retry t b)"
  proof (cases "threads b t")
    case (HasRead l p bf a)
    then show ?thesis using io_deref_at [OF T, of t l p bf a] by (auto simp: resolve_retry_def Let_def intro!: upd)
  qed (use h in \<open>simp_all add: resolve_retry_def\<close>)
  show "held (resolve_wake t b)"
  proof (cases "threads b t")
    case (Waiting p a)
    then show ?thesis using io_deref_wait [OF T, of t p a] h by (auto simp: resolve_wake_def Let_def intro!: upd)
  qed (use h in \<open>simp_all add: resolve_wake_def\<close>)
  show "held (resolve_leave t b)"
  proof (cases "threads b t")
    case (Leaving p a)
    have "held (set_thread t Restart b)" by (rule held_thread [OF h, where t = t and pc = Restart]) (use Leaving in auto)
    then show ?thesis using io_deref_wait [OF T, of t p a] Leaving by (auto simp: resolve_leave_def intro!: del)
  qed (use h in \<open>simp_all add: resolve_leave_def\<close>)
qed

text \<open>The steps that do not run \<open>resolveSwip\<close> leave its threads and the tables of I/O frames alone.\<close>

definition io_view :: "BufferManager \<Rightarrow> (nat \<Rightarrow> resolve_pc) \<times> IOFrame HashTable list \<times> nat" where
  "io_view b = (threads b, map io_ht (partitions b), cold_partition_idx_end b)"

lemma io_view_simps [simp]:
  "io_view (with_bf a f b) = io_view b" "io_view (set_swip l w b) = io_view b"
  "io_ht (g (partitions b ! q)) = io_ht (partitions b ! q) \<Longrightarrow> io_view (with_partition q g b) = io_view b"
  "io_view (b\<lparr>pp := x1\<rparr>) = io_view b" "io_view (b\<lparr>write_buffer := x2\<rparr>) = io_view b" "io_view (b\<lparr>io_events := x3\<rparr>) = io_view b"
  "io_view (b\<lparr>freed_bfs_batch := x4\<rparr>) = io_view b" "io_view (b\<lparr>hot_pages := x5\<rparr>) = io_view b" "io_view (b\<lparr>ssd := x6\<rparr>) = io_view b"
  by (simp_all add: io_view_def with_bf_def set_swip_def with_partition_def)

lemma nextPID_io: "nextPID g P = Some (p, P') \<Longrightarrow> io_ht P' = io_ht P"
  by (auto simp: nextPID_def Let_def split: if_splits)

lemma new_page_io: "new_page flags l keep q dtid d b = Some b' \<Longrightarrow> io_view b' = io_view b"
  by (auto simp: new_page_def bm_allocatePage_def Let_def dest: nextPID_io split: list.splits option.splits if_splits)

lemma page_io: "io_view (write_page bf d b) = io_view b" "io_view (bm_reclaimPage bf b) = io_view b" "io_view (cool_page l bf b) = io_view b"
  by (simp_all add: write_page_def bm_reclaimPage_def cool_page_def freePage_def Let_def)

lemma evict_io [simp]: "io_view (erase_entry q i b) = io_view b" "io_view (push_batch q b) = io_view b" "io_view (evict_bf flags q i bf l b) = io_view b"
  by (simp_all add: erase_entry_def push_batch_def evict_bf_def Let_def)

lemma provider_io:
  "io_view (pp_begin q b) = io_view b" "io_view (pp_submit b) = io_view b" "io_view (pp_written b) = io_view b"
  "io_view (phase2_jump b) = io_view b" "io_view (phase3_jump b) = io_view b"
  "io_view (phase2_turn flags l b) = io_view b" "io_view (phase3_turn flags l b) = io_view b"
  by (simp_all add: pp_begin_def pp_submit_def pp_written_def phase2_jump_def phase3_jump_def phase2_turn_def phase3_turn_def wb_add_def Let_def
      split: pp_pc.split list.split prod.split)

lemma io_view_held: "bm_wf flags b \<Longrightarrow> io_view b' = io_view b \<Longrightarrow> held b \<Longrightarrow> held b'"
  by (rule held_same) (auto simp: io_view_def intro: io_get_tables)

lemma io_view_choices: "length (partitions b') = length (partitions b) \<Longrightarrow> cold_partition_idx_end b' = cold_partition_idx_end b \<Longrightarrow> choices_ok flags b \<Longrightarrow> choices_ok flags b'"
  unfolding choices_ok_def partition_choice_def by metis

lemma resolve_keeps:
  "length (partitions (tryFastResolveSwip t l q b)) = length (partitions b) \<and> cold_partition_idx_end (tryFastResolveSwip t l q b) = cold_partition_idx_end b"
  "length (partitions (resolve_read t b)) = length (partitions b) \<and> cold_partition_idx_end (resolve_read t b) = cold_partition_idx_end b"
  "length (partitions (resolve_finish t b)) = length (partitions b) \<and> cold_partition_idx_end (resolve_finish t b) = cold_partition_idx_end b"
  "length (partitions (resolve_retry t b)) = length (partitions b) \<and> cold_partition_idx_end (resolve_retry t b) = cold_partition_idx_end b"
  "length (partitions (resolve_wake t b)) = length (partitions b) \<and> cold_partition_idx_end (resolve_wake t b) = cold_partition_idx_end b"
  "length (partitions (resolve_leave t b)) = length (partitions b) \<and> cold_partition_idx_end (resolve_leave t b) = cold_partition_idx_end b"
  by (auto simp: tryFastResolveSwip_def resolveSwip_def resolve_cool_def resolve_miss_def resolve_join_def resolve_ready_def resolve_read_def
      resolve_finish_def resolve_retry_def resolve_wake_def resolve_leave_def set_thread_def set_swip_def with_bf_def with_io_def with_partition_def Let_def
      split: option.split list.split IO_STATE.split resolve_pc.split)

lemma bm_step_held:
  assumes st: "bm_step flags a b b'" and inv: "bm_inv flags b" and h: "held b" and c: "choices_ok flags b"
  shows "held b' \<and> choices_ok flags b'"
proof -
  obtain V \<rho> \<sigma> where i: "bm_inv_at flags V \<rho> \<sigma> b" using inv by (auto simp: bm_inv_def)
  note wf = bm_inv_atD(1) [OF i]
  have v: "held x \<and> choices_ok flags x" if "io_view x = io_view b" for x
    using io_view_held [OF wf that h] io_view_choices [OF _ _ c, of x] that map_eq_imp_length_eq [of io_ht "partitions x" io_ht "partitions b"]
    by (auto simp: io_view_def)
  have k: "choices_ok flags x" if "length (partitions x) = length (partitions b) \<and> cold_partition_idx_end x = cold_partition_idx_end b" for x
    using io_view_choices [OF _ _ c] that by blast
  from st show ?thesis
    by cases (use v new_page_io page_io provider_io k [OF resolve_keeps(1)] k [OF resolve_keeps(2)] k [OF resolve_keeps(3)] k [OF resolve_keeps(4)]
      k [OF resolve_keeps(5)] k [OF resolve_keeps(6)] resolve_held [OF wf h] thread_steps_held [OF i h] in \<open>auto simp: inactive_def\<close>)
qed

lemma new_held: "bm_config_ok flags c \<Longrightarrow> held (new_BufferManager flags c device) \<and> choices_ok flags (new_BufferManager flags c device)"
proof
  assume ok: "bm_config_ok flags c"
  let ?b = "new_BufferManager flags c device"
  note pt = new_BufferManager_partitions [where flags = flags and c = c and device = device]
  obtain V \<rho> \<sigma> where "bm_inv_at flags V \<rho> \<sigma> ?b" using new_BufferManager_inv [OF ok, of device] unfolding bm_inv_def by blast
  then have "bm_wf flags ?b" by (rule bm_inv_atD)
  then have "io_get ?b p = None" for p using pidx_less [of flags ?b p] pt by (simp add: io_get_def getPartition_pidx new_Partition_def ht_new)
  then show "held ?b" by (simp add: held_def)
  have e: "cold_partition_idx_end ?b = (if hot_cold_partition flags then cold_partitions c else 2 ^ partition_bits c)" by (simp add: new_BufferManager_def)
  show "choices_ok flags ?b"
    unfolding choices_ok_def partition_choice_def pt(1) e
  proof
    fix hot
    show "\<exists>q < 2 ^ partition_bits c. hot_cold_partition flags \<longrightarrow> (if hot then (if hot_cold_partition flags then cold_partitions c else 2 ^ partition_bits c) \<le> q
      else q < (if hot_cold_partition flags then cold_partitions c else 2 ^ partition_bits c))"
      using ok by (intro exI [of _ "if hot_cold_partition flags \<and> hot then cold_partitions c else 0"]) (auto simp: bm_config_ok_def)
  qed
qed

lemma bm_reachable_held:
  assumes "bm_config_ok flags c" "bm_reach flags (new_BufferManager flags c device) b"
  shows "held b \<and> choices_ok flags b"
  using assms(2)
proof (induction rule: bm_reach.induct)
  case (step b a b')
  then show ?case using bm_step_held bm_reachable_inv [OF assms(1)] by blast
qed (use new_held [OF assms(1)] in blast)

lemma internal_steps:
  "(bm_step flags Internal)\<^sup>*\<^sup>* b b' \<Longrightarrow> bm_inv flags b \<Longrightarrow> bm_inv flags b' \<and> pages b' = pages b"
  by (induction rule: rtranclp_induct) (auto dest: bm_step_inv)

lemma internal_steps_held:
  "(bm_step flags Internal)\<^sup>*\<^sup>* b b' \<Longrightarrow> bm_inv flags b \<Longrightarrow> held b \<Longrightarrow> choices_ok flags b \<Longrightarrow> held b' \<and> choices_ok flags b'"
  by (induction rule: rtranclp_induct) (auto dest: bm_step_held dest!: internal_steps)

lemma finish_resolves:
  assumes "bm_inv_at flags V \<rho> \<sigma> b" "threads b t = HasRead l p bf a"
  shows "threads (resolve_finish t b) t = Resolved bf \<and> swips (resolve_finish t b) l = Some bf \<and> (\<forall>t'. t' \<noteq> t \<longrightarrow> threads (resolve_finish t b) t' = threads b t')"
  using io_deref_at [OF bm_inv_atD(7) [OF assms(1)], of t l p bf a] assms(2) by (auto simp: resolve_finish_def Let_def)

lemma thread_loads:
  assumes "bm_inv_at flags V \<rho> \<sigma> b" "threads b t = Reading l p bf a \<or> threads b t = HasRead l p bf a"
  shows "V l = Some (Evicted p)" "isHOT bf"
proof -
  have "loading_ok V \<rho> (io_get b) t l p bf a" using bm_inv_atD(7) [OF assms(1)] assms(2) by (auto simp: gT_def thread_ok_def dest!: spec [of _ t])
  then show "V l = Some (Evicted p)" "isHOT bf" using enc_tests(1) [of "Hot bf"] by (auto simp: loading_ok_def)
qed

lemma load_resolves:
  assumes inv: "bm_inv flags b" and pc: "threads b t = Reading l p bf a \<or> threads b t = HasRead l p bf a"
  shows "\<exists>b'. (bm_step flags Internal)\<^sup>*\<^sup>* b b' \<and> threads b' t = Resolved bf \<and> swips b' l = Some bf \<and> isHOT bf \<and> (\<forall>t'. t' \<noteq> t \<longrightarrow> threads b' t' = threads b t')"
proof -
  define b1 where "b1 = (if threads b t = HasRead l p bf a then b else resolve_read t b)"
  have 1: "(bm_step flags Internal)\<^sup>*\<^sup>* b b1" using bm_step.read_page by (auto simp: b1_def)
  have 2: "threads b1 t = HasRead l p bf a" "\<forall>t'. t' \<noteq> t \<longrightarrow> threads b1 t' = threads b t'" using pc by (auto simp: b1_def resolve_read_def)
  obtain V \<rho> \<sigma> where i: "bm_inv_at flags V \<rho> \<sigma> b1" using internal_steps [OF 1 inv] by (auto simp: bm_inv_def)
  note f = finish_resolves [OF i 2(1)]
  have "isHOT bf" using thread_loads(2) [OF i] 2(1) by blast
  moreover
  have "(bm_step flags Internal)\<^sup>*\<^sup>* b (resolve_finish t b1)" using 1 bm_step.finish by (rule rtranclp.rtrancl_into_rtrancl)
  ultimately show ?thesis using f 2(2) by (metis (no_types))
qed

lemma hot_resolves:
  "inactive (threads b t) \<Longrightarrow> swips b l = Some bf \<Longrightarrow> isHOT bf \<Longrightarrow> choices_ok flags b \<Longrightarrow>
    \<exists>b'. (bm_step flags Internal)\<^sup>*\<^sup>* b b' \<and> threads b' t = Resolved bf \<and> swips b' l = Some bf"
proof -
  assume a: "inactive (threads b t)" "swips b l = Some bf" "isHOT bf" "choices_ok flags b"
  obtain q where "partition_choice flags b (cold_partition_idx_end b \<le> unat (getPartitionID b (asPageID bf))) q" using a(4) by (auto simp: choices_ok_def)
  then have "bm_step flags Internal b (tryFastResolveSwip t l q b)" using a(1,2) by (intro bm_step.resolve) (auto simp: inactive_def)
  then show ?thesis using a(2,3) by (intro exI [of _ "tryFastResolveSwip t l q b"]) (auto simp: tryFastResolveSwip_def)
qed

text \<open>The page of an I/O frame whose mutex is held: the thread that loads the page finishes, then the swip is hot.\<close>

lemma loaded_by_other:
  assumes inv: "bm_inv flags b" and h: "held b" "choices_ok flags b" and pc: "inactive (threads b t)"
    and i: "bm_inv_at flags V \<rho> \<sigma> b" and V: "V l = Some (Evicted p)" and f: "io_get b p = Some f" "io_mutex f"
  shows "\<exists>b' bf. (bm_step flags Internal)\<^sup>*\<^sup>* b b' \<and> threads b' t = Resolved bf \<and> swips b' l = Some bf \<and> isHOT bf"
proof -
  obtain t' where t': "loads (threads b t') = Some p" using h(1) f by (auto simp: held_def)
  then obtain l' bf a where th: "threads b t' = Reading l' p bf a \<or> threads b t' = HasRead l' p bf a" by (cases "threads b t'") auto
  have "l' = l" using gS_evicted [OF bm_inv_atD(4) [OF i]] thread_loads(1) [OF i th] V by (metis option.inject)
  then obtain b1 where b1: "(bm_step flags Internal)\<^sup>*\<^sup>* b b1" "swips b1 l = Some bf" "isHOT bf" "\<forall>t''. t'' \<noteq> t' \<longrightarrow> threads b1 t'' = threads b t''"
    using load_resolves [OF inv th] by blast
  have "t \<noteq> t'" using t' loads_inactive [OF pc] by auto
  then have "inactive (threads b1 t)" using b1(4) pc by simp
  then show ?thesis using hot_resolves b1(2,3) internal_steps_held [OF b1(1) inv h] rtranclp_trans [OF b1(1)] by blast
qed

lemma resolve_possible:
  assumes inv: "bm_inv flags b" and h: "held b" "choices_ok flags b" and pc: "inactive (threads b t)" and sw: "swips b l = Some w"
    and ch: "partition_choice flags b (cold_partition_idx_end b \<le> unat (getPartitionID b (asPageID w))) q" and fl: "dram_free_list (partitions b ! q) \<noteq> []"
  shows "\<exists>b' bf. (bm_step flags Internal)\<^sup>*\<^sup>* b b' \<and> threads b' t = Resolved bf \<and> swips b' l = Some bf \<and> isHOT bf"
proof -
  obtain V \<rho> \<sigma> where i: "bm_inv_at flags V \<rho> \<sigma> b" using inv by (auto simp: bm_inv_def)
  have q: "q < length (partitions b)" using ch by (simp add: partition_choice_def)
  obtain v where v: "V l = Some v" "w = enc v" using bm_inv_atD(2) [OF i] sw by (cases "V l") (auto simp: encodes_def)
  note u = encodes_untagged [OF bm_inv_atD(2) [OF i] v(1)]
  note tests = enc_tests [OF u]
  let ?b = "tryFastResolveSwip t l q b"
  have "bm_step flags Internal b ?b" using pc by (intro bm_step.resolve [OF _ sw ch]) (auto simp: inactive_def)
  then have st: "(bm_step flags Internal)\<^sup>*\<^sup>* b ?b" by (rule r_into_rtranclp)
  show ?thesis
  proof (cases v)
    case (Hot bf)
    then show ?thesis using hot_resolves [OF pc sw _ h(2)] v tests(1) by auto
  next
    case (Cool bf)
    then have "threads ?b t = Resolved bf \<and> swips ?b l = Some bf" "isHOT bf" using sw v tests(1,2) u enc_tests(1) [of "Hot bf"] swip_view_simps(4) [of bf]
      by (simp_all add: tryFastResolveSwip_def resolveSwip_def resolve_cool_def Let_def)
    then show ?thesis using st by blast
  next
    case (Evicted p)
    have V: "V l = Some (Evicted p)" using v(1) Evicted by simp
    note rs = resolveSwip_evicted [OF i pc V q]
    have e: "?b = resolveSwip t l q b" using sw v tests(1) Evicted by (simp add: tryFastResolveSwip_def)
    show ?thesis
    proof (cases "io_get b p")
      case None
      obtain bf rest where "dram_free_list (partitions b ! q) = bf # rest" using fl by (cases "dram_free_list (partitions b ! q)") auto
      then have "threads ?b t = Reading l p bf (next_entry b)" using e rs(1) None by (simp add: resolve_miss_def Let_def)
      then obtain b' where "(bm_step flags Internal)\<^sup>*\<^sup>* ?b b'" "threads b' t = Resolved bf" "swips b' l = Some bf" "isHOT bf"
        using load_resolves internal_steps [OF st inv] by blast
      then show ?thesis using rtranclp_trans [OF st] by blast
    next
      case (Some f)
      show ?thesis
      proof (cases "io_state f = READING")
        case True
        then show ?thesis using loaded_by_other [OF inv h pc i V Some] rs(2) [OF Some] by simp
      next
        case False
        then have "threads ?b t = Resolved (io_bf f) \<and> swips ?b l = Some (io_bf f)" using e rs(1) Some by (simp add: resolve_ready_def Let_def)
        moreover have "isHOT (io_bf f)" using False rs(2) [OF Some] entry_ok_at [OF bm_inv_atD(8) [OF i] Some] enc_tests(1) [of "Hot (io_bf f)"]
          by (simp add: entry_ok_def)
        ultimately show ?thesis using st by blast
      qed
    qed
  qed
qed

lemma resolved_content:
  assumes "bm_inv flags b" "swips b l = Some bf" "isHOT bf"
  shows "pages b l = Some (dt (page (bfs b bf)))"
proof -
  obtain V \<rho> \<sigma> where "bm_inv_at flags V \<rho> \<sigma> b" using assms(1) by (auto simp: bm_inv_def)
  then have E: "encodes (swips b) V" by (rule bm_inv_atD)
  show ?thesis using hot_view [OF E assms(2,3)] by (simp add: pages_view [OF E] contents_def)
qed

lemma parent_exists:
  assumes "bm_inv flags b" "at_cool_frame b"
  shows "\<exists>l. found_parent b l"
proof -
  obtain V \<rho> \<sigma> where i: "bm_inv_at flags V \<rho> \<sigma> b" using assms(1) by (auto simp: bm_inv_def)
  have "\<exists>l. swips b l = Some (swip_cool bf)" if "state (bfs b bf) = COOL" for bf
    using gS_cool [OF bm_inv_atD(4) [OF i] that] bm_inv_atD(2) [OF i] by (metis encodes_def enc.simps(2) option.simps(9))
  then show ?thesis using assms(2) by (cases "pp b") (auto simp: at_cool_frame_def found_parent_def)
qed

section \<open>A run that evicts a page and reads it back\<close>

definition run_flags :: bm_flags where
  "run_flags = \<lparr>hot_cold_partition = False, worker_threads = 1, async_batch_size = 64, ssd_gib = 1\<rparr>"

definition run_config :: bm_config where
  "run_config = \<lparr>partition_bits = 0, dram_pool_size = 2, pool_address = 512, free_limit = 2, cooling_limit = 3, cold_frames = 0, cold_partitions = 0\<rparr>"

definition run_start :: BufferManager where
  "run_start = new_BufferManager run_flags run_config (\<lambda>_. page new_BufferFrame)"

definition run_new :: BufferManager where
  "run_new = (case new_page run_flags 0 False 0 7 [1, 2] run_start of Some b \<Rightarrow> b | None \<Rightarrow> run_start)"

definition run_cool :: BufferManager where
  "run_cool = cool_page 0 (the (swips run_new 0)) run_new"

definition run_phase2 :: BufferManager where
  "run_phase2 = phase2_turn run_flags 0 (pp_begin 0 run_cool)"

definition run_phase3 :: BufferManager where
  "run_phase3 = pp_written (pp_written (pp_submit (phase2_turn run_flags 0 run_phase2)))"

definition run_evicted :: BufferManager where
  "run_evicted = phase3_turn run_flags 0 run_phase3"

definition run_read :: BufferManager where
  "run_read = resolve_read 5 (tryFastResolveSwip 5 0 0 run_evicted)"

lemma frame_address_code [code]: "frame_address c i = of_nat (pool_address c) + of_nat i * 20480"
  by (simp add: frame_address_def)

lemma run_ok: "bm_config_ok run_flags run_config"
  by (simp add: bm_config_ok_def run_flags_def run_config_def)

lemma run_new_reach: "bm_reach run_flags run_start run_new"
proof (rule bm_reach.step [OF bm_reach.init])
  have "\<not> Option.is_none (new_page run_flags 0 False 0 7 [1, 2] run_start)" by code_simp
  then show "bm_step run_flags (NewPage 0 [1, 2]) run_start run_new"
    by (intro bm_step.new [of _ 0 _ False 0 7]) (code_simp, code_simp, auto simp: run_new_def Option.is_none_def split: option.split)
qed

lemma run_cool_reach: "bm_reach run_flags run_start run_cool"
proof (rule bm_reach.step [OF run_new_reach])
  have "pp run_new = Phase1" "0 < length (partitions run_new)" "phase_1_condition (partitions run_new ! 0)" "swips run_new 0 = Some (the (swips run_new 0))"
    "isHOT (the (swips run_new 0))" "is_cooling_candidate (bfs run_new (the (swips run_new 0)))" by code_simp+
  then show "bm_step run_flags Internal run_new run_cool" unfolding run_cool_def by (intro bm_step.cool) auto
qed

lemma run_phase2_reach: "bm_reach run_flags run_start run_phase2"
proof -
  have "pp run_cool = Phase1" "0 < length (partitions run_cool)" by code_simp+
  then have 1: "bm_step run_flags Internal run_cool (pp_begin 0 run_cool)" by (rule bm_step.pp_start)
  have "at_cool_frame (pp_begin 0 run_cool) \<longrightarrow> found_parent (pp_begin 0 run_cool) 0" by code_simp
  then show ?thesis unfolding run_phase2_def using bm_reach.step [OF run_cool_reach 1] bm_step.phase2 bm_reach.step by blast
qed

lemma run_phase3_reach: "bm_reach run_flags run_start run_phase3"
proof -
  have "at_cool_frame run_phase2 \<longrightarrow> found_parent run_phase2 0" by code_simp
  then have "bm_reach run_flags run_start (phase2_turn run_flags 0 run_phase2)" using run_phase2_reach bm_step.phase2 bm_reach.step by blast
  then have "bm_reach run_flags run_start (pp_submit (phase2_turn run_flags 0 run_phase2))" using bm_step.submit bm_reach.step by blast
  then have "bm_reach run_flags run_start (pp_written (pp_submit (phase2_turn run_flags 0 run_phase2)))" using bm_step.written bm_reach.step by blast
  then show ?thesis unfolding run_phase3_def using bm_step.written bm_reach.step by blast
qed

lemma run_evicted_reach: "bm_reach run_flags run_start run_evicted"
proof -
  have "at_cool_frame run_phase3 \<longrightarrow> found_parent run_phase3 0" by code_simp
  then show ?thesis unfolding run_evicted_def using run_phase3_reach bm_step.phase3 bm_reach.step by blast
qed

lemma run_resolve: "threads run_evicted 5 = Outside" "swips run_evicted 0 = Some (swip_evict 0)" "0 < length (partitions run_evicted)"
    "dram_free_list (partitions run_evicted ! 0) \<noteq> []"
  by code_simp+

lemma run_choice: "partition_choice run_flags run_evicted hot 0"
  using run_resolve(3) by (simp add: partition_choice_def run_flags_def)

lemma run_read_reach: "bm_reach run_flags run_start run_read"
proof -
  have "bm_step run_flags Internal run_evicted (tryFastResolveSwip 5 0 0 run_evicted)"
    using run_resolve(1) by (intro bm_step.resolve [OF _ run_resolve(2) run_choice]) simp
  then show ?thesis unfolding run_read_def using run_evicted_reach bm_step.read_page bm_reach.step by blast
qed

end
