(* ===== verification/BufferProps.thy ===== *)
theory BufferProps
  imports BufferReach
begin




section \<open>The buffer manager as a store of pages\<close>

text \<open>
  What a data structure relies on: every step has its effect on the pages, as long as an invariant holds that all steps keep.
  A run is a sequence of steps with the operations they stand for.
\<close>

inductive labelled_run :: "('a \<Rightarrow> 's \<Rightarrow> 's \<Rightarrow> bool) \<Rightarrow> 's \<Rightarrow> 'a list \<Rightarrow> 's \<Rightarrow> bool" for step s where
  none: "labelled_run step s [] s"
| more: "labelled_run step s ops s' \<Longrightarrow> step a s' s'' \<Longrightarrow> labelled_run step s (ops @ [a]) s''"






lemma run_reach: "labelled_run (bm_step flags) b0 ops b \<Longrightarrow> bm_reach flags b0 b"
  by (induction rule: labelled_run.induct) (auto intro: bm_reach.intros)


section \<open>The properties\<close>







end
