(* ===== verification/Spec2Isabelle.thy ===== *)
theory Spec2Isabelle
  imports Latch LockManager TwoTreeProps FreeList BufferProps
begin

text \<open>
  \<^bold>\<open>A verification library for 2-Tree\<close>

  2-Tree is a C++ storage engine: B-trees over a buffer manager in the style of LeanStore, and two-tier stores that keep hot
  records in one tree and cold records in another. Paths below are relative to src/backend/, and those that start with
  storage/, sync-primitives/ or utils/ to src/backend/leanstore/. The code is modelled as the release build runs it:
  \<open>assert\<close> is compiled out, \<open>ensure\<close> throws.

  \<^bold>\<open>The parts and how they interact\<close>

  The adapter \<open>ConcurrentTwoBTreeAdapter\<close> holds two B-trees and calls them through the interface of key-value operations. It
  locks records through the table of version words of the lock manager. A B-tree (\<open>BTreeLL\<close> over \<open>BTreeGeneric\<close>) descends from
  page to page; a page is a \<open>BTreeNode\<close>. References between pages are swips, which the buffer manager resolves to frames. The page
  provider thread takes frames away from pages that are not used, through the states hot, cool and evicted, and returns them to
  the free lists of the partitions. Latches with version counters protect frames.

  \<^bold>\<open>The theories\<close>

  \<^item> Prelude: the machine types, the truncation of \<open>int\<close> expressions stored into unsigned fields, byte memory, the type \<open>jmu\<close> of
    code that may jump (utils/JumpMU.hpp), list lemmas.
  \<^item> Keys: \<open>cmpKeys\<close>, heads (storage/btree/core/BTreeNode.hpp), and the order-preserving \<open>fold\<close>/\<open>unfold\<close> encodings
    (leanstore/BTreeAdapter.hpp).
  \<^item> BTreeNode, BTreeNodeOps, BTreeNodeInsert, BTreeNodeSplit: the slotted page (storage/btree/core/BTreeNode.hpp and .cpp). The record
    \<open>btree_node\<close> has the header fields, the hints, the slots and the bytes of the page. Search with head comparison and hints,
    \<open>copyKeyValueRange\<close> with its fast path, compaction, insertion, removal, separators, split and merge. The lemmas show what
    each does to the sorted list of entries and that the invariant of the page (no overlap, space accounting, prefix
    truncation, heads, hints) is kept.
  \<^item> BTreeGeneric: descent, \<open>findParent\<close>, \<open>trySplit\<close>, \<open>tryMerge\<close>, page counts (storage/btree/core/BTreeGeneric.hpp and .cpp), on a
    record of frames with a free list. BTreeInv has the tree invariant, BTreeFind, BTreeSplit and BTreeMerge that descents reach the
    right page and that splits and merges keep the invariant and the entries.
  \<^item> BTreeIterator: the shared and exclusive iterators (storage/btree/core/BTreeGenericIterator.hpp). BTreeLL: the operations and
    scans of storage/btree/BTreeLL.cpp. BTreeMap and BTreeScan relate them to a finite map and its sorted entries.
  \<^item> BTreeInterface: the operations an adapter calls, as the record \<open>btree_ops\<close>, and the locale \<open>btree_contract\<close> with what it relies on;
    the interpretation \<open>ll\<close> proves the contract for \<open>BTreeLL\<close>. BTreeProps: the properties of the B-tree.
  \<^item> Atomics: programs of atomic actions on shared memory and their interleavings. Latch: the hybrid latch and its guards
    (sync-primitives/Latch.hpp, PlainGuard.hpp). LockManager: the optimistic and pessimistic record locks
    (LockManager/LockManager.hpp, utils/FNVHash.cpp). Each method is the program of its atomic actions; the invariants are
    about all interleavings of any number of threads.
  \<^item> TaggedPayload, ConcurrentTwoBTree, TwoTreeScan: the adapter of twotree/ConcurrentTwoBTree.hpp, over \<open>btree_ops\<close>. TwoTreeCorrect
    and TwoTreeOps prove it in \<open>btree_contract\<close>, TwoTreeProps states the results for \<open>BTreeLL\<close>, including the branches on which
    an operation is lost.
  \<^item> Swip, FreeList, Partition: the files of the same names in storage/buffer-manager/. FreeList is verified twice, for one worker
    and for interleaved atomic actions, where a pop is exclusive until a frame is popped and pushed back under it. The locale
    \<open>io_table\<close> is the contract of the table of I/O frames; the interpretation \<open>ht\<close> proves it for the chained hash table.
  \<^item> BufferManager: the state and the steps of \<open>resolveSwip\<close>, \<open>allocatePage\<close>, \<open>reclaimPage\<close>, \<open>serialize\<close>, \<open>deserialize\<close>
    (storage/buffer-manager/BufferManager.cpp), of the page guards (sync-primitives/PageGuard.hpp) and of the page provider with
    its write buffer (PageProviderThread.cpp, AsyncWriteBuffer.cpp), and the relation \<open>bm_step\<close> of all interleavings.
    BufferViews: functions through which the state is seen. BufferInv: the invariant. BufferResolve, BufferLoad, BufferPages,
    BufferProvider, BufferWriter: every step keeps it. BufferReach: reachable states, page numbers, progress, and a concrete run.
    BufferProps: the locale \<open>page_store\<close>, what data structures rely on, its interpretation \<open>bm\<close> and the properties.

  \<^bold>\<open>What the properties show\<close>

  \<^item> B-tree: insert, remove, lookup, update and the ascending scan implement a finite map with sorted entries; splits and
    merges keep the tree well-formed; \<open>findParent\<close> and the counts are right. The descending scan skips an entry at some
    leaf boundaries, and upsert can lose an entry: both are proved as the code behaves.
  \<^item> Pages: search, insertion, removal, compaction, split and merge are correct on the bytes of the page.
  \<^item> Keys: heads decide comparisons, the comparison is lexicographic, the encodings keep order and can be undone.
  \<^item> Adapter: lookup, insert, update, put, remove and scan against one map, with the exact conditions under which they hold.
  \<^item> Latches and locks: exclusion, consistency of validated optimistic reads, and the overflow of the reader count.
  \<^item> Buffer manager: all interleavings refine a map from pages to contents; page numbers are distinct, counted exactly, and not
    reused after a restart; a thread that resolves a swip can always be driven to the frame of the page.

  \<^bold>\<open>Assumptions, bounds and fuel\<close>

  \<^item> Loops that need not end in the code are \<open>partial_function (option)\<close>; \<open>None\<close> is non-termination, and the theorems prove that
    the result is \<open>Some\<close>. There is no fuel, except for interleavings, which are relations.
  \<^item> The B-tree and the adapter are run by one worker with all pages resident; an operation of the tree jumps when the free list
    of frames has fewer than two entries, and the theorems about success assume it has more. Keys and payloads are bounded as the
    page layout requires (the hypotheses name the bounds).
  \<^item> The buffer manager is run by any number of workers and one page provider thread, the default of \<open>FLAGS_pp_threads\<close>, with
    in-place writes and without the log, also the defaults. A step is the code under one set of latches and mutexes. Whether an optimistic
    guard validates is left open: there is a step for both outcomes. Free lists are stacks there; FreeList says when the
    lock-free implementation is one. A new manager has \<open>2 ^ partition_bits\<close> partitions, the pool lies below address \<open>2 ^ 62\<close>, and the device
    has fewer than \<open>2 ^ 50\<close> pages, so that page numbers do not reach the tag bits of a swip and fit the double through which
    \<open>deserialize\<close> parses them. The page counter \<open>GSN\<close> does not wrap. That \<open>findParent\<close> returns the swip that refers to a
    frame is the guard of the steps of the page provider; such a swip always exists.
  \<^item> Atomic actions are sequentially consistent.

  \<^bold>\<open>Not modelled\<close>

  \<^item> The write-ahead log, group commit and transactions (concurrency-recovery/): off by default, and no code reads the log back.
  \<^item> XMerge, checkpoint and serialisation of tree metadata in \<open>BTreeGeneric\<close>; concurrent workers inside one B-tree: the latches and
    the buffer manager are verified on their own, and the tree is not run on top of their interleaved steps.
  \<^item> The page provider's choice of the frame to cool, more than one provider thread, out-of-place writes, time measurements.
  \<^item> The other storage engines and baselines: linear hashing, heap files, the other two-tier stores, anti-caching, RocksDB and
    TreeLine adapters, ART, btreeolc and stx. They are alternatives that the modelled adapter does not reach, and several are adapted
    third-party code or wrap libraries that are not part of the sources. \<open>SpillTree\<close> has no implementation.
  \<^item> Start-up, flags, JSON metadata, profiling, random generators, benchmarks: input and output without logic to verify.
\<close>

end
